(* ===== verification/C_Prelude.thy ===== *)
theory C_Prelude
  imports Main "HOL-Library.Word"
begin

unbundle bit_operations_syntax

text \<open>
  What the components share. The repository holds C programs, and every C operation
  modelled here is a function into \<open>'a run\<close>: it returns a value, ends the process with an
  exit status, or does something C leaves undefined (\<open>fault\<close>). Statements are put in sequence
  with \<open>bindR\<close>. The judgement \<open>ends m E P\<close> says that \<open>m\<close> does nothing undefined and either
  returns a value that satisfies \<open>P\<close> or exits with a status that satisfies \<open>E\<close>; \<open>returns m P\<close>
  is the case in which it cannot exit. Machine integers keep the width they have on the LP64
  target (\<open>int\<close> 32 bits, \<open>long\<close>, \<open>size_t\<close> and \<open>uint64_t\<close> 64 bits).
\<close>

section \<open>Machine types\<close>

type_synonym u8 = "8 word"
type_synonym u32 = "32 word"
type_synonym u64 = "64 word"
type_synonym c_int = "32 word"

section \<open>Outcomes of C code\<close>

text \<open>
  \<open>NullDeref\<close>: a load or store through a null (or null-based) pointer. \<open>OutOfBounds\<close>: an
  access outside its object. \<open>Uninit\<close>: use of an indeterminate value. \<open>BadFree\<close>: a free of
  something that is not a live heap object. \<open>Dangling\<close>: an access to an object that is no
  longer live. \<open>AssertFail\<close>: a failed \<open>assert\<close>. \<open>OutOfFuel\<close>: a loop of the model that
  was cut off; no theorem concludes from it that the code returns.
\<close>

datatype fault =
  NullDeref | OutOfBounds | Uninit | BadFree | Dangling | AssertFail | OutOfFuel

datatype 'a run = Ok 'a | Exit int | Fault fault

primrec bindR :: "'a run \<Rightarrow> ('a \<Rightarrow> 'b run) \<Rightarrow> 'b run" where
  "bindR (Ok x) f = f x"
| "bindR (Exit n) f = Exit n"
| "bindR (Fault e) f = Fault e"

primrec ends :: "'a run \<Rightarrow> (int \<Rightarrow> bool) \<Rightarrow> ('a \<Rightarrow> bool) \<Rightarrow> bool" where
  "ends (Ok x) E P = P x"
| "ends (Exit n) E P = E n"
| "ends (Fault e) E P = False"

abbreviation returns :: "'a run \<Rightarrow> ('a \<Rightarrow> bool) \<Rightarrow> bool" where
  "returns m P \<equiv> ends m (\<lambda>_. False) P"

named_theorems runs
  \<comment> \<open>rules that put together \<open>ends\<close> judgements\<close>

named_theorems word_facts
  \<comment> \<open>evaluation of the bit patterns the code computes with\<close>

lemma bindR_assoc: "bindR (bindR m f) g = bindR m (\<lambda>x. bindR (f x) g)"
  by (cases m) auto

lemma bindR_Ok_iff [simp]: "bindR m f = Ok y \<longleftrightarrow> (\<exists>x. m = Ok x \<and> f x = Ok y)"
  by (cases m) auto

lemma bindR_cong [fundef_cong]:
  "m = m' \<Longrightarrow> (\<And>x. m' = Ok x \<Longrightarrow> f x = f' x) \<Longrightarrow> bindR m f = bindR m' f'"
  by (cases m') auto

lemma ends_iff: "ends m E P \<longleftrightarrow> (\<exists>x. m = Ok x \<and> P x) \<or> (\<exists>n. m = Exit n \<and> E n)"
  by (cases m) auto

lemma returnsE:
  assumes "returns m P" obtains x where "m = Ok x" and "P x"
  using assms by (auto simp: ends_iff)

lemma ends_bind [runs]:
  "ends m E P \<Longrightarrow> (\<And>x. P x \<Longrightarrow> ends (f x) E Q) \<Longrightarrow> ends (bindR m f) E Q"
  by (cases m) auto

lemma ends_mono:
  "ends m E P \<Longrightarrow> (\<And>n. E n \<Longrightarrow> F n) \<Longrightarrow> (\<And>x. P x \<Longrightarrow> Q x) \<Longrightarrow> ends m F Q"
  by (cases m) auto

lemma ends_mono_Ok:
  "ends m E P \<Longrightarrow> (\<And>x. m = Ok x \<Longrightarrow> P x \<Longrightarrow> Q x) \<Longrightarrow> (\<And>n. E n \<Longrightarrow> F n) \<Longrightarrow> ends m F Q"
  by (cases m) auto

lemma ends_Ok: "ends m E P \<Longrightarrow> m = Ok x \<Longrightarrow> P x"
  by simp

section \<open>Statement lists\<close>

text \<open>A block of statements that each take the program state to its successor.\<close>

primrec block :: "('s \<Rightarrow> 's run) list \<Rightarrow> 's \<Rightarrow> 's run" where
  "block [] s = Ok s"
| "block (c # cs) s = bindR (c s) (block cs)"

lemma bindR_Ok_right [simp]: "bindR m Ok = m"
  by (cases m) auto

lemma block_Nil [simp]: "block [] = Ok"
  by (rule ext) simp

lemma block_append: "block (cs @ ds) s = bindR (block cs s) (block ds)"
proof (induction cs arbitrary: s)
  case Nil
  then show ?case by simp
next
  case (Cons c cs)
  then show ?case by (cases "c s") auto
qed

lemma ends_block_Cons [runs]:
  "ends (c s) E P \<Longrightarrow> (\<And>t. P t \<Longrightarrow> ends (block cs t) E Q) \<Longrightarrow> ends (block (c # cs) s) E Q"
  by (simp add: ends_bind)

section \<open>Counted loops\<close>

text \<open>\<open>for (i = 0; i < n; i++) body(i)\<close>, with \<open>i\<close> as a natural number.\<close>

fun for_upto :: "nat \<Rightarrow> (nat \<Rightarrow> 's \<Rightarrow> 's run) \<Rightarrow> 's \<Rightarrow> 's run" where
  "for_upto 0 body s = Ok s"
| "for_upto (Suc n) body s = bindR (for_upto n body s) (body n)"

lemma ends_for_upto:
  assumes "I 0 s" and "\<And>i t. i < n \<Longrightarrow> I i t \<Longrightarrow> ends (body i t) E (I (Suc i))"
  shows "ends (for_upto n body s) E (I n)"
  using assms(2)
proof (induction n)
  case 0
  then show ?case using assms(1) by simp
next
  case (Suc n)
  have "ends (for_upto n body s) E (I n)" using Suc by simp
  then show ?case using Suc.prems [of n] by (auto intro: ends_bind)
qed

section \<open>Words\<close>

lemma drop_push_bit_id:
  assumes "unat (w :: 'a::len word) < 2 ^ (LENGTH('a) - n)"
  shows "drop_bit n (push_bit n w) = w"
proof (rule bit_word_eqI)
  fix k assume "k < LENGTH('a)"
  have "\<not> bit w j" if "LENGTH('a) - n \<le> j" for j
  proof -
    have "unat w < 2 ^ j"
      using assms that by (meson less_le_trans one_le_numeral power_increasing)
    then have "\<not> bit (unat w) j" by (simp add: bit_iff_odd)
    then show ?thesis by (simp add: bit_unsigned_iff)
  qed
  then have "bit w k \<Longrightarrow> k < LENGTH('a) - n" using leI by blast
  then show "bit (drop_bit n (push_bit n w)) k = bit w k"
    by (auto simp: bit_simps)
qed

end
