(* ===== verification/Os_Memory.thy ===== *)
theory Os_Memory
  imports C_Prelude
begin

text \<open>
  The simulated physical memory manager of \<open>hw1/os.c\<close>: the static array \<open>pages\<close>, the
  static counter \<open>nalloc\<close>, \<open>alloc_page_frame\<close> and \<open>phys_to_virt\<close>, over the anonymous
  memory that \<open>mmap\<close> hands out. \<open>mmap\<close> is the operating system's: whether its \<open>n\<close>-th call
  succeeds is the parameter \<open>mm n\<close>, and a successful call maps a fresh region of 4096 zero
  bytes, seen here as 512 words of 64 bits because \<open>pt.c\<close> treats a page as an array of
  \<open>uint64_t\<close>.
\<close>

section \<open>State\<close>

definition NPAGES :: u64 where
  "NPAGES = 1024 * 1024"

text \<open>
  A pointer value: an offset into a mapped region, or an offset from the null pointer
  (\<open>NullPlus 0\<close> is \<open>NULL\<close>).
\<close>

datatype vptr = NullPlus u64 | At nat u64

primrec ptr_plus :: "vptr \<Rightarrow> u64 \<Rightarrow> vptr" where
  "ptr_plus (NullPlus o1) k = NullPlus (o1 + k)"
| "ptr_plus (At r o1) k = At r (o1 + k)"

record os_state =
  nalloc :: u64
  pages :: "u64 \<Rightarrow> vptr"
  mapped :: nat
  mem :: "nat \<Rightarrow> nat \<Rightarrow> u64"
  out :: "string list"

definition os_init :: os_state where
  "os_init = \<lparr>nalloc = 0, pages = (\<lambda>_. NullPlus 0), mapped = 0, mem = (\<lambda>_ _. 0), out = []\<rparr>"

section \<open>Operations\<close>

text \<open>The \<open>mmap\<close> call: a fresh zero-filled region, or \<open>MAP_FAILED\<close>.\<close>

definition mmap_page :: "(nat \<Rightarrow> bool) \<Rightarrow> os_state \<Rightarrow> (vptr \<times> os_state) option" where
  "mmap_page mm s =
     (if mm (mapped s)
      then Some (At (mapped s) 0,
                 s\<lparr>mapped := Suc (mapped s), mem := (mem s)(mapped s := (\<lambda>_. 0))\<rparr>)
      else None)"

definition alloc_page_frame :: "(nat \<Rightarrow> bool) \<Rightarrow> os_state \<Rightarrow> (u64 \<times> os_state) run" where
  "alloc_page_frame mm s =
     (if nalloc s = NPAGES then Exit 1
      else
        (let ppn = nalloc s; s1 = s\<lparr>nalloc := nalloc s + 1\<rparr>
         in case mmap_page mm s1 of
              None \<Rightarrow> Exit 1
            | Some (va, s2) \<Rightarrow>
                if ppn < NPAGES
                then Ok (ppn + 0xbaaaaaad, s2\<lparr>pages := (pages s2)(ppn := va)\<rparr>)
                else Fault OutOfBounds))"

definition phys_to_virt :: "os_state \<Rightarrow> u64 \<Rightarrow> vptr" where
  "phys_to_virt s phys_addr =
     (let ppn = drop_bit 12 phys_addr - 0xbaaaaaad;
          off = phys_addr AND 0xfff
      in if ppn < NPAGES then ptr_plus (pages s ppn) off else NullPlus 0)"

text \<open>
  The accesses \<open>current[index]\<close> of \<open>pt.c\<close>, where \<open>current\<close> is a \<open>uint64_t *\<close>: the
  word must be aligned and lie in the 4096 bytes of the region.
\<close>

definition slot_of :: "vptr \<Rightarrow> u64 \<Rightarrow> (nat \<times> nat) run" where
  "slot_of p i =
     (case p of
        NullPlus _ \<Rightarrow> Fault NullDeref
      | At r off \<Rightarrow>
          if unat off mod 8 = 0 \<and> unat off + 8 * unat i + 8 \<le> 4096
          then Ok (r, unat off div 8 + unat i)
          else Fault OutOfBounds)"

definition load64 :: "os_state \<Rightarrow> vptr \<Rightarrow> u64 \<Rightarrow> u64 run" where
  "load64 s p i = bindR (slot_of p i) (\<lambda>(r, k). Ok (mem s r k))"

definition store64 :: "os_state \<Rightarrow> vptr \<Rightarrow> u64 \<Rightarrow> u64 \<Rightarrow> os_state run" where
  "store64 s p i v =
     bindR (slot_of p i) (\<lambda>(r, k). Ok (s\<lparr>mem := (mem s)(r := (mem s r)(k := v))\<rparr>))"

section \<open>Frames\<close>

text \<open>
  The \<open>f\<close>-th frame handed out has the page number \<open>frame_ppn f\<close> and lives in region \<open>f\<close>.
  The invariant ties the counter, the array and the mapped regions together.
\<close>

definition frame_ppn :: "nat \<Rightarrow> u64" where
  "frame_ppn f = of_nat f + 0xbaaaaaad"

definition os_inv :: "os_state \<Rightarrow> bool" where
  "os_inv s \<longleftrightarrow>
     mapped s = unat (nalloc s) \<and> mapped s \<le> 1048576 \<and>
     (\<forall>f < mapped s. pages s (of_nat f) = At f 0)"

lemma NPAGES_eq [simp]: "NPAGES = 1048576"
  by (simp add: NPAGES_def)

lemma os_inv_init: "os_inv os_init"
  by (simp add: os_inv_def os_init_def)

lemma unat_of_nat_frame [simp]: "f \<le> 1048576 \<Longrightarrow> unat (of_nat f :: u64) = f"
  by (simp add: unat_of_nat take_bit_nat_eq_self)

lemma of_nat_frame_inject:
  "f \<le> 1048576 \<Longrightarrow> g \<le> 1048576 \<Longrightarrow> (of_nat f :: u64) = of_nat g \<longleftrightarrow> f = g"
  by (metis unat_of_nat_frame)

lemma nalloc_of_mapped: "os_inv s \<Longrightarrow> nalloc s = of_nat (mapped s)"
  by (simp add: os_inv_def)

lemma frame_ppn_unat: "f \<le> 1048576 \<Longrightarrow> unat (frame_ppn f) = f + 0xbaaaaaad"
  by (simp add: frame_ppn_def unat_word_ariths)

lemma frame_ppn_inject:
  "f \<le> 1048576 \<Longrightarrow> g \<le> 1048576 \<Longrightarrow> frame_ppn f = frame_ppn g \<longleftrightarrow> f = g"
  by (metis add_right_cancel frame_ppn_unat)

text \<open>The three outcomes of an allocation.\<close>

lemma alloc_page_frame_Ok:
  assumes "os_inv s" and "mapped s < 1048576" and "mm (mapped s)"
  shows "alloc_page_frame mm s =
    Ok (frame_ppn (mapped s),
        s\<lparr>nalloc := nalloc s + 1, pages := (pages s)(nalloc s := At (mapped s) 0),
          mapped := Suc (mapped s), mem := (mem s)(mapped s := (\<lambda>_. 0))\<rparr>)"
proof -
  have "unat (nalloc s) = mapped s" using assms(1) by (simp add: os_inv_def)
  then have "nalloc s < 1048576" using assms(2) by (simp add: word_less_nat_alt)
  moreover have "nalloc s = of_nat (mapped s)" using assms(1) by (rule nalloc_of_mapped)
  ultimately show ?thesis
    using assms(3) by (auto simp: alloc_page_frame_def mmap_page_def Let_def frame_ppn_def)
qed

lemma os_inv_alloc:
  assumes inv: "os_inv s" and ok: "alloc_page_frame mm s = Ok (ppn, s')"
  shows "os_inv s' \<and> mapped s < 1048576 \<and> ppn = frame_ppn (mapped s) \<and>
    mapped s' = Suc (mapped s) \<and> mem s' = (mem s)(mapped s := (\<lambda>_. 0)) \<and> out s' = out s"
proof -
  have n: "nalloc s = of_nat (mapped s)" using inv by (rule nalloc_of_mapped)
  from ok have "nalloc s \<noteq> 1048576" and mm: "mm (mapped s)"
    by (auto simp: alloc_page_frame_def mmap_page_def Let_def split: if_splits option.splits)
  moreover have le: "mapped s \<le> 1048576" using inv by (simp add: os_inv_def)
  ultimately have lt: "mapped s < 1048576" using n by (cases "mapped s = 1048576") auto
  note eq = alloc_page_frame_Ok [where mm = mm, OF inv lt mm]
  have "os_inv s'"
    using ok eq inv lt n by (auto simp: os_inv_def unat_word_ariths less_Suc_eq of_nat_frame_inject)
  with ok eq lt show ?thesis by auto
qed

text \<open>A frame's physical address translates to the start of its region.\<close>

lemma phys_to_virt_frame:
  assumes "os_inv s" and "f < mapped s"
  shows "phys_to_virt s (push_bit 12 (frame_ppn f)) = At f 0"
proof -
  have f: "f < 1048576" using assms by (simp add: os_inv_def)
  have "drop_bit 12 (push_bit 12 (frame_ppn f)) = frame_ppn f"
    by (rule drop_push_bit_id) (use f in \<open>simp add: frame_ppn_unat\<close>)
  moreover have "push_bit 12 (frame_ppn f) AND 0xfff = 0"
  proof -
    have "(0xfff :: u64) = mask 12" by (simp add: mask_eq_exp_minus_1)
    then show ?thesis by (simp only: flip: take_bit_eq_mask) (simp add: take_bit_push_bit)
  qed
  moreover have "frame_ppn f - 0xbaaaaaad = of_nat f" by (simp add: frame_ppn_def)
  moreover have "(of_nat f :: u64) < 1048576"
    using f by (simp add: word_less_nat_alt)
  ultimately show ?thesis
    using assms by (simp add: phys_to_virt_def Let_def os_inv_def)
qed

lemma load64_frame [simp]: "unat i < 512 \<Longrightarrow> load64 s (At f 0) i = Ok (mem s f (unat i))"
  by (simp add: load64_def slot_of_def)

lemma store64_frame [simp]:
  "unat i < 512 \<Longrightarrow>
   store64 s (At f 0) i v = Ok (s\<lparr>mem := (mem s)(f := (mem s f)(unat i := v))\<rparr>)"
  by (simp add: store64_def slot_of_def)

end
