(* ===== verification/Page_Table.thy ===== *)
theory Page_Table
  imports Os_Memory
begin

text \<open>
  The multi-level page table of \<open>hw1/pt.c\<close>: \<open>get_index\<close>, \<open>page_table_update\<close> and
  \<open>page_table_query\<close> over the simulated memory of \<open>os.c\<close>, with the loops over the levels 4
  to 1 as recursions on the level. The theorems show that the trie is a finite map: its
  well-formedness invariant (every valid inner entry points to a frame of the level below, no
  frame is shared) is kept by both ways memory changes, a query never faults, and a query
  after an update sees exactly the updated key. The key of a page number is bits 12 to 56 of
  it, since \<open>get_index\<close> shifts the page number as if it were an address.
\<close>

section \<open>Operations\<close>

definition NO_MAPPING :: u64 where
  "NO_MAPPING = NOT 0"

definition get_index :: "u64 \<Rightarrow> nat \<Rightarrow> u64" where
  "get_index vpn level = drop_bit (12 + 9 * level) vpn AND 0x1FF"

text \<open>The mask \<open>~0xFFF\<close>: an \<open>int\<close> that C widens, with its sign, to 64 bits.\<close>

definition frame_mask :: u64 where
  "frame_mask = signed (NOT 0xFFF :: c_int)"

text \<open>
  One run of the loop of \<open>page_table_update\<close> from level \<open>level\<close> down to level 1: \<open>None\<close> is
  the early \<open>return\<close> of the unmapping case, \<open>Some current\<close> the pointer after the loop.
\<close>

fun update_walk ::
    "(nat \<Rightarrow> bool) \<Rightarrow> nat \<Rightarrow> vptr \<Rightarrow> u64 \<Rightarrow> u64 \<Rightarrow> os_state \<Rightarrow> (vptr option \<times> os_state) run" where
  "update_walk mm 0 current vpn ppn s = Ok (Some current, s)"
| "update_walk mm (Suc l) current vpn ppn s =
     (let index = get_index vpn (Suc l)
      in bindR (load64 s current index) (\<lambda>e.
         if e AND 1 = 0 \<and> ppn = NO_MAPPING then Ok (None, s)
         else
           bindR
             (if e AND 1 = 0
              then bindR (alloc_page_frame mm s) (\<lambda>(frame, s1).
                   store64 s1 current index (push_bit 12 frame OR 1))
              else Ok s)
             (\<lambda>s2. bindR (load64 s2 current index) (\<lambda>e2.
                update_walk mm l (phys_to_virt s2 (e2 AND frame_mask)) vpn ppn s2))))"

definition page_table_update ::
    "(nat \<Rightarrow> bool) \<Rightarrow> u64 \<Rightarrow> u64 \<Rightarrow> u64 \<Rightarrow> os_state \<Rightarrow> os_state run" where
  "page_table_update mm pt vpn ppn s =
     bindR (update_walk mm 4 (phys_to_virt s (push_bit 12 pt)) vpn ppn s) (\<lambda>(cur, s1).
       case cur of
         None \<Rightarrow> Ok s1
       | Some current \<Rightarrow>
           (let index = get_index vpn 0
            in if ppn = NO_MAPPING then store64 s1 current index 0
               else store64 s1 current index (push_bit 12 ppn OR 1)))"

fun query_walk :: "nat \<Rightarrow> vptr \<Rightarrow> u64 \<Rightarrow> os_state \<Rightarrow> vptr option run" where
  "query_walk 0 current vpn s = Ok (Some current)"
| "query_walk (Suc l) current vpn s =
     (let index = get_index vpn (Suc l)
      in bindR (load64 s current index) (\<lambda>e.
         if e AND 1 = 0 then Ok None
         else bindR (load64 s current index) (\<lambda>e2.
                query_walk l (phys_to_virt s (e2 AND frame_mask)) vpn s)))"

definition page_table_query :: "u64 \<Rightarrow> u64 \<Rightarrow> os_state \<Rightarrow> u64 run" where
  "page_table_query pt vpn s =
     bindR (query_walk 4 (phys_to_virt s (push_bit 12 pt)) vpn s) (\<lambda>cur.
       case cur of
         None \<Rightarrow> Ok NO_MAPPING
       | Some current \<Rightarrow>
           (let index = get_index vpn 0
            in bindR (load64 s current index) (\<lambda>e.
               if e AND 1 = 0 then Ok NO_MAPPING
               else bindR (load64 s current index) (\<lambda>e2. Ok (drop_bit 12 e2)))))"

section \<open>Bit patterns\<close>

lemma frame_mask_eq: "frame_mask = NOT (mask 12)"
  by (simp add: frame_mask_def mask_eq_exp_minus_1)

lemma get_index_bound [simp]: "unat (get_index vpn l) < 512"
proof -
  have "(0x1FF :: u64) = mask 9" by (simp add: mask_eq_exp_minus_1)
  then have "get_index vpn l = take_bit 9 (drop_bit (12 + 9 * l) vpn)"
    by (simp only: get_index_def flip: take_bit_eq_mask)
  then show ?thesis by (simp add: unsigned_take_bit_eq take_bit_nat_def)
qed

lemma valid_pte [simp]: "(push_bit 12 (x :: u64) OR 1) AND 1 = 1"
  by (rule bit_word_eqI) (auto simp: bit_simps)

lemma pte_frame [simp]: "(push_bit 12 (x :: u64) OR 1) AND frame_mask = push_bit 12 x"
  unfolding frame_mask_eq by (rule bit_word_eqI) (auto simp: bit_simps)

lemma pte_ppn: "drop_bit 12 (push_bit 12 (x :: u64) OR 1) = take_bit 52 x"
  by (rule bit_word_eqI) (auto simp: bit_simps)

lemma shifted_ppn [simp]: "drop_bit 12 (push_bit 12 (x :: u64)) = take_bit 52 x"
  by (rule bit_word_eqI) (auto simp: bit_simps)

lemma one_and_one [simp]: "(1 :: u64) AND 1 = 1" "(0 :: u64) AND 1 = 0"
  by simp_all

lemma drop12_bound: "drop_bit 12 (e :: u64) < 2 ^ 52"
proof -
  have "unat e < 2 ^ 64" using unsigned_less [of e] by simp
  then show ?thesis
    by (simp add: word_less_nat_alt unsigned_drop_bit_eq drop_bit_nat_def take_bit_nat_def)
qed

lemma take_bit_not_NO_MAPPING: "take_bit 52 (x :: u64) \<noteq> NO_MAPPING"
proof
  assume "take_bit 52 x = NO_MAPPING"
  then have "bit (take_bit 52 x) 60 = bit NO_MAPPING 60" by simp
  then show False by (simp add: NO_MAPPING_def bit_simps)
qed


section \<open>The trie as a map\<close>

text \<open>
  \<open>pte g\<close> is the entry that points to frame \<open>g\<close>, \<open>frame_of\<close> reads it back. \<open>walk\<close> follows
  the entries from a frame of level \<open>l\<close> to the leaf frame, \<open>look\<close> reads the mapping there,
  and \<open>key\<close> is the part of a page number that the indices depend on.
\<close>

definition pte :: "nat \<Rightarrow> u64" where
  "pte g = push_bit 12 (frame_ppn g) OR 1"

definition frame_of :: "u64 \<Rightarrow> nat" where
  "frame_of e = unat (drop_bit 12 e - 0xbaaaaaad)"

definition entry :: "os_state \<Rightarrow> nat \<Rightarrow> u64 \<Rightarrow> nat \<Rightarrow> u64" where
  "entry s f vpn l = mem s f (unat (get_index vpn l))"

definition leaf_value :: "u64 \<Rightarrow> u64" where
  "leaf_value e = (if e AND 1 = 0 then NO_MAPPING else drop_bit 12 e)"

fun walk :: "os_state \<Rightarrow> nat \<Rightarrow> nat \<Rightarrow> u64 \<Rightarrow> nat option" where
  "walk s 0 f vpn = Some f"
| "walk s (Suc l) f vpn =
     (if entry s f vpn (Suc l) AND 1 = 0 then None
      else walk s l (frame_of (entry s f vpn (Suc l))) vpn)"

definition look :: "os_state \<Rightarrow> nat \<Rightarrow> nat \<Rightarrow> u64 \<Rightarrow> u64" where
  "look s l f vpn =
     (case walk s l f vpn of None \<Rightarrow> NO_MAPPING | Some g \<Rightarrow> leaf_value (entry s g vpn 0))"

definition key :: "u64 \<Rightarrow> u64" where
  "key vpn = take_bit 45 (drop_bit 12 vpn)"

text \<open>
  The invariant, for an assignment \<open>lv\<close> of levels to frames: the valid entries of a frame of
  level \<open>l + 1\<close> point to frames of level \<open>l\<close>, and no frame has two parents. Roots have
  level 4, so nothing points to them.
\<close>

definition links_ok :: "(nat \<Rightarrow> nat) \<Rightarrow> os_state \<Rightarrow> bool" where
  "links_ok lv s \<longleftrightarrow>
     (\<forall>f < mapped s. \<forall>i < 512. 0 < lv f \<longrightarrow> mem s f i AND 1 \<noteq> 0 \<longrightarrow>
        (\<exists>g < mapped s. mem s f i = pte g \<and> Suc (lv g) = lv f))"

definition tree_like :: "(nat \<Rightarrow> nat) \<Rightarrow> os_state \<Rightarrow> bool" where
  "tree_like lv s \<longleftrightarrow>
     (\<forall>f < mapped s. \<forall>f' < mapped s. \<forall>i < 512. \<forall>i' < 512.
        0 < lv f \<longrightarrow> 0 < lv f' \<longrightarrow> mem s f i AND 1 \<noteq> 0 \<longrightarrow> mem s f i = mem s f' i' \<longrightarrow>
        f = f' \<and> i = i')"

definition pt_inv :: "(nat \<Rightarrow> nat) \<Rightarrow> os_state \<Rightarrow> bool" where
  "pt_inv lv s \<longleftrightarrow>
     os_inv s \<and> (\<forall>f < mapped s. lv f \<le> 4) \<and> links_ok lv s \<and> tree_like lv s"

lemma pt_inv_os: "pt_inv lv s \<Longrightarrow> os_inv s"
  by (simp add: pt_inv_def)

lemma pt_inv_bound: "pt_inv lv s \<Longrightarrow> mapped s \<le> 1048576"
  by (simp add: pt_inv_def os_inv_def)

lemma pte_valid [simp]: "pte g AND 1 = 1"
  by (simp add: pte_def)

lemma pte_masked [simp]: "pte g AND frame_mask = push_bit 12 (frame_ppn g)"
  by (simp add: pte_def)

lemma frame_of_pte [simp]:
  assumes "g \<le> 1048576" shows "frame_of (pte g) = g"
proof -
  have "take_bit 52 (frame_ppn g) = frame_ppn g"
    using assms by (simp add: word_unat_eq_iff unsigned_take_bit_eq frame_ppn_unat take_bit_nat_def)
  then have "drop_bit 12 (pte g) = frame_ppn g" by (simp only: pte_def pte_ppn)
  then show ?thesis using assms by (simp add: frame_of_def frame_ppn_def)
qed

lemma pte_inject: "g \<le> 1048576 \<Longrightarrow> h \<le> 1048576 \<Longrightarrow> pte g = pte h \<longleftrightarrow> g = h"
  by (metis frame_of_pte)

lemma child:
  assumes "pt_inv lv s" and "f < mapped s" and "lv f = Suc l"
    and "entry s f vpn k AND 1 \<noteq> 0"
  obtains g where "g < mapped s" and "entry s f vpn k = pte g" and "lv g = l"
    and "frame_of (entry s f vpn k) = g"
proof -
  obtain g where g: "g < mapped s" "entry s f vpn k = pte g" "Suc (lv g) = lv f"
    using assms unfolding pt_inv_def links_ok_def entry_def
    by (metis get_index_bound zero_less_Suc)
  then show thesis using assms pt_inv_bound [OF assms(1)] by (intro that [of g]) auto
qed

text \<open>Walking keeps to allocated frames, and leaves are reached by one key only.\<close>

lemma walk_leaf:
  "pt_inv lv s \<Longrightarrow> f < mapped s \<Longrightarrow> lv f = l \<Longrightarrow> walk s l f vpn = Some g \<Longrightarrow>
   g < mapped s \<and> lv g = 0"
proof (induction l arbitrary: f)
  case 0
  then show ?case by simp
next
  case (Suc l)
  then have "entry s f vpn (Suc l) AND 1 \<noteq> 0" by (simp split: if_splits)
  with Suc.prems obtain h where "h < mapped s" "lv h = l" "frame_of (entry s f vpn (Suc l)) = h"
    by (metis child)
  with Suc show ?case by (simp split: if_splits)
qed

lemma walk_inject:
  "pt_inv lv s \<Longrightarrow> f < mapped s \<Longrightarrow> f' < mapped s \<Longrightarrow> lv f = l \<Longrightarrow> lv f' = l \<Longrightarrow>
   walk s l f v = Some g \<Longrightarrow> walk s l f' v' = Some g \<Longrightarrow>
   f = f' \<and> (\<forall>k \<in> {1..l}. get_index v k = get_index v' k)"
proof (induction l arbitrary: f f')
  case 0
  then show ?case by simp
next
  case (Suc l)
  let ?e = "entry s f v (Suc l)" and ?e' = "entry s f' v' (Suc l)"
  from Suc.prems have nz: "?e AND 1 \<noteq> 0" "?e' AND 1 \<noteq> 0" by (simp_all split: if_splits)
  obtain h where h: "h < mapped s" "?e = pte h" "lv h = l" "frame_of ?e = h"
    using child [OF Suc.prems(1,2,4) nz(1)] .
  obtain h' where h': "h' < mapped s" "?e' = pte h'" "lv h' = l" "frame_of ?e' = h'"
    using child [OF Suc.prems(1,3,5) nz(2)] .
  from Suc.prems h h' nz
  have eq: "h = h' \<and> (\<forall>k \<in> {1..l}. get_index v k = get_index v' k)"
    by (intro Suc.IH) simp_all
  then have "?e = ?e'" using h h' by simp
  with Suc.prems nz have "f = f' \<and> unat (get_index v (Suc l)) = unat (get_index v' (Suc l))"
    unfolding pt_inv_def tree_like_def entry_def by (metis get_index_bound zero_less_Suc)
  with eq show ?case by (auto simp: atLeastAtMostSuc_conv word_unat_eq_iff)
qed

lemma key_eq_iff: "key v = key v' \<longleftrightarrow> (\<forall>l \<in> {0..4}. get_index v l = get_index v' l)"
  (is "?A \<longleftrightarrow> ?B")
proof
  have mask9: "(0x1FF :: u64) = mask 9" by (simp add: mask_eq_exp_minus_1)
  have idx: "get_index w l = take_bit 9 (drop_bit (12 + 9 * l) w)" for w l
    by (simp only: get_index_def mask9 flip: take_bit_eq_mask)
  show "?A \<Longrightarrow> ?B"
  proof (intro ballI bit_word_eqI)
    fix l n assume k: ?A and l: "l \<in> {0..4::nat}"
    have "bit (key v) (9 * l + n) = bit (key v') (9 * l + n)" using k by simp
    with l show "bit (get_index v l) n = bit (get_index v' l) n"
      by (auto simp: idx key_def bit_simps add.assoc)
  qed
  show "?B \<Longrightarrow> ?A"
  proof (intro bit_word_eqI)
    fix n assume b: ?B
    show "bit (key v) n = bit (key v') n"
    proof (cases "n < 45")
      case True
      then have "n div 9 \<in> {0..4}" by auto
      with b have "bit (get_index v (n div 9)) (n mod 9) = bit (get_index v' (n div 9)) (n mod 9)"
        by simp
      moreover have "9 * (n div 9) + n mod 9 = n" by simp
      ultimately show ?thesis
        by (simp add: idx key_def bit_simps add.assoc)
    qed (simp add: key_def bit_simps)
  qed
qed

lemma key_index: "key v = key v' \<Longrightarrow> l \<le> 4 \<Longrightarrow> get_index v l = get_index v' l"
  by (simp add: key_eq_iff)

lemma walk_key: "key v = key v' \<Longrightarrow> l \<le> 4 \<Longrightarrow> walk s l f v = walk s l f v'"
  by (induction l arbitrary: f) (simp_all add: entry_def key_index [of v v'])

section \<open>Queries\<close>

text \<open>The loop of \<open>page_table_query\<close> is \<open>walk\<close>, and the function is \<open>look\<close>.\<close>

lemma query_walk_eq:
  "pt_inv lv s \<Longrightarrow> f < mapped s \<Longrightarrow> lv f = l \<Longrightarrow>
   query_walk l (At f 0) vpn s = Ok (map_option (\<lambda>g. At g 0) (walk s l f vpn))"
proof (induction l arbitrary: f)
  case 0
  then show ?case by simp
next
  case (Suc l)
  let ?e = "entry s f vpn (Suc l)"
  show ?case
  proof (cases "?e AND 1 = 0")
    case True
    then show ?thesis by (simp add: entry_def)
  next
    case False
    with Suc.prems obtain h where h: "h < mapped s" "?e = pte h" "lv h = l" "frame_of ?e = h"
      by (metis child)
    then have "phys_to_virt s (?e AND frame_mask) = At h 0"
      using pt_inv_os [OF Suc.prems(1)] by (simp add: phys_to_virt_frame)
    moreover have "query_walk l (At h 0) vpn s = Ok (map_option (\<lambda>g. At g 0) (walk s l h vpn))"
      using Suc.prems h by (intro Suc.IH) simp_all
    ultimately show ?thesis using False h by (simp add: entry_def Let_def)
  qed
qed

lemma page_table_query_eq:
  assumes "pt_inv lv s" and "r < mapped s" and "lv r = 4"
  shows "page_table_query (frame_ppn r) vpn s = Ok (look s 4 r vpn)"
  using assms
  by (simp add: page_table_query_def phys_to_virt_frame pt_inv_os query_walk_eq look_def
      leaf_value_def entry_def split: option.split)

section \<open>Updates\<close>

text \<open>
  Memory changes in two ways: a fresh zero frame is hung into an invalid entry of a frame of
  level \<open>l + 1\<close>, and a leaf entry is overwritten.
\<close>

definition hang :: "os_state \<Rightarrow> os_state \<Rightarrow> nat \<Rightarrow> nat \<Rightarrow> bool" where
  "hang s t f i \<longleftrightarrow>
     os_inv t \<and> mapped t = Suc (mapped s) \<and> out t = out s \<and>
     mem t = (mem s)(mapped s := (\<lambda>_. 0), f := (mem s f)(i := pte (mapped s)))"

lemma pt_inv_hang:
  assumes inv: "pt_inv lv s" and f: "f < mapped s" "lv f = Suc l" and i: "i < 512"
    and empty: "mem s f i AND 1 = 0" and t: "hang s t f i"
  shows "pt_inv (lv(mapped s := l)) t"
proof -
  let ?n = "mapped s"
  have n: "?n < 1048576" using t by (simp add: hang_def os_inv_def)
  have le: "lv f \<le> 4" using inv f(1) unfolding pt_inv_def by blast
  have links: "\<exists>h < ?n. mem s g j = pte h \<and> Suc (lv h) = lv g"
    if "g < ?n" "j < 512" "0 < lv g" "mem s g j AND 1 \<noteq> 0" for g j
    using inv that by (simp add: pt_inv_def links_ok_def)
  have fresh: "mem s g j \<noteq> pte ?n" if "g < ?n" "j < 512" "0 < lv g" for g j
  proof
    assume eq: "mem s g j = pte ?n"
    then have "mem s g j AND 1 \<noteq> 0" by simp
    with links that obtain h where "h < ?n" "mem s g j = pte h" by blast
    with eq n show False by (simp add: pte_inject)
  qed
  have "links_ok (lv(?n := l)) t"
    unfolding links_ok_def
  proof (intro allI impI)
    fix g j
    assume g: "g < mapped t" and j: "j < 512" and l: "0 < (lv(?n := l)) g"
      and v: "mem t g j AND 1 \<noteq> 0"
    have gn: "g < ?n" using g v t f by (cases "g = ?n") (auto simp: hang_def)
    show "\<exists>h < mapped t. mem t g j = pte h \<and> Suc ((lv(?n := l)) h) = (lv(?n := l)) g"
    proof (cases "g = f \<and> j = i")
      case True
      then show ?thesis using t f by (intro exI [of _ ?n]) (simp add: hang_def)
    next
      case False
      then have same: "mem t g j = mem s g j" using gn t by (auto simp: hang_def)
      then obtain h where "h < ?n" "mem s g j = pte h" "Suc (lv h) = lv g"
        using links [OF gn j] l v gn by auto
      then show ?thesis using same gn t by (intro exI [of _ h]) (simp add: hang_def)
    qed
  qed
  moreover have "tree_like (lv(?n := l)) t"
    unfolding tree_like_def
  proof (intro allI impI)
    fix g g' j j'
    assume g: "g < mapped t" "g' < mapped t" and j: "j < 512" "j' < 512"
      and l: "0 < (lv(?n := l)) g" "0 < (lv(?n := l)) g'"
      and v: "mem t g j AND 1 \<noteq> 0" and eq: "mem t g j = mem t g' j'"
    have v': "mem t g' j' AND 1 \<noteq> 0" using v eq by simp
    have gn: "g < ?n" "g' < ?n" using g v v' t f by (auto simp: hang_def less_Suc_eq)
    have l': "0 < lv g" "0 < lv g'" using l gn by simp_all
    have val: "mem t h k = (if h = f \<and> k = i then pte ?n else mem s h k)" if "h < ?n" for h k
      using that t by (simp add: hang_def)
    show "g = g' \<and> j = j'"
    proof (cases "(g = f \<and> j = i) \<or> (g' = f \<and> j' = i)")
      case True
      with eq gn j l' fresh show ?thesis by (auto simp: val split: if_splits)
    next
      case False
      then have "mem s g j = mem s g' j'" "mem s g j AND 1 \<noteq> 0" using eq v gn by (auto simp: val)
      then show ?thesis using inv gn j l' unfolding pt_inv_def tree_like_def by blast
    qed
  qed
  moreover have "\<forall>g < mapped t. (lv(?n := l)) g \<le> 4"
    using inv t le f by (auto simp: pt_inv_def hang_def less_Suc_eq)
  ultimately show ?thesis using t by (simp add: pt_inv_def hang_def)
qed

lemma look_unfold:
  "look s (Suc l) f vpn =
     (if entry s f vpn (Suc l) AND 1 = 0 then NO_MAPPING
      else look s l (frame_of (entry s f vpn (Suc l))) vpn)"
  by (simp add: look_def)

lemma look_zero_frame: "mem s f = (\<lambda>_. 0) \<Longrightarrow> look s l f vpn = NO_MAPPING"
  by (cases l) (simp_all add: look_unfold entry_def leaf_value_def look_def [of s 0])

text \<open>An empty subtree changes no mapping.\<close>

lemma look_hang:
  assumes inv: "pt_inv lv s" and f: "f < mapped s" "lv f = Suc l" and i: "i < 512"
    and empty: "mem s f i AND 1 = 0" and t: "hang s t f i"
  shows "g < mapped s \<Longrightarrow> lv g = k \<Longrightarrow> look t k g vpn = look s k g vpn"
proof (induction k arbitrary: g)
  case 0
  then have "g \<noteq> f" using f by auto
  then show ?case using 0 t by (simp add: look_def entry_def hang_def)
next
  case (Suc k)
  let ?i = "unat (get_index vpn (Suc k))" and ?n = "mapped s"
  have n: "?n \<le> 1048576" by (rule pt_inv_bound [OF inv])
  show ?case
  proof (cases "g = f \<and> ?i = i")
    case True
    then have "entry t g vpn (Suc k) = pte ?n"
      using t f by (simp add: entry_def hang_def)
    moreover have "look t k ?n vpn = NO_MAPPING"
      using t f by (intro look_zero_frame) (simp add: hang_def)
    moreover have "entry s g vpn (Suc k) AND 1 = 0" using True empty by (simp add: entry_def)
    ultimately show ?thesis using n by (simp add: look_unfold)
  next
    case False
    then have same: "entry t g vpn (Suc k) = entry s g vpn (Suc k)"
      using t Suc.prems by (auto simp: entry_def hang_def)
    show ?thesis
    proof (cases "entry s g vpn (Suc k) AND 1 = 0")
      case True
      then show ?thesis using same by (simp add: look_unfold)
    next
      case nz: False
      obtain h where "h < mapped s" "lv h = k" "frame_of (entry s g vpn (Suc k)) = h"
        using child [OF inv Suc.prems nz] by metis
      then show ?thesis using same Suc.IH by (simp add: look_unfold)
    qed
  qed
qed

text \<open>Writing a leaf entry.\<close>

definition put_leaf :: "os_state \<Rightarrow> os_state \<Rightarrow> nat \<Rightarrow> nat \<Rightarrow> u64 \<Rightarrow> bool" where
  "put_leaf s t g i e \<longleftrightarrow> t = s\<lparr>mem := (mem s)(g := (mem s g)(i := e))\<rparr>"

lemma pt_inv_put_leaf:
  assumes "pt_inv lv s" and "lv g = 0" and "put_leaf s t g i e"
  shows "pt_inv lv t"
  using assms unfolding pt_inv_def put_leaf_def os_inv_def links_ok_def tree_like_def
  by auto

lemma walk_put_leaf:
  assumes inv: "pt_inv lv s" and g: "lv g = 0" and t: "put_leaf s t g i e"
  shows "f < mapped s \<Longrightarrow> lv f = l \<Longrightarrow> walk t l f vpn = walk s l f vpn"
proof (induction l arbitrary: f)
  case 0
  then show ?case by simp
next
  case (Suc l)
  then have "f \<noteq> g" using g by auto
  then have same: "entry t f vpn (Suc l) = entry s f vpn (Suc l)"
    using t by (simp add: entry_def put_leaf_def)
  show ?case
  proof (cases "entry s f vpn (Suc l) AND 1 = 0")
    case True
    then show ?thesis using same by simp
  next
    case False
    with Suc.prems inv obtain h where "h < mapped s" "lv h = l"
      "frame_of (entry s f vpn (Suc l)) = h" by (metis child)
    then show ?thesis using same Suc.IH by simp
  qed
qed

lemma look_put_leaf:
  assumes inv: "pt_inv lv s" and g: "lv g = 0" and r: "r < mapped s" "lv r = 4"
    and w: "walk s 4 r vpn = Some g" and r': "r' < mapped s" "lv r' = 4"
    and t: "put_leaf s t g (unat (get_index vpn 0)) e"
  shows "look t 4 r' vpn' =
    (if r' = r \<and> key vpn' = key vpn then leaf_value e else look s 4 r' vpn')"
proof -
  have walks: "walk t 4 r' vpn' = walk s 4 r' vpn'"
    by (rule walk_put_leaf [OF inv g t r'])
  show ?thesis
  proof (cases "r' = r \<and> key vpn' = key vpn")
    case True
    then have "walk s 4 r' vpn' = Some g" using w walk_key [of vpn' vpn 4] by simp
    moreover have "get_index vpn' 0 = get_index vpn 0" using True by (intro key_index) simp_all
    ultimately show ?thesis
      using True walks t by (simp add: look_def entry_def put_leaf_def)
  next
    case False
    have "entry t h vpn' 0 = entry s h vpn' 0" if h: "walk s 4 r' vpn' = Some h" for h
    proof (cases "h = g \<and> get_index vpn' 0 = get_index vpn 0")
      case True
      then have "r' = r \<and> (\<forall>k \<in> {1..4}. get_index vpn' k = get_index vpn k)"
        using h w by (intro walk_inject [OF inv r'(1) r(1) r'(2) r(2)]) simp_all
      moreover have "{0..4::nat} = insert 0 {1..4}" by auto
      ultimately have "r' = r \<and> key vpn' = key vpn"
        using True by (simp add: key_eq_iff)
      with False show ?thesis by simp
    qed (use t in \<open>auto simp: entry_def put_leaf_def word_unat_eq_iff\<close>)
    with False walks show ?thesis by (auto simp: look_def split: option.split)
  qed
qed

text \<open>
  The loop of \<open>page_table_update\<close> from a frame of level \<open>l\<close> needs at most \<open>l\<close> more frames
  (\<open>room\<close>). \<open>grown lv s lv' t k n\<close>: from \<open>s\<close> to \<open>t\<close> at most \<open>n\<close> frames were added, frames of
  a level above \<open>k\<close> are untouched, and no mapping has changed.
\<close>

definition room :: "(nat \<Rightarrow> bool) \<Rightarrow> nat \<Rightarrow> os_state \<Rightarrow> bool" where
  "room mm l s \<longleftrightarrow>
     mapped s + l \<le> 1048576 \<and> (\<forall>n. mapped s \<le> n \<longrightarrow> n < mapped s + l \<longrightarrow> mm n)"

definition grown ::
    "(nat \<Rightarrow> nat) \<Rightarrow> os_state \<Rightarrow> (nat \<Rightarrow> nat) \<Rightarrow> os_state \<Rightarrow> nat \<Rightarrow> nat \<Rightarrow> bool" where
  "grown lv s lv' t k n \<longleftrightarrow>
     pt_inv lv' t \<and> mapped s \<le> mapped t \<and> mapped t \<le> mapped s + n \<and> out t = out s \<and>
     (\<forall>g < mapped s. lv' g = lv g) \<and>
     (\<forall>g < mapped s. k < lv g \<longrightarrow> mem t g = mem s g) \<and>
     (\<forall>g < mapped s. \<forall>v. look t (lv g) g v = look s (lv g) g v)"

lemma grown_refl: "pt_inv lv s \<Longrightarrow> grown lv s lv s k n"
  by (simp add: grown_def)

lemma grown_trans:
  "grown lv s lv1 t k1 n1 \<Longrightarrow> grown lv1 t lv2 u k2 n2 \<Longrightarrow> k1 \<le> k \<Longrightarrow> k2 \<le> k \<Longrightarrow> n1 + n2 \<le> n \<Longrightarrow>
   grown lv s lv2 u k n"
  unfolding grown_def by (auto dest: less_le_trans)

lemma grown_hang:
  assumes inv: "pt_inv lv s" and f: "f < mapped s" "lv f = Suc l" and i: "i < 512"
    and empty: "mem s f i AND 1 = 0" and t: "hang s t f i"
  shows "grown lv s (lv(mapped s := l)) t (Suc l) 1"
  unfolding grown_def
  using t f look_hang [OF inv f i empty t] pt_inv_hang [OF inv f i empty t]
  by (auto simp: hang_def)

text \<open>The step that hangs in a new table, as the code does it.\<close>

lemma alloc_and_hang:
  assumes inv: "pt_inv lv s" and f: "f < mapped s"
  shows "ends (bindR (alloc_page_frame mm s) (\<lambda>(frame, s1).
           store64 s1 (At f 0) (get_index vpn l) (push_bit 12 frame OR 1)))
         (\<lambda>n. n = 1 \<and> \<not> room mm 1 s)
         (\<lambda>t. hang s t f (unat (get_index vpn l)))"
proof (cases "alloc_page_frame mm s")
  case (Ok p)
  obtain ppn t where p: "p = (ppn, t)" by force
  have "os_inv t \<and> ppn = frame_ppn (mapped s) \<and> mapped t = Suc (mapped s) \<and>
    mem t = (mem s)(mapped s := (\<lambda>_. 0)) \<and> out t = out s"
    using os_inv_alloc [OF pt_inv_os [OF inv]] Ok p by blast
  then show ?thesis
    using Ok p f by (auto simp: hang_def pte_def os_inv_def fun_upd_twist)
next
  case (Exit n)
  then have "n = 1"
    by (auto simp: alloc_page_frame_def mmap_page_def Let_def split: if_splits option.splits)
  moreover have "\<not> room mm 1 s"
    using Exit alloc_page_frame_Ok [OF pt_inv_os [OF inv], of mm] by (auto simp: room_def)
  ultimately show ?thesis using Exit by simp
next
  case (Fault e)
  moreover have "nalloc s \<noteq> NPAGES \<Longrightarrow> nalloc s < NPAGES"
    using inv by (auto simp: pt_inv_def os_inv_def word_less_nat_alt word_unat_eq_iff)
  ultimately show ?thesis
    by (auto simp: alloc_page_frame_def mmap_page_def Let_def split: if_splits option.splits)
qed

definition walk_post ::
    "(nat \<Rightarrow> nat) \<Rightarrow> os_state \<Rightarrow> nat \<Rightarrow> nat \<Rightarrow> u64 \<Rightarrow> u64 \<Rightarrow> vptr option \<times> os_state \<Rightarrow> bool" where
  "walk_post lv s l f vpn ppn r \<longleftrightarrow>
     (case r of (cur, t) \<Rightarrow>
        (\<exists>lv'. grown lv s lv' t l l) \<and>
        (case cur of
           None \<Rightarrow> t = s \<and> ppn = NO_MAPPING \<and> walk s l f vpn = None
         | Some p \<Rightarrow> \<exists>g. p = At g 0 \<and> walk t l f vpn = Some g))"

lemma walk_post_descend:
  assumes step: "grown lv s lv1 s1 (Suc l) n" and n: "n \<le> 1"
    and f: "f < mapped s" "lv f = Suc l"
    and h: "h < mapped s1" "entry s1 f vpn (Suc l) = pte h" "lv1 h = l"
    and keep: "n = 0 \<Longrightarrow> s1 = s" "n = 1 \<Longrightarrow> ppn \<noteq> NO_MAPPING"
    and post: "walk_post lv1 s1 l h vpn ppn r"
  shows "walk_post lv s (Suc l) f vpn ppn r"
proof -
  obtain cur t where r: "r = (cur, t)" by force
  from post r obtain lv2 where g: "grown lv1 s1 lv2 t l l" by (auto simp: walk_post_def)
  have le: "h \<le> 1048576" using h step pt_inv_bound [of lv1 s1] by (auto simp: grown_def)
  have all: "grown lv s lv2 t (Suc l) (Suc l)"
    using grown_trans [OF step g, of "Suc l" "Suc l"] n by simp
  have "mem t f = mem s1 f" using g f step by (simp add: grown_def)
  then have e: "entry t f vpn (Suc l) = pte h" using h by (simp add: entry_def)
  show ?thesis
  proof (cases cur)
    case None
    then have "t = s1" "ppn = NO_MAPPING" "walk s1 l h vpn = None"
      using post r by (simp_all add: walk_post_def)
    moreover have "n = 0" using keep(2) \<open>ppn = NO_MAPPING\<close> n by (cases n) auto
    ultimately show ?thesis
      using None r all h le keep(1) by (auto simp: walk_post_def)
  next
    case (Some p)
    then show ?thesis using post r all e le by (auto simp: walk_post_def)
  qed
qed

lemma update_walk_spec:
  "pt_inv lv s \<Longrightarrow> f < mapped s \<Longrightarrow> lv f = l \<Longrightarrow>
   ends (update_walk mm l (At f 0) vpn ppn s)
     (\<lambda>n. n = 1 \<and> ppn \<noteq> NO_MAPPING \<and> \<not> room mm l s) (walk_post lv s l f vpn ppn)"
proof (induction l arbitrary: f s lv)
  case 0
  then show ?case by (simp add: walk_post_def) (blast intro: grown_refl)
next
  case (Suc l)
  note inv = Suc.prems(1) and f = Suc.prems(2,3)
  let ?i = "get_index vpn (Suc l)" and ?e = "entry s f vpn (Suc l)"
  have e: "load64 s (At f 0) ?i = Ok ?e" by (simp add: entry_def)
  have down: "ends
      (bindR (load64 s1 (At f 0) ?i) (\<lambda>e2.
         update_walk mm l (phys_to_virt s1 (e2 AND frame_mask)) vpn ppn s1))
      (\<lambda>n. n = 1 \<and> ppn \<noteq> NO_MAPPING \<and> \<not> room mm l s1) (walk_post lv s (Suc l) f vpn ppn)"
    if "grown lv s lv1 s1 (Suc l) n" "n \<le> 1" "h < mapped s1" "entry s1 f vpn (Suc l) = pte h"
      "lv1 h = l" "n = 0 \<Longrightarrow> s1 = s" "n = 1 \<Longrightarrow> ppn \<noteq> NO_MAPPING" for lv1 s1 n h
  proof -
    have inv1: "pt_inv lv1 s1" using that(1) by (simp add: grown_def)
    then have "load64 s1 (At f 0) ?i = Ok (pte h)" using that(4) by (simp add: entry_def)
    moreover have "phys_to_virt s1 (pte h AND frame_mask) = At h 0"
      using inv1 that(3) by (simp add: phys_to_virt_frame pt_inv_os)
    ultimately show ?thesis
      using Suc.IH [OF inv1 that(3,5)] walk_post_descend [OF that(1,2) f that(3,4,5,6,7)]
      by (auto elim: ends_mono)
  qed
  show ?case
  proof (cases "?e AND 1 = 0")
    case empty: True
    show ?thesis
    proof (cases "ppn = NO_MAPPING")
      case True
      then show ?thesis using empty e inv
        by (simp add: Let_def walk_post_def) (blast intro: grown_refl)
    next
      case False
      have slot: "mem s f (unat ?i) AND 1 = 0" using empty by (simp add: entry_def)
      have go: "ends
          (bindR (load64 t (At f 0) ?i) (\<lambda>e2.
             update_walk mm l (phys_to_virt t (e2 AND frame_mask)) vpn ppn t))
          (\<lambda>n. n = 1 \<and> ppn \<noteq> NO_MAPPING \<and> \<not> room mm (Suc l) s)
          (walk_post lv s (Suc l) f vpn ppn)"
        if t: "hang s t f (unat ?i)" for t
      proof -
        have "grown lv s (lv(mapped s := l)) t (Suc l) 1"
          by (rule grown_hang [OF inv f _ slot t]) simp
        moreover have "entry t f vpn (Suc l) = pte (mapped s)" "mapped s < mapped t"
          using t f by (simp_all add: hang_def entry_def)
        moreover have "\<not> room mm l t \<Longrightarrow> \<not> room mm (Suc l) s"
          using t by (auto simp: hang_def room_def dest: Suc_leD)
        ultimately show ?thesis
          using down [of "lv(mapped s := l)" t 1 "mapped s"] False by (auto elim!: ends_mono)
      qed
      have "\<not> room mm 1 s \<Longrightarrow> \<not> room mm (Suc l) s" by (auto simp: room_def)
      then have "ends (bindR (alloc_page_frame mm s) (\<lambda>(frame, s1).
             store64 s1 (At f 0) ?i (push_bit 12 frame OR 1)))
           (\<lambda>n. n = 1 \<and> ppn \<noteq> NO_MAPPING \<and> \<not> room mm (Suc l) s)
           (\<lambda>t. hang s t f (unat ?i))"
        using alloc_and_hang [OF inv f(1), of mm vpn "Suc l"] False by (auto elim!: ends_mono)
      from ends_bind [OF this go] show ?thesis
        using empty e False by (simp add: Let_def)
    qed
  next
    case False
    obtain h where "h < mapped s" "?e = pte h" "lv h = l"
      using child [OF inv f False] by metis
    then have "ends
      (bindR (load64 s (At f 0) ?i) (\<lambda>e2.
         update_walk mm l (phys_to_virt s (e2 AND frame_mask)) vpn ppn s))
      (\<lambda>n. n = 1 \<and> ppn \<noteq> NO_MAPPING \<and> \<not> room mm l s) (walk_post lv s (Suc l) f vpn ppn)"
      using grown_refl [OF inv] by (intro down [of lv s 0 h]) auto
    moreover have "\<not> room mm l s \<Longrightarrow> \<not> room mm (Suc l) s" by (auto simp: room_def)
    ultimately show ?thesis using e False by (auto simp: Let_def elim!: ends_mono)
  qed
qed

definition pte_value :: "u64 \<Rightarrow> u64" where
  "pte_value ppn = (if ppn = NO_MAPPING then NO_MAPPING else take_bit 52 ppn)"

definition update_post ::
    "(nat \<Rightarrow> nat) \<Rightarrow> os_state \<Rightarrow> nat \<Rightarrow> u64 \<Rightarrow> u64 \<Rightarrow> os_state \<Rightarrow> bool" where
  "update_post lv s r vpn ppn t \<longleftrightarrow>
     mapped s \<le> mapped t \<and> mapped t \<le> mapped s + 4 \<and> out t = out s \<and>
     (\<exists>lv'. pt_inv lv' t \<and> (\<forall>g < mapped s. lv' g = lv g)) \<and>
     (\<forall>r' < mapped s. lv r' = 4 \<longrightarrow> (\<forall>vpn'. look t 4 r' vpn' =
        (if r' = r \<and> key vpn' = key vpn then pte_value ppn else look s 4 r' vpn')))"

text \<open>
  The whole update: it returns unless frames run out (then the process exits with status 1,
  and only a mapping, never an unmapping, can need frames), and then every root sees exactly
  the one key of \<open>r\<close> changed.
\<close>

lemma page_table_update_spec:
  assumes inv: "pt_inv lv s" and r: "r < mapped s" "lv r = 4"
  shows "ends (page_table_update mm (frame_ppn r) vpn ppn s)
    (\<lambda>n. n = 1 \<and> ppn \<noteq> NO_MAPPING \<and> \<not> room mm 4 s) (update_post lv s r vpn ppn)"
proof -
  have root: "phys_to_virt s (push_bit 12 (frame_ppn r)) = At r 0"
    using inv r by (simp add: phys_to_virt_frame pt_inv_os)
  have leaf: "ends (case cur of
         None \<Rightarrow> Ok t
       | Some current \<Rightarrow>
           (let index = get_index vpn 0
            in if ppn = NO_MAPPING then store64 t current index 0
               else store64 t current index (push_bit 12 ppn OR 1)))
      (\<lambda>n. n = 1 \<and> ppn \<noteq> NO_MAPPING \<and> \<not> room mm 4 s) (update_post lv s r vpn ppn)"
    if post: "walk_post lv s 4 r vpn ppn (cur, t)" for cur t
  proof -
    from post obtain lv' where g: "grown lv s lv' t 4 4" by (auto simp: walk_post_def)
    have inv': "pt_inv lv' t" using g by (simp add: grown_def)
    show ?thesis
    proof (cases cur)
      case None
      then have "t = s" "ppn = NO_MAPPING" "walk s 4 r vpn = None"
        using post by (simp_all add: walk_post_def)
      moreover have "walk s 4 r vpn' = None" if "key vpn' = key vpn" for vpn'
        using that \<open>walk s 4 r vpn = None\<close> by (simp add: walk_key [of vpn' vpn])
      ultimately show ?thesis
        using None inv by (auto simp: update_post_def look_def pte_value_def)
    next
      case (Some p)
      then obtain h where h: "p = At h 0" "walk t 4 r vpn = Some h"
        using post by (auto simp: walk_post_def)
      have r': "r < mapped t" "lv' r = 4" using r g by (auto simp: grown_def)
      have hl: "lv' h = 0" using walk_leaf [OF inv' r' h(2)] by simp
      define e where "e = (if ppn = NO_MAPPING then 0 else push_bit 12 ppn OR 1)"
      define u where "u = t\<lparr>mem := (mem t)(h := (mem t h)(unat (get_index vpn 0) := e))\<rparr>"
      have put: "put_leaf t u h (unat (get_index vpn 0)) e" by (simp add: put_leaf_def u_def)
      have val: "leaf_value e = pte_value ppn"
        by (simp add: e_def leaf_value_def pte_value_def)
      have "look u 4 r2 v = (if r2 = r \<and> key v = key vpn then pte_value ppn else look s 4 r2 v)"
        if "r2 < mapped s" "lv r2 = 4" for r2 v
        using look_put_leaf [OF inv' hl r' h(2) _ _ put, of r2 v] that g val
        by (auto simp: grown_def)
      moreover have "pt_inv lv' u" by (rule pt_inv_put_leaf [OF inv' hl put])
      moreover have "mapped u = mapped t" "out u = out t" by (simp_all add: u_def)
      ultimately have "update_post lv s r vpn ppn u"
        using g unfolding update_post_def grown_def by auto
      then show ?thesis
        using Some h by (cases "ppn = NO_MAPPING") (simp_all add: u_def e_def Let_def)
    qed
  qed
  show ?thesis
    unfolding page_table_update_def root
    by (rule ends_bind [OF ends_mono [OF update_walk_spec [OF inv r]]])
      (use leaf in \<open>auto split: prod.split\<close>)
qed

section \<open>New tables\<close>

text \<open>A frame that \<open>alloc_page_frame\<close> gives to a caller is an empty table.\<close>

lemma pt_inv_new_root:
  assumes inv: "pt_inv lv s" and t: "os_inv t" "mapped t = Suc (mapped s)"
    "mem t = (mem s)(mapped s := (\<lambda>_. 0))"
  shows "pt_inv (lv(mapped s := 4)) t"
proof -
  have "links_ok (lv(mapped s := 4)) t"
    unfolding links_ok_def
  proof (intro allI impI)
    fix f i assume f: "f < mapped t" and i: "i < 512" and l: "0 < (lv(mapped s := 4)) f"
      and v: "mem t f i AND 1 \<noteq> 0"
    have "f < mapped s" using f v t by (auto simp: less_Suc_eq)
    moreover then have "mem t f i = mem s f i" using t by simp
    ultimately obtain g where "g < mapped s" "mem t f i = pte g" "Suc (lv g) = lv f"
      using inv i l v unfolding pt_inv_def links_ok_def by (metis fun_upd_other less_irrefl)
    then show "\<exists>g < mapped t. mem t f i = pte g \<and>
        Suc ((lv(mapped s := 4)) g) = (lv(mapped s := 4)) f"
      using t \<open>f < mapped s\<close> by (intro exI [of _ g]) simp
  qed
  moreover have "tree_like (lv(mapped s := 4)) t"
    unfolding tree_like_def
  proof (intro allI impI)
    fix f f' i i'
    assume f: "f < mapped t" "f' < mapped t" and i: "i < 512" "i' < 512"
      and l: "0 < (lv(mapped s := 4)) f" "0 < (lv(mapped s := 4)) f'"
      and v: "mem t f i AND 1 \<noteq> 0" and eq: "mem t f i = mem t f' i'"
    have v': "mem t f' i' AND 1 \<noteq> 0" using v eq by simp
    have f: "f < mapped s" "f' < mapped s" using f v v' t by (auto simp: less_Suc_eq)
    then show "f = f' \<and> i = i'"
      using inv i l v eq t unfolding pt_inv_def tree_like_def by auto
  qed
  moreover have "\<forall>g < mapped t. (lv(mapped s := 4)) g \<le> 4"
    using inv t by (auto simp: pt_inv_def less_Suc_eq)
  ultimately show ?thesis using t by (simp add: pt_inv_def)
qed

lemma look_new_root:
  assumes inv: "pt_inv lv s" and t: "mem t = (mem s)(mapped s := (\<lambda>_. 0))"
  shows "f < mapped s \<Longrightarrow> lv f = l \<Longrightarrow> look t l f vpn = look s l f vpn"
proof (induction l arbitrary: f)
  case 0
  then show ?case using t by (simp add: look_def entry_def)
next
  case (Suc l)
  have same: "entry t f vpn (Suc l) = entry s f vpn (Suc l)"
    using t Suc.prems by (simp add: entry_def)
  show ?case
  proof (cases "entry s f vpn (Suc l) AND 1 = 0")
    case True
    then show ?thesis using same by (simp add: look_unfold)
  next
    case False
    with Suc.prems inv obtain h where "h < mapped s" "lv h = l"
      "frame_of (entry s f vpn (Suc l)) = h" by (metis child)
    then show ?thesis using same Suc.IH by (simp add: look_unfold)
  qed
qed

section \<open>The interface\<close>

text \<open>
  What a caller of \<open>pt.c\<close> and \<open>os.c\<close> relies on, for tables named by \<open>'r\<close>: \<open>inv s R\<close> says
  that \<open>R\<close> are the tables made so far, \<open>seen\<close> is the content of a table and \<open>room k\<close> says that
  \<open>k\<close> more frames can be had.
\<close>

locale page_tables =
  fixes inv :: "'s \<Rightarrow> 'r set \<Rightarrow> bool"
    and room :: "nat \<Rightarrow> 's \<Rightarrow> bool"
    and seen :: "'s \<Rightarrow> 'r \<Rightarrow> u64 \<Rightarrow> u64"
    and printed :: "'s \<Rightarrow> string list"
    and new_table :: "'s \<Rightarrow> ('r \<times> 's) run"
    and query :: "'r \<Rightarrow> u64 \<Rightarrow> 's \<Rightarrow> u64 run"
    and update :: "'r \<Rightarrow> u64 \<Rightarrow> u64 \<Rightarrow> 's \<Rightarrow> 's run"
    and say :: "string \<Rightarrow> 's \<Rightarrow> 's run"
  assumes room_le: "room k s \<Longrightarrow> j \<le> k \<Longrightarrow> room j s"
    and seen_key: "inv s R \<Longrightarrow> r \<in> R \<Longrightarrow> key v = key v' \<Longrightarrow> seen s r v = seen s r v'"
    and query: "inv s R \<Longrightarrow> r \<in> R \<Longrightarrow> query r v s = Ok (seen s r v)"
    and new_table: "inv s R \<Longrightarrow> room (Suc k) s \<Longrightarrow> returns (new_table s) (\<lambda>(r, t).
        r \<notin> R \<and> inv t (insert r R) \<and> room k t \<and> printed t = printed s \<and>
        (\<forall>v. seen t r v = NO_MAPPING) \<and> (\<forall>r' \<in> R. \<forall>v. seen t r' v = seen s r' v))"
    and update: "inv s R \<Longrightarrow> r \<in> R \<Longrightarrow> room (k + 4) s \<Longrightarrow> returns (update r v p s) (\<lambda>t.
        inv t R \<and> room k t \<and> printed t = printed s \<and>
        (\<forall>r' \<in> R. \<forall>v'. seen t r' v' =
           (if r' = r \<and> key v' = key v then pte_value p else seen s r' v')))"
    and say: "inv s R \<Longrightarrow> room k s \<Longrightarrow> returns (say x s) (\<lambda>t.
        inv t R \<and> room k t \<and> printed t = printed s @ [x] \<and>
        (\<forall>r \<in> R. \<forall>v. seen t r v = seen s r v))"

text \<open>\<open>assert(page_table_query(pt, vpn) == v)\<close>.\<close>

definition assert_query :: "('r \<Rightarrow> u64 \<Rightarrow> 's \<Rightarrow> u64 run) \<Rightarrow> 'r \<Rightarrow> u64 \<Rightarrow> u64 \<Rightarrow> 's \<Rightarrow> 's run" where
  "assert_query query pt vpn v s =
     bindR (query pt vpn s) (\<lambda>x. if x = v then Ok s else Fault AssertFail)"

text \<open>
  The client's view: tables with known contents \<open>A\<close> (by key), a frame budget \<open>k\<close> and the
  lines \<open>L\<close> printed so far.
\<close>

context page_tables
begin

definition holds :: "('r \<rightharpoonup> (u64 \<Rightarrow> u64)) \<Rightarrow> nat \<Rightarrow> string list \<Rightarrow> 's \<Rightarrow> bool" where
  "holds A k L s \<longleftrightarrow>
     inv s (dom A) \<and> room k s \<and> printed s = L \<and>
     (\<forall>r m. A r = Some m \<longrightarrow> (\<forall>v. seen s r v = m (key v)))"

lemma holds_le: "holds A k L s \<Longrightarrow> j \<le> k \<Longrightarrow> holds A j L s"
  by (auto simp: holds_def intro: room_le)

lemma new_table_holds:
  "holds A (Suc k) L s \<Longrightarrow> returns (new_table s) (\<lambda>(r, t).
     A r = None \<and> holds (A(r \<mapsto> (\<lambda>_. NO_MAPPING))) k L t)"
  unfolding holds_def
  by (rule ends_mono [OF new_table [of s "dom A" k]]) (auto simp: domIff)

lemma update_holds:
  "holds A (k + 4) L s \<Longrightarrow> A r = Some m \<Longrightarrow>
   returns (update r v p s) (holds (A(r \<mapsto> m(key v := pte_value p))) k L)"
  unfolding holds_def
  by (rule ends_mono [OF update [of s "dom A" r k v p]]) (auto simp: domIff insert_absorb)

lemma assert_query_holds:
  "holds A k L s \<Longrightarrow> A r = Some m \<Longrightarrow> m (key v) = x \<Longrightarrow>
   returns (assert_query query r v x s) (holds A k L)"
  using query [of s "dom A" r v] by (auto simp: holds_def assert_query_def domI)

lemma say_holds: "holds A k L s \<Longrightarrow> returns (say x s) (holds A k (L @ [x]))"
  unfolding holds_def
  by (rule ends_mono [OF say [of s "dom A" k x]]) (auto simp: domIff)

text \<open>A loop that maps \<open>v i\<close> to \<open>p i\<close> and checks it, as the loops of the driver program do.\<close>

definition fill_map :: "(u64 \<Rightarrow> u64) \<Rightarrow> (nat \<Rightarrow> u64) \<Rightarrow> (nat \<Rightarrow> u64) \<Rightarrow> nat \<Rightarrow> (u64 \<Rightarrow> u64)" where
  "fill_map m v p n = fold (\<lambda>i m. m(key (v i) := pte_value (p i))) [0..<n] m"

lemma fill_map_simps [simp]:
  "fill_map m v p 0 = m"
  "fill_map m v p (Suc n) = (fill_map m v p n)(key (v n) := pte_value (p n))"
  by (simp_all add: fill_map_def)

lemma fill_loop_holds:
  assumes h: "holds A (k + 4 * n) L s" and r: "A r = Some m"
    and p: "\<And>i. i < n \<Longrightarrow> pte_value (p i) = x i"
  shows "returns (for_upto n (\<lambda>i. block
      [update r (v i) (p i), assert_query query r (v i) (x i)]) s)
    (holds (A(r \<mapsto> fill_map m v p n)) k L)"
proof -
  have "returns (for_upto n (\<lambda>i. block
      [update r (v i) (p i), assert_query query r (v i) (x i)]) s)
    (holds (A(r \<mapsto> fill_map m v p n)) (k + 4 * (n - n)) L)"
  proof (rule ends_for_upto [where I = "\<lambda>i. holds (A(r \<mapsto> fill_map m v p i)) (k + 4 * (n - i)) L"])
    show "holds (A(r \<mapsto> fill_map m v p 0)) (k + 4 * (n - 0)) L s"
      using h r by (simp add: fun_upd_idem)
  next
    fix i t
    assume i: "i < n" and t: "holds (A(r \<mapsto> fill_map m v p i)) (k + 4 * (n - i)) L t"
    have "k + 4 * (n - i) = (k + 4 * (n - Suc i)) + 4" using i by simp
    with t have "returns (update r (v i) (p i) t)
        (holds (A(r \<mapsto> fill_map m v p (Suc i))) (k + 4 * (n - Suc i)) L)"
      using update_holds [of "A(r \<mapsto> fill_map m v p i)" "k + 4 * (n - Suc i)" L t r
          "fill_map m v p i" "v i" "p i"]
      by simp
    moreover have "returns (assert_query query r (v i) (x i) u)
        (holds (A(r \<mapsto> fill_map m v p (Suc i))) (k + 4 * (n - Suc i)) L)"
      if "holds (A(r \<mapsto> fill_map m v p (Suc i))) (k + 4 * (n - Suc i)) L u" for u
      using that
      by (rule assert_query_holds [where m = "fill_map m v p (Suc i)"]) (simp_all add: p [OF i])
    ultimately show "returns (block [update r (v i) (p i), assert_query query r (v i) (x i)] t)
        (holds (A(r \<mapsto> fill_map m v p (Suc i))) (k + 4 * (n - Suc i)) L)"
      by (auto intro!: ends_block_Cons simp del: fill_map_simps elim!: ends_bind)
  qed
  then show ?thesis by simp
qed

text \<open>The same rules for the first statement of a block, on one table of the state.\<close>

lemma block_update:
  assumes "holds (A(r \<mapsto> m)) k L s" and "4 \<le> k"
    and "\<And>t. holds (A(r \<mapsto> m(key v := pte_value p))) (k - 4) L t \<Longrightarrow> returns (block cs t) Q"
  shows "returns (block (update r v p # cs) s) Q"
  using assms update_holds [of "A(r \<mapsto> m)" "k - 4" L s r m v p]
  by (auto intro: ends_bind)

lemma block_query:
  assumes "holds (A(r \<mapsto> m)) k L s" and "m (key v) = x"
    and "\<And>t. holds (A(r \<mapsto> m)) k L t \<Longrightarrow> returns (block cs t) Q"
  shows "returns (block (assert_query query r v x # cs) s) Q"
  using assms assert_query_holds [of "A(r \<mapsto> m)" k L s r m v x]
  by (auto intro: ends_bind)

lemma block_say:
  assumes "holds A k L s"
    and "\<And>t. holds A k (L @ [x]) t \<Longrightarrow> returns (block cs t) Q"
  shows "returns (block (say x # cs) s) Q"
  using assms say_holds [of A k L s x] by (auto intro: ends_bind)

lemma block_fill:
  assumes "holds (A(r \<mapsto> m)) k L s" and "4 * n \<le> k"
    and "\<And>i. i < n \<Longrightarrow> pte_value (p i) = x i"
    and "\<And>t. holds (A(r \<mapsto> fill_map m v p n)) (k - 4 * n) L t \<Longrightarrow> returns (block cs t) Q"
  shows "returns (block (for_upto n (\<lambda>i. block
      [update r (v i) (p i), assert_query query r (v i) (x i)]) # cs) s) Q"
  using assms fill_loop_holds [of "A(r \<mapsto> m)" "k - 4 * n" n L s r m p x v]
  by (auto intro: ends_bind)

end

section \<open>The code provides the interface\<close>

text \<open>\<open>printf\<close> with a constant string.\<close>

definition os_say :: "string \<Rightarrow> os_state \<Rightarrow> os_state run" where
  "os_say x s = Ok (s\<lparr>out := out s @ [x]\<rparr>)"

definition ready :: "os_state \<Rightarrow> u64 set \<Rightarrow> bool" where
  "ready s R \<longleftrightarrow>
     (\<exists>lv. pt_inv lv s \<and> (\<forall>pt \<in> R. \<exists>f < mapped s. pt = frame_ppn f \<and> lv f = 4))"

definition table_view :: "os_state \<Rightarrow> u64 \<Rightarrow> u64 \<Rightarrow> u64" where
  "table_view s pt vpn = look s 4 (unat (pt - 0xbaaaaaad)) vpn"

lemma table_view_frame [simp]: "f \<le> 1048576 \<Longrightarrow> table_view s (frame_ppn f) vpn = look s 4 f vpn"
  by (simp add: table_view_def frame_ppn_def)

lemma ready_init: "ready os_init {}"
proof -
  have "mapped os_init = 0" by (simp add: os_init_def)
  then show ?thesis
    using os_inv_init by (auto simp: ready_def pt_inv_def links_ok_def tree_like_def)
qed

lemma ready_query:
  assumes "ready s R" and "pt \<in> R"
  shows "page_table_query pt vpn s = Ok (table_view s pt vpn)"
proof -
  obtain lv f where "pt_inv lv s" "f < mapped s" "pt = frame_ppn f" "lv f = 4"
    using assms by (auto simp: ready_def)
  then show ?thesis using pt_inv_bound [of lv s] by (simp add: page_table_query_eq)
qed

lemma look_key: "key v = key v' \<Longrightarrow> look s 4 f v = look s 4 f v'"
  by (simp add: look_def entry_def walk_key [of v v'] key_index [of v v'] split: option.split)

lemma ready_update:
  assumes "ready s R" and "pt \<in> R"
  shows "ends (page_table_update mm pt vpn ppn s)
    (\<lambda>n. n = 1 \<and> ppn \<noteq> NO_MAPPING \<and> \<not> room mm 4 s)
    (\<lambda>t. ready t R \<and> mapped s \<le> mapped t \<and> mapped t \<le> mapped s + 4 \<and> out t = out s \<and>
       (\<forall>pt' \<in> R. \<forall>vpn'. table_view t pt' vpn' =
          (if pt' = pt \<and> key vpn' = key vpn then pte_value ppn else table_view s pt' vpn')))"
proof -
  obtain lv where inv: "pt_inv lv s"
    and R: "\<forall>pt \<in> R. \<exists>f < mapped s. pt = frame_ppn f \<and> lv f = 4"
    using assms by (auto simp: ready_def)
  obtain f where f: "f < mapped s" "pt = frame_ppn f" "lv f = 4" using bspec [OF R assms(2)] by metis
  have b: "mapped s \<le> 1048576" by (rule pt_inv_bound [OF inv])
  show ?thesis
    unfolding f(2)
  proof (rule ends_mono [OF page_table_update_spec [OF inv f(1,3)]])
    fix t assume t: "update_post lv s f vpn ppn t"
    then obtain lv' where lv': "pt_inv lv' t" "\<forall>g < mapped s. lv' g = lv g"
      by (auto simp: update_post_def)
    have le: "mapped s \<le> mapped t" using t by (simp add: update_post_def)
    have "\<exists>g < mapped t. pt' = frame_ppn g \<and> lv' g = 4" if mem: "pt' \<in> R" for pt'
    proof -
      obtain g where g: "g < mapped s" "pt' = frame_ppn g" "lv g = 4" using bspec [OF R mem] by metis
      have "g < mapped t" using g(1) le by (rule less_le_trans)
      moreover have "lv' g = 4" using lv'(2) g by simp
      ultimately show ?thesis using g(2) by blast
    qed
    then have "ready t R" using lv' by (auto simp: ready_def)
    moreover have "table_view t pt' vpn' =
        (if pt' = frame_ppn f \<and> key vpn' = key vpn then pte_value ppn else table_view s pt' vpn')"
      if mem: "pt' \<in> R" for pt' vpn'
    proof -
      obtain g where "g < mapped s" "pt' = frame_ppn g" "lv g = 4" using bspec [OF R mem] by metis
      then show ?thesis using t b f by (simp add: update_post_def frame_ppn_inject)
    qed
    ultimately show "ready t R \<and> mapped s \<le> mapped t \<and> mapped t \<le> mapped s + 4 \<and> out t = out s \<and>
       (\<forall>pt' \<in> R. \<forall>vpn'. table_view t pt' vpn' =
          (if pt' = frame_ppn f \<and> key vpn' = key vpn then pte_value ppn
           else table_view s pt' vpn'))"
      using t by (auto simp: update_post_def)
  qed simp
qed

lemma ready_alloc:
  assumes "ready s R" and "alloc_page_frame mm s = Ok (pt, t)"
  shows "pt \<notin> R \<and> ready t (insert pt R) \<and> mapped t = Suc (mapped s) \<and> out t = out s \<and>
    (\<forall>vpn. table_view t pt vpn = NO_MAPPING) \<and>
    (\<forall>pt' \<in> R. \<forall>vpn. table_view t pt' vpn = table_view s pt' vpn)"
proof -
  obtain lv where inv: "pt_inv lv s"
    and R: "\<forall>pt \<in> R. \<exists>f < mapped s. pt = frame_ppn f \<and> lv f = 4"
    using assms by (auto simp: ready_def)
  have t: "os_inv t" "mapped s < 1048576" "pt = frame_ppn (mapped s)" "mapped t = Suc (mapped s)"
    "mem t = (mem s)(mapped s := (\<lambda>_. 0))" "out t = out s"
    using os_inv_alloc [OF pt_inv_os [OF inv] assms(2)] by simp_all
  have "\<exists>g < mapped t. pt' = frame_ppn g \<and> (lv(mapped s := 4)) g = 4"
    if "pt' \<in> insert pt R" for pt'
  proof (cases "pt' \<in> R")
    case True
    then obtain g where "g < mapped s" "pt' = frame_ppn g" "lv g = 4" using bspec [OF R True] by metis
    then show ?thesis using t by (intro exI [of _ g]) simp
  next
    case False
    then show ?thesis using that t by (intro exI [of _ "mapped s"]) simp
  qed
  then have "ready t (insert pt R)"
    using pt_inv_new_root [OF inv t(1,4,5)] by (auto simp: ready_def)
  moreover have "pt \<notin> R" using R t by (auto simp: frame_ppn_inject)
  moreover have "table_view t pt vpn = NO_MAPPING" for vpn
    using t by (simp add: look_zero_frame)
  moreover have "table_view t pt' vpn = table_view s pt' vpn" if mem: "pt' \<in> R" for pt' vpn
  proof -
    obtain g where "g < mapped s" "pt' = frame_ppn g" "lv g = 4" using bspec [OF R mem] by metis
    moreover from this have "look t 4 g vpn = look s 4 g vpn"
      using look_new_root [OF inv t(5)] by blast
    ultimately show ?thesis using t(2) by simp
  qed
  ultimately show ?thesis using t by simp
qed

text \<open>Printing changes nothing but the output.\<close>

lemma walk_out [simp]: "walk (s\<lparr>out := L\<rparr>) l f vpn = walk s l f vpn"
  by (induction l arbitrary: f) (simp_all add: entry_def)

lemma pt_inv_out [simp]: "pt_inv lv (s\<lparr>out := L\<rparr>) \<longleftrightarrow> pt_inv lv s"
  by (simp add: pt_inv_def os_inv_def links_ok_def tree_like_def)

lemma ready_say [simp]: "ready (s\<lparr>out := L\<rparr>) R \<longleftrightarrow> ready s R"
  by (simp add: ready_def)

lemma table_view_say [simp]: "table_view (s\<lparr>out := L\<rparr>) pt vpn = table_view s pt vpn"
  by (simp add: table_view_def look_def entry_def split: option.split)

lemma room_mono: "room mm k s \<Longrightarrow> j \<le> k \<Longrightarrow> room mm j s"
  by (auto simp: room_def)

lemma room_after:
  "room mm (k + n) s \<Longrightarrow> mapped s \<le> mapped t \<Longrightarrow> mapped t \<le> mapped s + n \<Longrightarrow> room mm k t"
  by (auto simp: room_def)

interpretation os_pt: page_tables ready "room mm" table_view out
  "alloc_page_frame mm" page_table_query "page_table_update mm" os_say for mm
proof
  fix s :: os_state and k j :: nat assume "room mm k s" "j \<le> k"
  then show "room mm j s" by (rule room_mono)
next
  fix s R pt v v' assume "ready s R" "key v = key v'"
  then show "table_view s pt v = table_view s pt v'"
    unfolding table_view_def by (intro look_key)
next
  fix s R pt v assume "ready s R" "pt \<in> R"
  then show "page_table_query pt v s = Ok (table_view s pt v)" by (rule ready_query)
next
  fix s R k assume r: "ready s R" and room: "room mm (Suc k) s"
  have "os_inv s" "mapped s < 1048576" "mm (mapped s)"
    using r room by (auto simp: ready_def pt_inv_def room_def)
  then obtain pt t where a: "alloc_page_frame mm s = Ok (pt, t)"
    using alloc_page_frame_Ok by blast
  then show "returns (alloc_page_frame mm s) (\<lambda>(r, t).
        r \<notin> R \<and> ready t (insert r R) \<and> room mm k t \<and> out t = out s \<and>
        (\<forall>v. table_view t r v = NO_MAPPING) \<and>
        (\<forall>r' \<in> R. \<forall>v. table_view t r' v = table_view s r' v))"
    using ready_alloc [OF r a] room room_after [of mm k 1 s t] by simp
next
  fix s R pt k v p assume r: "ready s R" "pt \<in> R" and room: "room mm (k + 4) s"
  have "room mm 4 s" using room by (rule room_mono) simp
  with ready_update [OF r, of mm v p] room show
    "returns (page_table_update mm pt v p s) (\<lambda>t.
        ready t R \<and> room mm k t \<and> out t = out s \<and>
        (\<forall>r' \<in> R. \<forall>v'. table_view t r' v' =
           (if r' = pt \<and> key v' = key v then pte_value p else table_view s r' v')))"
    by (auto elim!: ends_mono dest: room_after)
next
  fix s R k x assume "ready s R" "room mm k s"
  then show "returns (os_say x s) (\<lambda>t.
        ready t R \<and> room mm k t \<and> out t = out s @ [x] \<and>
        (\<forall>r \<in> R. \<forall>v. table_view t r v = table_view s r v))"
    by (simp add: os_say_def room_def)
qed

section \<open>Properties of every history\<close>

text \<open>
  The states a program can reach when every table is a frame it got from
  \<open>alloc_page_frame\<close>, as the callers of \<open>pt.c\<close> must: allocations and updates in any order.
\<close>

inductive pt_reach :: "(nat \<Rightarrow> bool) \<Rightarrow> os_state \<Rightarrow> u64 set \<Rightarrow> bool" for mm where
  start: "pt_reach mm os_init {}"
| alloc: "pt_reach mm s R \<Longrightarrow> alloc_page_frame mm s = Ok (pt, t) \<Longrightarrow> pt_reach mm t (insert pt R)"
| update: "pt_reach mm s R \<Longrightarrow> pt \<in> R \<Longrightarrow> page_table_update mm pt vpn ppn s = Ok t \<Longrightarrow>
    pt_reach mm t R"

lemma reach_ready: "pt_reach mm s R \<Longrightarrow> ready s R"
proof (induction rule: pt_reach.induct)
  case start
  show ?case by (rule ready_init)
next
  case (alloc s R pt t)
  then show ?case using ready_alloc by blast
next
  case (update s R pt vpn ppn t)
  then show ?case using ends_Ok [OF ready_update] by blast
qed

text \<open>A concrete state for the witnesses: one empty table, \<open>mmap\<close> never failing.\<close>

definition one_table :: os_state where
  "one_table = (case alloc_page_frame (\<lambda>_. True) os_init of Ok (pt, s) \<Rightarrow> s | _ \<Rightarrow> os_init)"

lemma one_table_alloc: "alloc_page_frame (\<lambda>_. True) os_init = Ok (0xbaaaaaad, one_table)"
  using alloc_page_frame_Ok [OF os_inv_init, of "\<lambda>_. True"]
  by (simp add: one_table_def os_init_def frame_ppn_def)

lemma one_table_reach: "pt_reach (\<lambda>_. True) one_table {0xbaaaaaad}"
  by (rule pt_reach.alloc [OF pt_reach.start one_table_alloc])

lemma one_table_room: "room (\<lambda>_. True) 4 one_table"
  using os_inv_alloc [OF os_inv_init one_table_alloc] by (simp add: room_def os_init_def)

lemma one_table_empty: "page_table_query 0xbaaaaaad vpn one_table = Ok NO_MAPPING"
  using ready_alloc [OF ready_init one_table_alloc] ready_query [of one_table "{0xbaaaaaad}"]
  by simp

text \<open>
  C1: The page table is a map. In every reachable state, after \<open>page_table_update\<close> returns, a
  query in the updated table for a page number with the same key gives the new value (reduced
  to the 52 bits an entry holds), and every other query, in this table or any other, gives what
  it gave before.
\<close>

theorem query_after_update:
  assumes "pt_reach mm s R" and "pt \<in> R" and "pt' \<in> R"
    and "page_table_update mm pt vpn ppn s = Ok t"
  shows "page_table_query pt' vpn' t =
    (if pt' = pt \<and> key vpn' = key vpn then Ok (pte_value ppn) else page_table_query pt' vpn' s)"
proof -
  have s: "ready s R" using assms(1) by (rule reach_ready)
  note u = ends_Ok [OF ready_update [OF s assms(2)] assms(4)]
  then show ?thesis using ready_query [OF s assms(3)] ready_query [OF _ assms(3), of t] assms(3)
    by auto
qed

theorem query_after_update_witness:
  "returns (page_table_update (\<lambda>_. True) 0xbaaaaaad 0xcafe 0xf00d one_table) (\<lambda>t.
     page_table_query 0xbaaaaaad 0xcafe t = Ok 0xf00d \<and>
     page_table_query 0xbaaaaaad 0xbaff t = Ok NO_MAPPING)"
proof -
  have "returns (page_table_update (\<lambda>_. True) 0xbaaaaaad 0xcafe 0xf00d one_table) (\<lambda>_. True)"
    by (rule ends_mono [OF ready_update [OF reach_ready [OF one_table_reach]]])
      (use one_table_room in simp_all)
  then obtain t where
    t: "page_table_update (\<lambda>_. True) 0xbaaaaaad 0xcafe 0xf00d one_table = Ok t"
    by (rule returnsE)
  have v: "pte_value 0xf00d = 0xf00d"
    by (simp add: pte_value_def NO_MAPPING_def take_bit_word_beyond_length_eq)
  have "page_table_query 0xbaaaaaad vpn' t =
      (if key vpn' = key 0xcafe then Ok 0xf00d else Ok NO_MAPPING)" for vpn'
    by (subst query_after_update [OF one_table_reach _ _ t]) (simp_all add: v one_table_empty)
  then show ?thesis by (simp add: t key_def)
qed

text \<open>
  C23: An update never does anything undefined in a reachable state. It ends the process only
  with status 1, only when mapping (never when unmapping), and only if fewer than four more
  frames can be had; and it takes at most four frames.
\<close>

theorem update_ends:
  assumes "pt_reach mm s R" and "pt \<in> R"
  shows "ends (page_table_update mm pt vpn ppn s)
    (\<lambda>n. n = 1 \<and> ppn \<noteq> NO_MAPPING \<and> \<not> room mm 4 s)
    (\<lambda>t. mapped s \<le> mapped t \<and> mapped t \<le> mapped s + 4)"
  by (rule ends_mono [OF ready_update [OF reach_ready [OF assms(1)] assms(2)]]) auto

theorem update_ends_witness:
  "returns (page_table_update (\<lambda>_. True) 0xbaaaaaad 0xcafe 0xf00d one_table)
    (\<lambda>t. mapped t \<le> mapped one_table + 4)"
  by (rule ends_mono [OF update_ends [OF one_table_reach]]) (use one_table_room in auto)

lemma store64_nalloc: "store64 s p i v = Ok t \<Longrightarrow> nalloc t = nalloc s"
  by (auto simp: store64_def)

lemma unmap_walk_same: "update_walk mm l p vpn NO_MAPPING s = Ok (c, t) \<Longrightarrow> t = s"
  by (induction l arbitrary: p) (auto simp: Let_def split: if_splits)

lemma unmap_nalloc: "page_table_update mm pt vpn NO_MAPPING s = Ok t \<Longrightarrow> nalloc t = nalloc s"
  by (auto simp: page_table_update_def Let_def split: option.splits
      dest!: unmap_walk_same store64_nalloc)

text \<open>
  Unmapping allocates nothing: whatever \<open>mmap\<close> would answer, \<open>page_table_update\<close> with
  \<open>NO_MAPPING\<close> returns, the frame counter is unchanged, and the key is unmapped afterwards.
\<close>

theorem unmap_allocates_nothing:
  assumes "pt_reach mm s R" and "pt \<in> R"
  shows "returns (page_table_update mm pt vpn NO_MAPPING s)
    (\<lambda>t. nalloc t = nalloc s \<and> page_table_query pt vpn t = Ok NO_MAPPING)"
proof -
  have s: "ready s R" using assms(1) by (rule reach_ready)
  show ?thesis
  proof (rule ends_mono_Ok [OF ready_update [OF s assms(2), of mm vpn NO_MAPPING]])
    fix t
    assume "page_table_update mm pt vpn NO_MAPPING s = Ok t" and
      "ready t R \<and> mapped s \<le> mapped t \<and> mapped t \<le> mapped s + 4 \<and> out t = out s \<and>
       (\<forall>pt' \<in> R. \<forall>vpn'. table_view t pt' vpn' =
          (if pt' = pt \<and> key vpn' = key vpn then pte_value NO_MAPPING
           else table_view s pt' vpn'))"
    then show "nalloc t = nalloc s \<and> page_table_query pt vpn t = Ok NO_MAPPING"
      using unmap_nalloc ready_query assms(2) by (auto simp: pte_value_def)
  qed simp
qed

theorem unmap_allocates_nothing_witness:
  "returns (page_table_update (\<lambda>_. True) 0xbaaaaaad 0xcafe NO_MAPPING one_table)
    (\<lambda>t. nalloc t = nalloc one_table \<and> page_table_query 0xbaaaaaad 0xcafe t = Ok NO_MAPPING)"
  by (rule unmap_allocates_nothing [OF one_table_reach]) simp

text \<open>
  A query returns in every reachable state, with \<open>NO_MAPPING\<close> or a 52-bit page number; so
  the value \<open>NO_MAPPING\<close> is never a mapping.
\<close>

theorem query_returns:
  assumes "pt_reach mm s R" and "pt \<in> R"
  shows "returns (page_table_query pt vpn s) (\<lambda>v. v = NO_MAPPING \<or> v < 2 ^ 52)"
proof -
  have "look s 4 f v = NO_MAPPING \<or> look s 4 f v < 2 ^ 52" for f v
    using drop12_bound by (simp add: look_def leaf_value_def split: option.split)
  then show ?thesis
    using ready_query [OF reach_ready [OF assms(1)] assms(2)] by (simp add: table_view_def)
qed

theorem query_returns_witness:
  "returns (page_table_query 0xbaaaaaad 0xcafe one_table) (\<lambda>v. v = NO_MAPPING \<or> v < 2 ^ 52)"
  by (rule query_returns [OF one_table_reach]) simp

text \<open>
  C25: Page numbers that agree above bit 11 are one entry. In every reachable state a query
  gives the same for both, so mapping one of two neighbouring pages maps the other, and
  unmapping one unmaps the other: the 12 low bits of the page number are dropped as if they
  were a page offset.
\<close>

theorem neighbours_share_entry:
  assumes "pt_reach mm s R" and "pt \<in> R" and "drop_bit 12 vpn = drop_bit 12 vpn'"
  shows "page_table_query pt vpn s = page_table_query pt vpn' s"
proof -
  have "key vpn = key vpn'" using assms(3) by (simp add: key_def)
  then have "table_view s pt vpn = table_view s pt vpn'"
    unfolding table_view_def by (rule look_key)
  then show ?thesis
    using ready_query [OF reach_ready [OF assms(1)] assms(2)] by simp
qed

theorem neighbours_share_entry_witness:
  "returns (page_table_update (\<lambda>_. True) 0xbaaaaaad 0xabd 0x456 one_table) (\<lambda>t.
     page_table_query 0xbaaaaaad 0xabc t = page_table_query 0xbaaaaaad 0xabd t)"
proof -
  have "returns (page_table_update (\<lambda>_. True) 0xbaaaaaad 0xabd 0x456 one_table) (\<lambda>_. True)"
    by (rule ends_mono [OF ready_update [OF reach_ready [OF one_table_reach]]])
      (use one_table_room in simp_all)
  then obtain t where
    t: "page_table_update (\<lambda>_. True) 0xbaaaaaad 0xabd 0x456 one_table = Ok t"
    by (rule returnsE)
  have "pt_reach (\<lambda>_. True) t {0xbaaaaaad}"
    by (rule pt_reach.update [OF one_table_reach _ t]) simp
  then show ?thesis by (simp add: t neighbours_share_entry [of _ t _ _ "0xabc" "0xabd"])
qed

text \<open>
  A new table is empty and separate: \<open>alloc_page_frame\<close> gives a page number that was not
  given before, no page number is mapped in it, and no query in an older table changes.
\<close>

theorem new_table_empty:
  assumes "pt_reach mm s R" and "alloc_page_frame mm s = Ok (pt, t)"
  shows "pt \<notin> R \<and> page_table_query pt vpn t = Ok NO_MAPPING \<and>
    (\<forall>pt' \<in> R. page_table_query pt' vpn t = page_table_query pt' vpn s)"
proof -
  note a = ready_alloc [OF reach_ready [OF assms(1)] assms(2)]
  then have "page_table_query pt' vpn t = Ok (table_view t pt' vpn)" if "pt' \<in> insert pt R" for pt'
    using ready_query that by blast
  then show ?thesis using a ready_query [OF reach_ready [OF assms(1)]] by simp
qed

theorem new_table_empty_witness:
  "page_table_query 0xbaaaaaad 0xcafe one_table = Ok NO_MAPPING"
  using new_table_empty [OF pt_reach.start one_table_alloc] by simp

end
