(* ===== verification/Os_Main.thy ===== *)
theory Os_Main
  imports Page_Table
begin

text \<open>
  The \<open>main\<close> of \<open>hw1/os.c\<close>, which drives \<open>pt.c\<close> through updates and asserted queries. It is
  cut at the points where it allocates tables; each part is the list of its statements in
  order, with the commented-out assertions left out as they are in the code. The theorem says
  that it runs to the end: no assertion fails, and the printed lines are those of a full run.
  The proof is a walk over the statements with the rules of \<open>page_tables\<close>.
\<close>

definition main_basic :: "(nat \<Rightarrow> bool) \<Rightarrow> u64 \<Rightarrow> os_state \<Rightarrow> os_state run" where
  "main_basic mm pt = block [
     assert_query page_table_query pt 0xcafecafeeee NO_MAPPING,
     assert_query page_table_query pt 0xfffecafeeee NO_MAPPING,
     page_table_update mm pt 0xcafecafeeee 0xf00d,
     assert_query page_table_query pt 0xcafecafeeee 0xf00d,
     assert_query page_table_query pt 0xfffecafeeee NO_MAPPING,
     page_table_update mm pt 0xcafecafeeee NO_MAPPING,
     assert_query page_table_query pt 0xcafecafeeee NO_MAPPING,
     assert_query page_table_query pt 0xfffecafeeee NO_MAPPING,
     os_say ''All BASIC tests pass'']"

definition main_tests :: "(nat \<Rightarrow> bool) \<Rightarrow> u64 \<Rightarrow> os_state \<Rightarrow> os_state run" where
  "main_tests mm pt = block [
     assert_query page_table_query pt 0xcafe NO_MAPPING,
     page_table_update mm pt 0xcafe 0xf00d,
     page_table_update mm pt 0xbaff 0xbadd,
     assert_query page_table_query pt 0xcafe 0xf00d,
     assert_query page_table_query pt 0xbaff 0xbadd,
     page_table_update mm pt 0xcafe NO_MAPPING,
     assert_query page_table_query pt 0xcafe NO_MAPPING,
     assert_query page_table_query pt 0xbaff 0xbadd,
     page_table_update mm pt 0xbaff NO_MAPPING,
     assert_query page_table_query pt 0xbaff NO_MAPPING,
     os_say ''1st Test: PASSED'',
     page_table_update mm pt 0xcafe 0,
     assert_query page_table_query pt 0xcafe 0,
     page_table_update mm pt 0xcafe NO_MAPPING,
     assert_query page_table_query pt 0xcafe NO_MAPPING,
     os_say ''2nd Test: PASSED'',
     page_table_update mm pt 0x8686 0xabcd,
     assert_query page_table_query pt 0x8686 0xabcd,
     page_table_update mm pt 0x8686 0x1234,
     assert_query page_table_query pt 0x8686 0x1234,
     os_say ''3rd Test: PASSED'',
     page_table_update mm pt 0xcafe 0xacdc,
     page_table_update mm pt 0xcaff 0xaaaa,
     page_table_update mm pt 0xcafe NO_MAPPING,
     page_table_update mm pt 0xcaff NO_MAPPING,
     assert_query page_table_query pt 0xcafe NO_MAPPING,
     assert_query page_table_query pt 0xcaff NO_MAPPING,
     os_say ''4th Test: PASSED'']"

definition main_new_pt :: "(nat \<Rightarrow> bool) \<Rightarrow> u64 \<Rightarrow> os_state \<Rightarrow> os_state run" where
  "main_new_pt mm new_pt = block [
     page_table_update mm new_pt 0xcafe 0xabcd,
     assert_query page_table_query new_pt 0xcafe 0xabcd,
     page_table_update mm new_pt 0xcafe NO_MAPPING,
     assert_query page_table_query new_pt 0xcafe NO_MAPPING,
     os_say ''5th Test: PASSED'',
     os_say ''Overall:  PASSED'']"

definition large_addrs :: "u64 list" where
  "large_addrs =
     [0x1ffff8000000, 0x2ffff9000000, 0x3ffffa000000, 0x4ffffb000000,
      0x5ffffc000000, 0x6ffffd000000, 0x7ffffe000000, 0x8fffff000000]"

text \<open>The loops that map \<open>v i\<close> to \<open>p i\<close> for \<open>i < n\<close> and check each mapping at once.\<close>

definition map_loop ::
    "(nat \<Rightarrow> bool) \<Rightarrow> u64 \<Rightarrow> nat \<Rightarrow> (nat \<Rightarrow> u64) \<Rightarrow> (nat \<Rightarrow> u64) \<Rightarrow> os_state \<Rightarrow> os_state run" where
  "map_loop mm pt n v p = for_upto n (\<lambda>i. block
     [page_table_update mm pt (v i) (p i), assert_query page_table_query pt (v i) (p i)])"

definition main_loops :: "(nat \<Rightarrow> bool) \<Rightarrow> u64 \<Rightarrow> os_state \<Rightarrow> os_state run" where
  "main_loops mm pt = block [
     assert_query page_table_query pt 0x0 NO_MAPPING,
     assert_query page_table_query pt 0x1 NO_MAPPING,
     page_table_update mm pt 0x0 0x100,
     assert_query page_table_query pt 0x0 0x100,
     page_table_update mm pt 0x1 0x101,
     page_table_update mm pt 0x0 NO_MAPPING,
     assert_query page_table_query pt 0x0 NO_MAPPING,
     page_table_update mm pt 0x1 NO_MAPPING,
     assert_query page_table_query pt 0x1 NO_MAPPING,
     map_loop mm pt 1024 of_nat (\<lambda>i. of_nat i + 0x1000),
     map_loop mm pt 1024 of_nat (\<lambda>i. NO_MAPPING),
     map_loop mm pt 8 (\<lambda>i. large_addrs ! i) (\<lambda>i. drop_bit 12 (large_addrs ! i)),
     map_loop mm pt 8 (\<lambda>i. large_addrs ! i) (\<lambda>i. NO_MAPPING),
     map_loop mm pt 2048 of_nat (\<lambda>i. of_nat i + 0x2000),
     map_loop mm pt 2048 of_nat (\<lambda>i. NO_MAPPING)]"

definition main_single :: "(nat \<Rightarrow> bool) \<Rightarrow> u64 \<Rightarrow> os_state \<Rightarrow> os_state run" where
  "main_single mm pt = block [
     page_table_update mm pt 0xabc 0x123,
     page_table_update mm pt 0xabc NO_MAPPING,
     assert_query page_table_query pt 0xabc NO_MAPPING,
     os_say ''fails_functionality_basic: PASSED'']"

definition main_same_pte :: "(nat \<Rightarrow> bool) \<Rightarrow> u64 \<Rightarrow> os_state \<Rightarrow> os_state run" where
  "main_same_pte mm pt = block [
     page_table_update mm pt 0x100 0x200,
     page_table_update mm pt 0x200 0x300,
     page_table_update mm pt 0x100 NO_MAPPING,
     assert_query page_table_query pt 0x100 NO_MAPPING,
     os_say ''test_NO_MAPPING_same_pte: PASSED'']"

definition main_ppn_0 :: "(nat \<Rightarrow> bool) \<Rightarrow> u64 \<Rightarrow> os_state \<Rightarrow> os_state run" where
  "main_ppn_0 mm pt = block [
     page_table_update mm pt 0x100 0x0,
     assert_query page_table_query pt 0x100 0x0,
     page_table_update mm pt 0x100 NO_MAPPING,
     os_say ''test_mapping_to_ppn_0: PASSED'']"

definition main_override :: "(nat \<Rightarrow> bool) \<Rightarrow> u64 \<Rightarrow> os_state \<Rightarrow> os_state run" where
  "main_override mm pt = block [
     page_table_update mm pt 0xabc 0x123,
     page_table_update mm pt 0xabc 0x456,
     assert_query page_table_query pt 0xabc 0x456,
     page_table_update mm pt 0xabc NO_MAPPING,
     os_say ''mapping_override_test: PASSED'']"

definition main_similar_vpn :: "(nat \<Rightarrow> bool) \<Rightarrow> u64 \<Rightarrow> os_state \<Rightarrow> os_state run" where
  "main_similar_vpn mm pt = block [
     page_table_update mm pt 0xabc 0x123,
     page_table_update mm pt 0xabd 0x456,
     assert_query page_table_query pt 0xabd 0x456,
     page_table_update mm pt 0xabc NO_MAPPING,
     page_table_update mm pt 0xabd NO_MAPPING,
     os_say ''test_override_prefix_similar_vpn: PASSED'']"

definition main_two_roots :: "(nat \<Rightarrow> bool) \<Rightarrow> u64 \<Rightarrow> u64 \<Rightarrow> os_state \<Rightarrow> os_state run" where
  "main_two_roots mm pt new_pt = block [
     page_table_update mm pt 0xabc 0x123,
     page_table_update mm new_pt 0xabc 0x456,
     assert_query page_table_query new_pt 0xabc 0x456,
     page_table_update mm pt 0xabc NO_MAPPING,
     page_table_update mm new_pt 0xabc NO_MAPPING,
     os_say ''zero_not_node_root_Test: PASSED'',
     os_say ''All tests passed successfully!'']"

text \<open>One part of \<open>main\<close>: a new table, then the statements on it.\<close>

definition on_new :: "(nat \<Rightarrow> bool) \<Rightarrow> (u64 \<Rightarrow> os_state \<Rightarrow> os_state run) \<Rightarrow> os_state \<Rightarrow> os_state run" where
  "on_new mm part s = bindR (alloc_page_frame mm s) (\<lambda>(pt, t). part pt t)"

definition os_main :: "(nat \<Rightarrow> bool) \<Rightarrow> os_state \<Rightarrow> (int \<times> os_state) run" where
  "os_main mm s = bindR (block [
       on_new mm (main_basic mm),
       on_new mm (\<lambda>pt. on_new mm (\<lambda>new_pt. block [main_tests mm pt, main_new_pt mm new_pt])),
       on_new mm (main_loops mm),
       on_new mm (\<lambda>pt. on_new mm (main_single mm)),
       on_new mm (main_same_pte mm),
       on_new mm (main_ppn_0 mm),
       on_new mm (main_override mm),
       on_new mm (main_similar_vpn mm),
       on_new mm (\<lambda>pt. on_new mm (\<lambda>new_pt. main_two_roots mm pt new_pt))] s)
     (\<lambda>t. Ok (0, t))"

section \<open>Running it\<close>

text \<open>
  The state between two parts: any tables with any contents, a frame budget, the output. The
  budget of a part is four frames for each update and one for each table.
\<close>

definition between :: "(nat \<Rightarrow> bool) \<Rightarrow> nat \<Rightarrow> string list \<Rightarrow> os_state \<Rightarrow> bool" where
  "between mm k L s \<longleftrightarrow> (\<exists>A. os_pt.holds mm A k L s)"

lemma between_le: "between mm k L s \<Longrightarrow> j \<le> k \<Longrightarrow> between mm j L s"
  by (auto simp: between_def intro: os_pt.holds_le)

lemma pte_value_small [simp]: "p < 2 ^ 52 \<Longrightarrow> pte_value p = p"
proof -
  assume p: "p < 2 ^ 52"
  then have "take_bit 52 p = p"
    by (simp add: word_unat_eq_iff unsigned_take_bit_eq word_less_nat_alt take_bit_nat_def)
  moreover have "p \<noteq> NO_MAPPING" using p by (auto simp: NO_MAPPING_def)
  ultimately show ?thesis by (simp add: pte_value_def)
qed

lemma pte_value_NO_MAPPING [simp]: "pte_value NO_MAPPING = NO_MAPPING"
  by (simp add: pte_value_def)

lemmas part_rules = os_pt.block_query os_pt.block_update os_pt.block_say

lemma on_new_holds:
  assumes "os_pt.holds mm A k L s" and "1 \<le> k"
    and "\<And>pt t. A pt = None \<Longrightarrow> os_pt.holds mm (A(pt \<mapsto> (\<lambda>_. NO_MAPPING))) (k - 1) L t \<Longrightarrow>
      returns (part pt t) Q"
  shows "returns (on_new mm part s) Q"
  unfolding on_new_def
  by (rule ends_bind [OF os_pt.new_table_holds [of mm A "k - 1" L s]]) (use assms in auto)

lemma main_basic_holds:
  assumes "os_pt.holds mm (A(pt \<mapsto> (\<lambda>_. NO_MAPPING))) k L s" and "8 \<le> k"
  shows "returns (main_basic mm pt s) (between mm (k - 8) (L @ [''All BASIC tests pass'']))"
  using assms unfolding main_basic_def
  by (elim part_rules; simp add: key_def) (auto simp: between_def)

lemma main_tests_holds:
  assumes "os_pt.holds mm (A(pt \<mapsto> (\<lambda>_. NO_MAPPING))) k L s" and "48 \<le> k"
  shows "returns (main_tests mm pt s) (\<lambda>t. \<exists>m. os_pt.holds mm (A(pt \<mapsto> m)) (k - 48)
    (L @ [''1st Test: PASSED'', ''2nd Test: PASSED'', ''3rd Test: PASSED'', ''4th Test: PASSED'']) t)"
  using assms unfolding main_tests_def
  by (elim part_rules; simp add: key_def) auto

lemma main_new_pt_holds:
  assumes "os_pt.holds mm (A(pt \<mapsto> (\<lambda>_. NO_MAPPING))) k L s" and "8 \<le> k"
  shows "returns (main_new_pt mm pt s)
    (between mm (k - 8) (L @ [''5th Test: PASSED'', ''Overall:  PASSED'']))"
  using assms unfolding main_new_pt_def
  by (elim part_rules; simp add: key_def) (auto simp: between_def)

lemma small_plus [simp]:
  "i < 2048 \<Longrightarrow> pte_value (of_nat i + 0x1000) = of_nat i + 0x1000"
  "i < 2048 \<Longrightarrow> pte_value (of_nat i + 0x2000) = of_nat i + 0x2000"
  by (rule pte_value_small, simp add: word_less_nat_alt unat_word_ariths unat_of_nat take_bit_nat_def)+

lemma shifted_small [simp]: "pte_value (drop_bit 12 e) = drop_bit 12 e"
  by (rule pte_value_small) (rule drop12_bound)

lemma main_loops_holds:
  assumes "os_pt.holds mm (A(pt \<mapsto> (\<lambda>_. NO_MAPPING))) k L s" and "24656 \<le> k"
  shows "returns (main_loops mm pt s) (between mm (k - 24656) (L @ []))"
  using assms unfolding main_loops_def map_loop_def
  by (elim part_rules os_pt.block_fill; simp add: key_def) (auto simp: between_def)

lemma main_single_holds:
  assumes "os_pt.holds mm (A(pt \<mapsto> (\<lambda>_. NO_MAPPING))) k L s" and "8 \<le> k"
  shows "returns (main_single mm pt s)
    (between mm (k - 8) (L @ [''fails_functionality_basic: PASSED'']))"
  using assms unfolding main_single_def
  by (elim part_rules; simp add: key_def) (auto simp: between_def)

lemma main_same_pte_holds:
  assumes "os_pt.holds mm (A(pt \<mapsto> (\<lambda>_. NO_MAPPING))) k L s" and "12 \<le> k"
  shows "returns (main_same_pte mm pt s)
    (between mm (k - 12) (L @ [''test_NO_MAPPING_same_pte: PASSED'']))"
  using assms unfolding main_same_pte_def
  by (elim part_rules; simp add: key_def) (auto simp: between_def)

lemma main_ppn_0_holds:
  assumes "os_pt.holds mm (A(pt \<mapsto> (\<lambda>_. NO_MAPPING))) k L s" and "8 \<le> k"
  shows "returns (main_ppn_0 mm pt s)
    (between mm (k - 8) (L @ [''test_mapping_to_ppn_0: PASSED'']))"
  using assms unfolding main_ppn_0_def
  by (elim part_rules; simp add: key_def) (auto simp: between_def)

lemma main_override_holds:
  assumes "os_pt.holds mm (A(pt \<mapsto> (\<lambda>_. NO_MAPPING))) k L s" and "12 \<le> k"
  shows "returns (main_override mm pt s)
    (between mm (k - 12) (L @ [''mapping_override_test: PASSED'']))"
  using assms unfolding main_override_def
  by (elim part_rules; simp add: key_def) (auto simp: between_def)

lemma main_similar_vpn_holds:
  assumes "os_pt.holds mm (A(pt \<mapsto> (\<lambda>_. NO_MAPPING))) k L s" and "16 \<le> k"
  shows "returns (main_similar_vpn mm pt s)
    (between mm (k - 16) (L @ [''test_override_prefix_similar_vpn: PASSED'']))"
  using assms unfolding main_similar_vpn_def
  by (elim part_rules; simp add: key_def) (auto simp: between_def)

text \<open>The part that works on two tables in turn.\<close>

lemma holds_swap:
  "pt \<noteq> q \<Longrightarrow> os_pt.holds mm (A(pt \<mapsto> m, q \<mapsto> m')) k L s =
   os_pt.holds mm (A(q \<mapsto> m', pt \<mapsto> m)) k L s"
  by (simp add: fun_upd_twist)

lemma main_two_roots_holds:
  assumes h: "os_pt.holds mm (A(q \<mapsto> (\<lambda>_. NO_MAPPING), pt \<mapsto> (\<lambda>_. NO_MAPPING))) k L s"
    and k: "16 \<le> k" and ne: "pt \<noteq> q"
  shows "returns (main_two_roots mm pt q s) (between mm (k - 16)
    (L @ [''zero_not_node_root_Test: PASSED'', ''All tests passed successfully!'']))"
proof -
  note swap = holds_swap [OF ne [symmetric], THEN iffD1]
    and swap' = holds_swap [OF ne, THEN iffD1]
  let ?Q = "between mm (k - 16)
    (L @ [''zero_not_node_root_Test: PASSED'', ''All tests passed successfully!''])"
  let ?last = "[page_table_update mm q 0xabc NO_MAPPING,
     os_say ''zero_not_node_root_Test: PASSED'', os_say ''All tests passed successfully!'']"
  have last: "returns (block ?last t) ?Q"
    if "os_pt.holds mm (A(pt \<mapsto> m, q \<mapsto> m')) (k - 12) L t" for t m m'
    using that k by (elim part_rules; simp add: key_def) (auto simp: between_def)
  have rest: "returns (block (page_table_update mm pt 0xabc NO_MAPPING # ?last) t) ?Q"
    if "os_pt.holds mm (A(q \<mapsto> m', pt \<mapsto> m)) (k - 8) L t" for t m m'
    using that k by (elim os_pt.block_update) (simp, rule last, drule swap, simp)
  have mid: "returns (block (page_table_update mm q 0xabc 0x456 #
      assert_query page_table_query q 0xabc 0x456 #
      page_table_update mm pt 0xabc NO_MAPPING # ?last) t) ?Q"
    if "os_pt.holds mm (A(pt \<mapsto> m, q \<mapsto> m')) (k - 4) L t" for t m m'
    using that k
    by (elim os_pt.block_update os_pt.block_query) (simp, simp, rule rest, drule swap', simp)
  show ?thesis
    unfolding main_two_roots_def using h k
    by (elim os_pt.block_update) (simp, rule mid, erule swap)
qed

text \<open>A part on a new table, and the parts that take two.\<close>

lemma block_part:
  assumes "between mm k L s" and "Suc n \<le> k"
    and "\<And>A pt k s. os_pt.holds mm (A(pt \<mapsto> (\<lambda>_. NO_MAPPING))) k L s \<Longrightarrow> n \<le> k \<Longrightarrow>
        returns (p pt s) (between mm (k - n) (L @ M))"
    and "\<And>t. between mm (k - Suc n) (L @ M) t \<Longrightarrow> returns (block cs t) Q"
  shows "returns (block (on_new mm p # cs) s) Q"
proof -
  obtain A where h: "os_pt.holds mm A k L s" using assms(1) by (auto simp: between_def)
  have "returns (on_new mm p s) (between mm (k - Suc n) (L @ M))"
  proof (rule on_new_holds [OF h])
    fix pt t assume "os_pt.holds mm (A(pt \<mapsto> (\<lambda>_. NO_MAPPING))) (k - 1) L t"
    then show "returns (p pt t) (between mm (k - Suc n) (L @ M))"
      using assms(2) assms(3) [of A pt "k - 1" t] by simp
  qed (use assms(2) in simp)
  then show ?thesis using assms(4) by (rule ends_block_Cons)
qed

lemma new_then_tests:
  assumes h: "os_pt.holds mm (A(pt \<mapsto> (\<lambda>_. NO_MAPPING))) k L s" and k: "57 \<le> k"
  shows "returns (on_new mm (\<lambda>q. block [main_tests mm pt, main_new_pt mm q]) s)
    (between mm (k - 57) (L @
      [''1st Test: PASSED'', ''2nd Test: PASSED'', ''3rd Test: PASSED'', ''4th Test: PASSED'',
       ''5th Test: PASSED'', ''Overall:  PASSED'']))"
proof (rule on_new_holds [OF h])
  fix q t assume "(A(pt \<mapsto> (\<lambda>_. NO_MAPPING))) q = None"
    and t: "os_pt.holds mm (A(pt \<mapsto> (\<lambda>_. NO_MAPPING), q \<mapsto> (\<lambda>_. NO_MAPPING))) (k - 1) L t"
  then have ne: "q \<noteq> pt" by (auto split: if_splits)
  note t' = t [unfolded holds_swap [OF ne [symmetric]]]
  show "returns (block [main_tests mm pt, main_new_pt mm q] t)
    (between mm (k - 57) (L @
      [''1st Test: PASSED'', ''2nd Test: PASSED'', ''3rd Test: PASSED'', ''4th Test: PASSED'',
       ''5th Test: PASSED'', ''Overall:  PASSED'']))"
  proof (rule ends_block_Cons, rule main_tests_holds [OF t'])
    fix u assume "\<exists>m. os_pt.holds mm (A(q \<mapsto> (\<lambda>_. NO_MAPPING), pt \<mapsto> m)) (k - 1 - 48) (L @
      [''1st Test: PASSED'', ''2nd Test: PASSED'', ''3rd Test: PASSED'', ''4th Test: PASSED'']) u"
    then obtain m where "os_pt.holds mm (A(pt \<mapsto> m, q \<mapsto> (\<lambda>_. NO_MAPPING))) (k - 1 - 48) (L @
      [''1st Test: PASSED'', ''2nd Test: PASSED'', ''3rd Test: PASSED'', ''4th Test: PASSED'']) u"
      by (auto simp: holds_swap [OF ne])
    from main_new_pt_holds [OF this] k
    show "returns (block [main_new_pt mm q] u) (between mm (k - 57) (L @
      [''1st Test: PASSED'', ''2nd Test: PASSED'', ''3rd Test: PASSED'', ''4th Test: PASSED'',
       ''5th Test: PASSED'', ''Overall:  PASSED'']))"
      by simp
  qed (use k in simp)
qed (use k in simp)

lemma new_then_single:
  assumes h: "os_pt.holds mm (A(pt \<mapsto> (\<lambda>_. NO_MAPPING))) k L s" and k: "9 \<le> k"
  shows "returns (on_new mm (main_single mm) s)
    (between mm (k - 9) (L @ [''fails_functionality_basic: PASSED'']))"
proof (rule on_new_holds [OF h])
  fix q t assume t: "os_pt.holds mm (A(pt \<mapsto> (\<lambda>_. NO_MAPPING), q \<mapsto> (\<lambda>_. NO_MAPPING))) (k - 1) L t"
  then show "returns (main_single mm q t)
      (between mm (k - 9) (L @ [''fails_functionality_basic: PASSED'']))"
    using main_single_holds [OF t] k by simp
qed (use k in simp)

lemma new_then_two_roots:
  assumes h: "os_pt.holds mm (A(pt \<mapsto> (\<lambda>_. NO_MAPPING))) k L s" and k: "17 \<le> k"
  shows "returns (on_new mm (main_two_roots mm pt) s) (between mm (k - 17)
    (L @ [''zero_not_node_root_Test: PASSED'', ''All tests passed successfully!'']))"
proof (rule on_new_holds [OF h])
  fix q t assume "(A(pt \<mapsto> (\<lambda>_. NO_MAPPING))) q = None"
    and t: "os_pt.holds mm (A(pt \<mapsto> (\<lambda>_. NO_MAPPING), q \<mapsto> (\<lambda>_. NO_MAPPING))) (k - 1) L t"
  then have ne: "pt \<noteq> q" by (auto split: if_splits)
  from main_two_roots_holds [OF t [unfolded holds_swap [OF ne]] _ ne] k
  show "returns (main_two_roots mm pt q t) (between mm (k - 17)
    (L @ [''zero_not_node_root_Test: PASSED'', ''All tests passed successfully!'']))"
    by simp
qed (use k in simp)

text \<open>
  C26: The driver program runs to the end. With frames for its 12 tables and 6198 updates, and
  \<open>mmap\<close> giving them, \<open>main\<close> returns 0, no assertion fails, and it prints the lines of a
  complete run.
\<close>

theorem os_main_passes:
  assumes "room mm 24804 os_init"
  shows "returns (os_main mm os_init) (\<lambda>(rc, t). rc = 0 \<and> out t =
    [''All BASIC tests pass'', ''1st Test: PASSED'', ''2nd Test: PASSED'', ''3rd Test: PASSED'',
     ''4th Test: PASSED'', ''5th Test: PASSED'', ''Overall:  PASSED'',
     ''fails_functionality_basic: PASSED'', ''test_NO_MAPPING_same_pte: PASSED'',
     ''test_mapping_to_ppn_0: PASSED'', ''mapping_override_test: PASSED'',
     ''test_override_prefix_similar_vpn: PASSED'', ''zero_not_node_root_Test: PASSED'',
     ''All tests passed successfully!''])"
proof -
  have "between mm 24804 [] os_init"
    using ready_init assms
    by (auto simp: between_def os_pt.holds_def os_init_def intro!: exI [of _ Map.empty])
  then show ?thesis
    unfolding os_main_def
    apply (rule_tac ends_bind [where P = "between mm 0 _"])
     apply (erule block_part [OF _ _ main_basic_holds], simp, assumption, assumption)
     apply (erule block_part [OF _ _ new_then_tests], simp, assumption, assumption)
     apply (erule block_part [OF _ _ main_loops_holds], simp, assumption, assumption)
     apply (erule block_part [OF _ _ new_then_single], simp, assumption, assumption)
     apply (erule block_part [OF _ _ main_same_pte_holds], simp, assumption, assumption)
     apply (erule block_part [OF _ _ main_ppn_0_holds], simp, assumption, assumption)
     apply (erule block_part [OF _ _ main_override_holds], simp, assumption, assumption)
     apply (erule block_part [OF _ _ main_similar_vpn_holds], simp, assumption, assumption)
     apply (erule block_part [OF _ _ new_then_two_roots], simp, assumption, assumption)
     apply simp
    apply (auto simp: between_def os_pt.holds_def)
    done
qed

theorem os_main_passes_witness:
  "returns (os_main (\<lambda>_. True) os_init) (\<lambda>(rc, t). rc = 0 \<and> length (out t) = 14)"
  by (rule ends_mono [OF os_main_passes]) (auto simp: room_def os_init_def)

end
