(* ===== verification/My_Shell.thy ===== *)
theory My_Shell
  imports C_Prelude
begin

text \<open>
  The command processor of the shell, \<open>hw2/myshell.c\<close>: \<open>prepare\<close>, \<open>process_arglist\<close>,
  \<open>finalize\<close> and the two signal handlers. The state of the shell process is its table of open
  files, its signal dispositions and its child processes; \<open>fork\<close> copies it for the child, whose code
  up to \<open>execvp\<close> or \<open>exit\<close> is a function of the copy. Which system calls succeed is an input.
\<close>

section \<open>Open files\<close>

text \<open>
  A descriptor is an index into the table. \<open>pipe\<close> and \<open>open\<close> take the lowest free one, \<open>close\<close> and
  \<open>dup2\<close> on a descriptor that is not open fail and change nothing.
\<close>

datatype open_flags = RdOnly | WrTrunc | WrAppend

datatype desc = Std nat | PipeRead nat | PipeWrite nat | Opened string open_flags

type_synonym fd_table = "desc option list"

definition fd_get :: "fd_table \<Rightarrow> nat \<Rightarrow> desc option" where
  "fd_get t n = (if n < length t then t ! n else None)"

definition fd_set :: "nat \<Rightarrow> desc option \<Rightarrow> fd_table \<Rightarrow> fd_table" where
  "fd_set n d t = (if n < length t then t[n := d] else t @ replicate (n - length t) None @ [d])"

definition lowest_free :: "fd_table \<Rightarrow> nat" where
  "lowest_free t = length (takeWhile (\<lambda>d. d \<noteq> None) t)"

definition sys_close :: "nat \<Rightarrow> fd_table \<Rightarrow> fd_table" where
  "sys_close n t = (if fd_get t n = None then t else fd_set n None t)"

definition sys_dup2 :: "nat \<Rightarrow> nat \<Rightarrow> fd_table \<Rightarrow> fd_table" where
  "sys_dup2 old new t = (if fd_get t old = None then t else fd_set new (fd_get t old) t)"

definition new_fd :: "desc \<Rightarrow> fd_table \<Rightarrow> nat \<times> fd_table" where
  "new_fd d t = (lowest_free t, fd_set (lowest_free t) (Some d) t)"

section \<open>Signals and processes\<close>

text \<open>\<open>execvp\<close> sets a signal that is caught back to the default action.\<close>

datatype disposition = SigDfl | SigIgn | Caught

definition at_exec :: "disposition \<Rightarrow> disposition" where
  "at_exec d = (if d = Caught then SigDfl else d)"

record signals =
  sigint :: disposition
  sigchld :: disposition

text \<open>A program that has been started: what it runs, with which arguments and open files.\<close>

record image =
  program :: string
  argv :: "string list"
  open_fds :: fd_table
  on_signal :: signals

text \<open>The calls of the shell process, in order; \<open>fork\<close> with what becomes of the child.\<close>

datatype call =
  CPipe nat nat | CFork nat "image run" | CClose nat | CWait nat | CBackground nat

record shell =
  fds :: fd_table
  handlers :: signals
  pipes :: nat
  children :: "nat list"
  calls :: "call list"

text \<open>The outcomes of the system calls of one \<open>process_arglist\<close>.\<close>

record outcomes =
  pipe_ok :: bool
  fork1 :: "nat option"
  fork2 :: "nat option"
  can_open :: "string \<Rightarrow> open_flags \<Rightarrow> bool"
  can_exec :: "string \<Rightarrow> bool"

definition log_call :: "call \<Rightarrow> shell \<Rightarrow> shell" where
  "log_call c s = s\<lparr>calls := calls s @ [c]\<rparr>"

definition close_fd :: "nat \<Rightarrow> shell \<Rightarrow> shell" where
  "close_fd n s = log_call (CClose n) (s\<lparr>fds := sys_close n (fds s)\<rparr>)"

text \<open>
  \<open>waitpid(pid, \<dots>, 0)\<close> returns when the child has ended, with its status or, if the handler of
  \<open>SIGCHLD\<close> was faster, with \<open>ECHILD\<close>; the result is not used.
\<close>

definition wait_for :: "nat \<Rightarrow> shell \<Rightarrow> shell" where
  "wait_for p s = log_call (CWait p) (s\<lparr>children := filter (\<lambda>c. c \<noteq> p) (children s)\<rparr>)"

definition forked :: "nat \<Rightarrow> image run \<Rightarrow> shell \<Rightarrow> shell" where
  "forked p c s = log_call (CFork p c) (s\<lparr>children := children s @ [p]\<rparr>)"

section \<open>Signal handlers and preparation\<close>

text \<open>
  The handler of \<open>SIGCHLD\<close>, when the children in \<open>ended\<close> have ended: every round of its loop reaps
  one of them, until there is none.
\<close>

function sigchld_handler :: "nat set \<Rightarrow> shell \<Rightarrow> shell" where
  "sigchld_handler ended s =
     (case List.find (\<lambda>p. p \<in> ended) (children s) of
        None \<Rightarrow> s
      | Some p \<Rightarrow> sigchld_handler ended (s\<lparr>children := remove1 p (children s)\<rparr>))"
  by auto
termination
proof (relation "measure (\<lambda>(e, s). length (children s))")
  fix ended s p
  assume "List.find (\<lambda>p. p \<in> ended) (children s) = Some p"
  then have "p \<in> set (children s)" by (auto simp: find_Some_iff)
  then show "((ended, s\<lparr>children := remove1 p (children s)\<rparr>), ended, s)
      \<in> measure (\<lambda>(e, s). length (children s))"
    using length_pos_if_in_set by (fastforce simp: length_remove1)
qed simp

declare sigchld_handler.simps [simp del]

definition sigint_handler :: "shell \<Rightarrow> shell" where
  "sigint_handler s = s"

text \<open>\<open>prepare\<close>, with the outcomes of the two calls of \<open>sigaction\<close>.\<close>

definition prepare :: "bool \<Rightarrow> bool \<Rightarrow> shell \<Rightarrow> int \<times> shell" where
  "prepare ok1 ok2 s =
     (if \<not> ok1 then (1, s)
      else
        let s1 = s\<lparr>handlers := (handlers s)\<lparr>sigchld := Caught\<rparr>\<rparr>
        in if \<not> ok2 then (1, s1)
           else (0, s1\<lparr>handlers := (handlers s1)\<lparr>sigint := Caught\<rparr>\<rparr>))"

definition finalize :: "shell \<Rightarrow> int \<times> shell" where
  "finalize s = (0, s)"

section \<open>The argument list\<close>

text \<open>An array of strings, \<open>None\<close> for \<open>NULL\<close>.\<close>

type_synonym arglist = "string option list"

definition get_arg :: "arglist \<Rightarrow> nat \<Rightarrow> string option run" where
  "get_arg a i = (if i < length a then Ok (a ! i) else Fault OutOfBounds)"

definition set_arg :: "arglist \<Rightarrow> nat \<Rightarrow> string option \<Rightarrow> arglist run" where
  "set_arg a i w = (if i < length a then Ok (a[i := w]) else Fault OutOfBounds)"

text \<open>\<open>strcmp(w, t) == 0\<close>\<close>

definition is_word :: "string option \<Rightarrow> string \<Rightarrow> bool run" where
  "is_word w t = (case w of None \<Rightarrow> Fault NullDeref | Some u \<Rightarrow> Ok (u = t))"

record symbols =
  pipe_index :: int
  input_redirect_index :: int
  output_redirect_index :: int
  output_append_index :: int

definition no_symbols :: symbols where
  "no_symbols = \<lparr>pipe_index = -1, input_redirect_index = -1, output_redirect_index = -1,
     output_append_index = -1\<rparr>"

text \<open>The body of the loop over the words.\<close>

definition check_symbol :: "arglist \<Rightarrow> nat \<Rightarrow> symbols \<Rightarrow> symbols run" where
  "check_symbol a i y =
     bindR (get_arg a i) (\<lambda>w.
     bindR (is_word w ''|'') (\<lambda>b. if b then Ok (y\<lparr>pipe_index := int i\<rparr>) else
     bindR (is_word w ''<'') (\<lambda>b. if b then Ok (y\<lparr>input_redirect_index := int i\<rparr>) else
     bindR (is_word w ''>'') (\<lambda>b. if b then Ok (y\<lparr>output_redirect_index := int i\<rparr>) else
     bindR (is_word w ''>>'') (\<lambda>b. if b then Ok (y\<lparr>output_append_index := int i\<rparr>) else
     Ok y)))))"

text \<open>Background processes: the flag, the new count and the array.\<close>

definition check_background :: "nat \<Rightarrow> arglist \<Rightarrow> (bool \<times> nat \<times> arglist) run" where
  "check_background count a =
     (if count > 0
      then bindR (get_arg a (count - 1)) (\<lambda>w. bindR (is_word w ''&'') (\<lambda>b.
        if b then bindR (set_arg a (count - 1) None) (\<lambda>a'. Ok (True, count - 1, a'))
        else Ok (False, count, a)))
      else Ok (False, count, a))"

section \<open>The children\<close>

text \<open>
  \<open>if (execvp(a[j], &a[j]) == -1) exit(1)\<close>: the arguments end at the first \<open>NULL\<close>, a null program
  name is undefined.
\<close>

definition exec_or_exit :: "outcomes \<Rightarrow> arglist \<Rightarrow> nat \<Rightarrow> fd_table \<Rightarrow> signals \<Rightarrow> image run" where
  "exec_or_exit os a j t sg =
     bindR (get_arg a j) (\<lambda>f. case f of
       None \<Rightarrow> Fault NullDeref
     | Some prog \<Rightarrow>
         if None \<notin> set (drop j a) then Fault OutOfBounds
         else if can_exec os prog
         then Ok \<lparr>program = prog, argv = map the (takeWhile (\<lambda>w. w \<noteq> None) (drop j a)), open_fds = t,
                  on_signal = \<lparr>sigint = at_exec (sigint sg), sigchld = at_exec (sigchld sg)\<rparr>\<rparr>
         else Exit 1)"

text \<open>The two children of a pipe with the ends \<open>r\<close> and \<open>w\<close>.\<close>

definition pipe_writer :: "outcomes \<Rightarrow> nat \<Rightarrow> nat \<Rightarrow> nat \<Rightarrow> arglist \<Rightarrow> shell \<Rightarrow> image run" where
  "pipe_writer os r w i a s =
     (let t1 = sys_close r (fds s); t2 = sys_dup2 w 1 t1; t3 = sys_close w t2
      in bindR (set_arg a i None) (\<lambda>a'. exec_or_exit os a' 0 t3 (handlers s)))"

definition pipe_reader :: "outcomes \<Rightarrow> nat \<Rightarrow> nat \<Rightarrow> nat \<Rightarrow> arglist \<Rightarrow> shell \<Rightarrow> image run" where
  "pipe_reader os r w i a s =
     (let t1 = sys_close w (fds s); t2 = sys_dup2 r 0 t1; t3 = sys_close r t2
      in exec_or_exit os a (i + 1) t3 (handlers s))"

text \<open>
  The child of a redirection at index \<open>i\<close> of the descriptor \<open>std\<close>; \<open>open\<close> on \<open>NULL\<close> fails.
\<close>

definition redirected ::
    "outcomes \<Rightarrow> open_flags \<Rightarrow> nat \<Rightarrow> nat \<Rightarrow> arglist \<Rightarrow> shell \<Rightarrow> image run" where
  "redirected os fl std i a s =
     bindR (get_arg a (i + 1)) (\<lambda>f. case f of
       None \<Rightarrow> Exit 1
     | Some name \<Rightarrow>
         if \<not> can_open os name fl then Exit 1
         else
           let (fd, t1) = new_fd (Opened name fl) (fds s);
               t2 = sys_dup2 fd std t1; t3 = sys_close fd t2
           in bindR (set_arg a i None) (\<lambda>a'. exec_or_exit os a' 0 t3 (handlers s)))"

section \<open>process_arglist\<close>

definition run_pipe :: "outcomes \<Rightarrow> nat \<Rightarrow> arglist \<Rightarrow> shell \<Rightarrow> int \<times> shell" where
  "run_pipe os i a s =
     (if \<not> pipe_ok os then (0, s)
      else
        let (r, t1) = new_fd (PipeRead (pipes s)) (fds s);
            (w, t2) = new_fd (PipeWrite (pipes s)) t1;
            s1 = log_call (CPipe r w) (s\<lparr>fds := t2, pipes := pipes s + 1\<rparr>)
        in case fork1 os of
          None \<Rightarrow> (0, s1)
        | Some pid1 \<Rightarrow>
            let s2 = forked pid1 (pipe_writer os r w i a s1) s1
            in case fork2 os of
              None \<Rightarrow> (0, s2)
            | Some pid2 \<Rightarrow>
                let s3 = forked pid2 (pipe_reader os r w i a s2) s2
                in (1, wait_for pid2 (wait_for pid1 (close_fd w (close_fd r s3)))))"

definition run_redirected ::
    "outcomes \<Rightarrow> open_flags \<Rightarrow> nat \<Rightarrow> nat \<Rightarrow> arglist \<Rightarrow> shell \<Rightarrow> int \<times> shell" where
  "run_redirected os fl std i a s =
     (case fork1 os of
        None \<Rightarrow> (0, s)
      | Some pid \<Rightarrow> (1, wait_for pid (forked pid (redirected os fl std i a s) s)))"

definition run_input :: "outcomes \<Rightarrow> nat \<Rightarrow> arglist \<Rightarrow> shell \<Rightarrow> int \<times> shell" where
  "run_input os = run_redirected os RdOnly 0"

definition run_output :: "outcomes \<Rightarrow> nat \<Rightarrow> arglist \<Rightarrow> shell \<Rightarrow> int \<times> shell" where
  "run_output os = run_redirected os WrTrunc 1"

definition run_append :: "outcomes \<Rightarrow> nat \<Rightarrow> arglist \<Rightarrow> shell \<Rightarrow> int \<times> shell" where
  "run_append os = run_redirected os WrAppend 1"

definition run_plain :: "outcomes \<Rightarrow> bool \<Rightarrow> arglist \<Rightarrow> shell \<Rightarrow> int \<times> shell" where
  "run_plain os bg a s =
     (case fork1 os of
        None \<Rightarrow> (0, s)
      | Some pid \<Rightarrow>
          let s1 = forked pid (exec_or_exit os a 0 (fds s) (handlers s)) s
          in (1, if \<not> bg then wait_for pid s1 else log_call (CBackground pid) s1))"

definition process_arglist :: "outcomes \<Rightarrow> nat \<Rightarrow> arglist \<Rightarrow> shell \<Rightarrow> (int \<times> shell) run" where
  "process_arglist os count a s =
     bindR (check_background count a) (\<lambda>(bg, n, a').
     bindR (for_upto n (check_symbol a') no_symbols) (\<lambda>y.
     Ok (if pipe_index y \<noteq> -1 then run_pipe os (nat (pipe_index y)) a' s
         else if input_redirect_index y \<noteq> -1 then run_input os (nat (input_redirect_index y)) a' s
         else if output_redirect_index y \<noteq> -1 then run_output os (nat (output_redirect_index y)) a' s
         else if output_append_index y \<noteq> -1 then run_append os (nat (output_append_index y)) a' s
         else run_plain os bg a' s)))"

end
