(* ===== verification/My_Shell_Spec.thy ===== *)
theory My_Shell_Spec
  imports My_Shell
begin

text \<open>
  What \<open>process_arglist\<close> of \<open>hw2/myshell.c\<close> does for a command line: which programs it starts, with
  which arguments and open files, which of them it waits for, and what it leaves behind. The
  argument list of the words \<open>ws\<close> has \<open>length ws + 1\<close> entries, the last of them \<open>NULL\<close>.
\<close>

definition args_of :: "string list \<Rightarrow> arglist" where
  "args_of ws = map Some ws @ [None]"

section \<open>Tables of open files\<close>

lemma fd_get_set [simp]: "fd_get (fd_set n d t) m = (if m = n then d else fd_get t m)"
  by (auto simp: fd_get_def fd_set_def nth_append)

lemma fd_get_lowest [simp]: "fd_get t (lowest_free t) = None"
proof (cases "lowest_free t < length t")
  case True
  then show ?thesis
    using nth_length_takeWhile [of "\<lambda>d. d \<noteq> None" t] by (simp add: fd_get_def lowest_free_def)
next
  case False
  then show ?thesis by (simp add: fd_get_def)
qed

lemma fd_get_close [simp]: "fd_get (sys_close n t) m = (if m = n then None else fd_get t m)"
  by (auto simp: sys_close_def)

lemma fd_get_dup2 [simp]:
  "fd_get (sys_dup2 old new t) m =
     (if m = new \<and> fd_get t old \<noteq> None then fd_get t old else fd_get t m)"
  by (auto simp: sys_dup2_def)

lemma fd_get_new: "new_fd d t = (n, t') \<Longrightarrow> fd_get t n = None \<and> (\<forall>m. fd_get t' m = (if m = n then Some d else fd_get t m))"
  by (auto simp: new_fd_def)

section \<open>The parsed command line\<close>

definition last_index :: "string \<Rightarrow> string list \<Rightarrow> int" where
  "last_index w ws = fold (\<lambda>(i, u) r. if u = w then int i else r) (enumerate 0 ws) (-1)"

lemma last_index_Nil [simp]: "last_index w [] = -1"
  by (simp add: last_index_def)

lemma last_index_snoc [simp]:
  "last_index w (ws @ [u]) = (if u = w then int (length ws) else last_index w ws)"
  by (simp add: last_index_def enumerate_append_eq)

lemma last_index_absent [simp]: "last_index w ws = -1 \<longleftrightarrow> w \<notin> set ws"
  by (induction ws rule: rev_induct) auto

lemma last_index_append: "w \<notin> set ys \<Longrightarrow> last_index w (xs @ w # ys) = int (length xs)"
proof (induction ys rule: rev_induct)
  case (snoc y ys)
  then show ?case using last_index_snoc [of w "xs @ w # ys" y] by auto
qed simp

lemma last_index_bound: "last_index w ws < int (length ws) \<and> -1 \<le> last_index w ws"
  by (induction ws rule: rev_induct) auto

definition symbols_of :: "string list \<Rightarrow> symbols" where
  "symbols_of ws = \<lparr>pipe_index = last_index ''|'' ws, input_redirect_index = last_index ''<'' ws,
     output_redirect_index = last_index ''>'' ws, output_append_index = last_index ''>>'' ws\<rparr>"

lemma check_symbols:
  "n \<le> length ws \<Longrightarrow>
   for_upto n (check_symbol (map Some ws @ zs)) no_symbols = Ok (symbols_of (take n ws))"
proof (induction n)
  case 0
  then show ?case by (simp add: symbols_of_def no_symbols_def)
next
  case (Suc n)
  then have "take (Suc n) ws = take n ws @ [ws ! n]" "length (take n ws) = n"
    by (simp_all add: take_Suc_conv_app_nth)
  then show ?case using Suc
    by (simp add: check_symbol_def get_arg_def is_word_def nth_append symbols_of_def)
qed

text \<open>The words without a final \<open>&\<close>, and what the array then holds.\<close>

definition command :: "string list \<Rightarrow> string list" where
  "command ws = (if last ws = ''&'' then butlast ws else ws)"

definition command_args :: "string list \<Rightarrow> arglist" where
  "command_args ws = map Some (command ws) @ (if last ws = ''&'' then [None, None] else [None])"

lemma check_background_eq:
  assumes "ws \<noteq> []"
  shows "check_background (length ws) (args_of ws) =
    Ok (last ws = ''&'', length (command ws), command_args ws)"
proof -
  obtain vs w where ws: "ws = vs @ [w]" using assms by (cases ws rule: rev_cases) auto
  show ?thesis
    by (auto simp: ws check_background_def get_arg_def set_arg_def is_word_def args_of_def
        command_def command_args_def nth_append list_update_append)
qed

definition dispatch :: "outcomes \<Rightarrow> string list \<Rightarrow> shell \<Rightarrow> int \<times> shell" where
  "dispatch os ws s =
     (let vs = command ws; a = command_args ws in
      if ''|'' \<in> set vs then run_pipe os (nat (last_index ''|'' vs)) a s
      else if ''<'' \<in> set vs then run_input os (nat (last_index ''<'' vs)) a s
      else if ''>'' \<in> set vs then run_output os (nat (last_index ''>'' vs)) a s
      else if ''>>'' \<in> set vs then run_append os (nat (last_index ''>>'' vs)) a s
      else run_plain os (last ws = ''&'') a s)"

lemma process_arglist_eq:
  assumes "ws \<noteq> []"
  shows "process_arglist os (length ws) (args_of ws) s = Ok (dispatch os ws s)"
proof -
  have "for_upto (length (command ws)) (check_symbol (command_args ws)) no_symbols =
      Ok (symbols_of (command ws))"
    using check_symbols [of "length (command ws)" "command ws"] by (simp add: command_args_def)
  then show ?thesis
    by (simp add: process_arglist_def check_background_eq [OF assms] dispatch_def symbols_of_def Let_def)
qed

section \<open>What the children run\<close>

definition started :: "string list \<Rightarrow> fd_table \<Rightarrow> signals \<Rightarrow> image" where
  "started xs t sg = \<lparr>program = hd xs, argv = xs, open_fds = t,
     on_signal = \<lparr>sigint = at_exec (sigint sg), sigchld = at_exec (sigchld sg)\<rparr>\<rparr>"

lemma takeWhile_args: "takeWhile (\<lambda>w. w \<noteq> None) (map Some xs @ None # zs) = map Some xs"
  by (induction xs) auto

lemma exec_or_exit_eq:
  assumes "xs \<noteq> []" and "j = length us"
  shows "exec_or_exit os (us @ map Some xs @ None # zs) j t sg =
    (if can_exec os (hd xs) then Ok (started xs t sg) else Exit 1)"
proof -
  obtain x xs' where xs: "xs = x # xs'" using assms(1) by (cases xs) auto
  have "takeWhile (\<lambda>w. w \<noteq> None) (drop j (us @ map Some xs @ None # zs)) = map Some xs"
    using takeWhile_args [of xs zs] by (simp add: assms(2))
  then show ?thesis
    by (simp add: exec_or_exit_def get_arg_def started_def assms(2) xs nth_append comp_def)
qed

lemmas exec_first = exec_or_exit_eq [where us = "[]" and j = 0, simplified]

lemma command_simps:
  "last ws \<noteq> ''&'' \<Longrightarrow> command ws = ws" "last ws \<noteq> ''&'' \<Longrightarrow> command_args ws = args_of ws"
  by (simp_all add: command_def command_args_def args_of_def)

text \<open>What a call of \<open>process_arglist\<close> adds to the calls of the shell.\<close>

lemma log_fields [simp]:
  "fds (log_call c s) = fds s" "handlers (log_call c s) = handlers s" "pipes (log_call c s) = pipes s"
  "children (log_call c s) = children s" "calls (log_call c s) = calls s @ [c]"
  by (simp_all add: log_call_def)

lemma forked_fields [simp]:
  "fds (forked p c s) = fds s" "handlers (forked p c s) = handlers s" "pipes (forked p c s) = pipes s"
  "children (forked p c s) = children s @ [p]" "calls (forked p c s) = calls s @ [CFork p c]"
  by (simp_all add: forked_def)

lemma wait_fields [simp]:
  "fds (wait_for p s) = fds s" "handlers (wait_for p s) = handlers s" "pipes (wait_for p s) = pipes s"
  "children (wait_for p s) = filter (\<lambda>c. c \<noteq> p) (children s)" "calls (wait_for p s) = calls s @ [CWait p]"
  by (simp_all add: wait_for_def)

lemma close_fields [simp]:
  "fds (close_fd n s) = sys_close n (fds s)" "handlers (close_fd n s) = handlers s"
  "pipes (close_fd n s) = pipes s" "children (close_fd n s) = children s"
  "calls (close_fd n s) = calls s @ [CClose n]"
  by (simp_all add: close_fd_def)

lemma filter_fresh: "p \<notin> set cs \<Longrightarrow> filter (\<lambda>c. c \<noteq> p) cs = cs"
  by (induction cs) auto

text \<open>
  C8: A pipeline \<open>xs | ys\<close>: the first program gets the words before the bar and writes to the pipe,
  the second gets the words behind it and reads from the pipe, all their other descriptors are
  those of the shell, and no end of the pipe stays open besides these two. The shell closes both
  ends before it waits, waits for both programs, keeps its own files, and goes on.
\<close>

theorem pipeline:
  assumes "ws = xs @ ''|'' # ys" and "xs \<noteq> []" and "ys \<noteq> []" and "''|'' \<notin> set ys" and "last ys \<noteq> ''&''"
    and "pipe_ok os" and "fork1 os = Some p" and "fork2 os = Some q" and "p \<noteq> q"
    and "p \<notin> set (children s)" and "q \<notin> set (children s)"
    and "can_exec os (hd xs)" and "can_exec os (hd ys)"
    and "fd_get (fds s) 0 \<noteq> None" and "fd_get (fds s) 1 \<noteq> None"
  shows "\<exists>s' r w t u. process_arglist os (length ws) (args_of ws) s = Ok (1, s') \<and>
    calls s' = calls s @ [CPipe r w, CFork p (Ok (started xs t (handlers s))),
      CFork q (Ok (started ys u (handlers s))), CClose r, CClose w, CWait p, CWait q] \<and>
    (\<forall>n. fd_get t n = (if n = 1 then Some (PipeWrite (pipes s)) else fd_get (fds s) n)) \<and>
    (\<forall>n. fd_get u n = (if n = 0 then Some (PipeRead (pipes s)) else fd_get (fds s) n)) \<and>
    (\<forall>n. fd_get (fds s') n = fd_get (fds s) n) \<and> children s' = children s"
proof -
  obtain r t1 where r: "new_fd (PipeRead (pipes s)) (fds s) = (r, t1)" by fastforce
  obtain w t2 where w: "new_fd (PipeWrite (pipes s)) t1 = (w, t2)" by fastforce
  have rw: "fd_get (fds s) r = None" "fd_get (fds s) w = None" "r \<noteq> w"
      "\<And>n. fd_get t2 n = (if n = w then Some (PipeWrite (pipes s))
         else if n = r then Some (PipeRead (pipes s)) else fd_get (fds s) n)"
    using fd_get_new [OF r] fd_get_new [OF w] by (auto split: if_splits)
  have std: "r \<noteq> 0" "r \<noteq> 1" "w \<noteq> 0" "w \<noteq> 1" using rw(1,2) assms(14,15) by metis+
  define t where "t = sys_close w (sys_dup2 w 1 (sys_close r t2))"
  define u where "u = sys_close r (sys_dup2 r 0 (sys_close w t2))"
  have t: "fd_get t n = (if n = 1 then Some (PipeWrite (pipes s)) else fd_get (fds s) n)" for n
    using rw std by (simp add: t_def)
  have u: "fd_get u n = (if n = 0 then Some (PipeRead (pipes s)) else fd_get (fds s) n)" for n
    using rw std by (simp add: u_def)
  have ws: "ws \<noteq> []" "last ws \<noteq> ''&''" "last_index ''|'' ws = int (length xs)"
    using assms(1,3-5) by (simp_all add: last_index_append)
  have a: "args_of ws = map Some xs @ Some ''|'' # map Some ys @ [None]"
    by (simp add: args_of_def assms(1))
  define s1 where "s1 = log_call (CPipe r w) (s\<lparr>fds := t2, pipes := pipes s + 1\<rparr>)"
  have s1: "fds s1 = t2" "handlers s1 = handlers s" "children s1 = children s"
      "calls s1 = calls s @ [CPipe r w]"
    by (simp_all add: s1_def)
  have c1: "pipe_writer os r w (length xs) (args_of ws) s1 = Ok (started xs t (handlers s))"
    using assms(2,12) s1
    by (simp add: pipe_writer_def a set_arg_def list_update_append exec_first t_def Let_def)
  have c2: "pipe_reader os r w (length xs) (args_of ws) (forked p c s1) =
      Ok (started ys u (handlers s))" for c
    using exec_or_exit_eq [OF assms(3), of "length xs + 1" "map Some xs @ [Some ''|'']" os "[]"]
      assms(13) s1
    by (simp add: pipe_reader_def a u_def Let_def)
  define s' where "s' = wait_for q (wait_for p (close_fd w (close_fd r (forked q (Ok (started ys u (handlers s)))
    (forked p (Ok (started xs t (handlers s))) s1)))))"
  have "dispatch os ws s = (1, s')"
    using ws assms(1,6-8) r w c1 c2
    by (simp add: dispatch_def command_simps run_pipe_def s1_def s'_def Let_def)
  then have "process_arglist os (length ws) (args_of ws) s = Ok (1, s')"
    using process_arglist_eq [OF ws(1)] by simp
  moreover have "fd_get (fds s') n = fd_get (fds s) n" for n
    using rw by (simp add: s'_def s1)
  moreover have "children s' = children s"
    using assms(9-11) by (simp add: s'_def s1 filter_fresh)
  moreover have "calls s' = calls s @ [CPipe r w, CFork p (Ok (started xs t (handlers s))),
      CFork q (Ok (started ys u (handlers s))), CClose r, CClose w, CWait p, CWait q]"
    by (simp add: s'_def s1)
  ultimately show ?thesis using t u by blast
qed

section \<open>Redirections\<close>

definition shell_symbols :: "string set" where
  "shell_symbols = {''|'', ''<'', ''>'', ''>>''}"

lemma redirected_eq:
  assumes "xs \<noteq> []" and "fd_get (fds s) std \<noteq> None"
  shows "\<exists>t. redirected os fl std (length xs) (args_of (xs @ [op, f])) s =
      (if can_open os f fl \<and> can_exec os (hd xs) then Ok (started xs t (handlers s)) else Exit 1) \<and>
    (\<forall>n. fd_get t n = (if n = std then Some (Opened f fl) else fd_get (fds s) n))"
proof -
  obtain fd t1 where fd: "new_fd (Opened f fl) (fds s) = (fd, t1)" by fastforce
  note new = fd_get_new [OF fd]
  define t where "t = sys_close fd (sys_dup2 fd std t1)"
  have "fd \<noteq> std" using new assms(2) by auto
  then have "fd_get t n = (if n = std then Some (Opened f fl) else fd_get (fds s) n)" for n
    using new by (auto simp: t_def)
  moreover have "redirected os fl std (length xs) (args_of (xs @ [op, f])) s =
      (if can_open os f fl \<and> can_exec os (hd xs) then Ok (started xs t (handlers s)) else Exit 1)"
    using fd assms(1) exec_first [OF assms(1), of os "[Some f, None]" t "handlers s"]
    by (simp add: redirected_def args_of_def get_arg_def set_arg_def nth_append list_update_append
        t_def Let_def)
  ultimately show ?thesis by blast
qed

text \<open>
  C21: A redirection, \<open>xs < f\<close>, \<open>xs > f\<close> or \<open>xs >> f\<close>: one program is started with the words before
  the symbol; its standard input, or output, is the file \<open>f\<close>, opened for reading, for truncation
  or for appending, and its other descriptors are those of the shell. If the file cannot be opened
  or the program cannot be started, the child exits with status 1. In each case the shell waits for
  the child, keeps its own files, and goes on.
\<close>

theorem redirection:
  assumes "(op, fl, std) \<in> {(''<'', RdOnly, 0), (''>'', WrTrunc, 1), (''>>'', WrAppend, 1)}"
    and "ws = xs @ [op, f]" and "xs \<noteq> []" and "set xs \<inter> shell_symbols = {}"
    and "f \<notin> insert ''&'' shell_symbols"
    and "fork1 os = Some p" and "p \<notin> set (children s)" and "fd_get (fds s) std \<noteq> None"
  shows "\<exists>s' t. process_arglist os (length ws) (args_of ws) s = Ok (1, s') \<and>
    calls s' = calls s @ [CFork p (if can_open os f fl \<and> can_exec os (hd xs)
       then Ok (started xs t (handlers s)) else Exit 1), CWait p] \<and>
    (\<forall>n. fd_get t n = (if n = std then Some (Opened f fl) else fd_get (fds s) n)) \<and>
    fds s' = fds s \<and> children s' = children s"
proof -
  obtain t where t: "redirected os fl std (length xs) (args_of ws) s =
      (if can_open os f fl \<and> can_exec os (hd xs) then Ok (started xs t (handlers s)) else Exit 1)"
      "\<forall>n. fd_get t n = (if n = std then Some (Opened f fl) else fd_get (fds s) n)"
    using redirected_eq [OF assms(3,8)] assms(2) by blast
  have ws: "ws \<noteq> []" "last ws \<noteq> ''&''" using assms(2,5) by auto
  have idx: "last_index op ws = int (length xs)"
    using last_index_append [of op "[f]" xs] assms(1,2,5) by (auto simp: shell_symbols_def)
  have dis: "dispatch os ws s = run_redirected os fl std (length xs) (args_of ws) s"
    using assms(1,2,4,5) ws idx
    by (auto simp: dispatch_def command_simps run_input_def run_output_def run_append_def
        shell_symbols_def Let_def)
  show ?thesis
    using process_arglist_eq [OF ws(1), of os s] t assms(6,7)
    by (intro exI [of _ "snd (dispatch os ws s)"] exI [of _ t])
      (simp add: dis run_redirected_def filter_fresh)
qed

section \<open>The shell itself\<close>

text \<open>
  What a child can come to: it runs a program, it exits with status 1, or it is killed because it
  passed a null program name to \<open>execvp\<close>; it stays within the argument list.
\<close>

definition in_bounds :: "image run \<Rightarrow> bool" where
  "in_bounds c \<longleftrightarrow> (\<exists>im. c = Ok im) \<or> c = Exit 1 \<or> c = Fault NullDeref"

lemma exec_in_bounds:
  assumes "j < length a" and "last a = None"
  shows "in_bounds (exec_or_exit os a j t sg)"
proof -
  have "last (drop j a) \<in> set (drop j a)" using assms(1) by (intro last_in_set) simp
  then have "None \<in> set (drop j a)" using assms by (simp add: last_drop)
  then show ?thesis
    using assms(1) by (auto simp: exec_or_exit_def get_arg_def in_bounds_def split: option.splits)
qed

lemma last_update: "i < length a \<Longrightarrow> last a = None \<Longrightarrow> last (a[i := None]) = None"
  by (cases a rule: rev_cases) (auto simp: list_update_append split: nat.split)

lemma children_in_bounds:
  assumes "i + 1 < length a" and "last a = None"
  shows "in_bounds (pipe_writer os r w i a s)" and "in_bounds (pipe_reader os r w i a s)"
    and "in_bounds (redirected os fl std i a s)"
proof -
  have a: "set_arg a i None = Ok (a[i := None])" "0 < length a" using assms(1) by (auto simp: set_arg_def)
  have exec: "in_bounds (exec_or_exit os (a[i := None]) 0 t sg)" for t sg
    using assms a(2) by (intro exec_in_bounds last_update) auto
  show "in_bounds (pipe_writer os r w i a s)" using a exec by (simp add: pipe_writer_def Let_def)
  show "in_bounds (pipe_reader os r w i a s)"
    using exec_in_bounds [OF assms] by (simp add: pipe_reader_def)
  show "in_bounds (redirected os fl std i a s)"
    using assms(1) a exec
    by (auto simp: redirected_def get_arg_def in_bounds_def [of "Exit 1"] Let_def split: option.splits prod.splits)
qed

lemma command_index:
  assumes "x \<in> set (command ws)"
  shows "nat (last_index x (command ws)) + 1 < length (command_args ws)"
proof -
  have "last_index x (command ws) < int (length (command ws))" using last_index_bound by blast
  moreover have "last_index x (command ws) \<noteq> -1" using assms by simp
  then have "0 \<le> last_index x (command ws)" using last_index_bound [of x "command ws"] by linarith
  ultimately show ?thesis by (auto simp: command_args_def)
qed

lemma command_args_last: "last (command_args ws) = None" "0 < length (command_args ws)"
  by (simp_all add: command_args_def)

lemma dispatch_result:
  assumes "ws \<noteq> []"
  shows "\<exists>r s' cs. dispatch os ws s = (r, s') \<and>
    r = (if fork1 os \<noteq> None \<and> (''|'' \<in> set ws \<longrightarrow> pipe_ok os \<and> fork2 os \<noteq> None) then 1 else 0) \<and>
    handlers s' = handlers s \<and> (r = 1 \<longrightarrow> (\<forall>n. fd_get (fds s') n = fd_get (fds s) n)) \<and>
    (\<forall>n. fd_get (fds s) n \<noteq> None \<longrightarrow> fd_get (fds s') n \<noteq> None) \<and>
    calls s' = calls s @ cs \<and> (\<forall>p c. CFork p c \<in> set cs \<longrightarrow> in_bounds c)"
proof -
  obtain vs v where ws: "ws = vs @ [v]" using assms by (cases ws rule: rev_cases) auto
  have bar: "''|'' \<in> set (command ws) \<longleftrightarrow> ''|'' \<in> set ws"
    by (auto simp: command_def ws)
  obtain r t1 where r: "new_fd (PipeRead (pipes s)) (fds s) = (r, t1)" by fastforce
  obtain w t2 where w: "new_fd (PipeWrite (pipes s)) t1 = (w, t2)" by fastforce
  have restored: "fd_get (sys_close w (sys_close r t2)) n = fd_get (fds s) n" for n
    using fd_get_new [OF r] fd_get_new [OF w] by (auto split: if_splits)
  have more: "fd_get (fds s) n \<noteq> None \<Longrightarrow> fd_get t2 n \<noteq> None" for n
    using fd_get_new [OF r] fd_get_new [OF w] by auto
  have ok: "in_bounds (exec_or_exit os (command_args ws) 0 t sg)" for t sg
    by (intro exec_in_bounds command_args_last)
  note ok = ok children_in_bounds [OF command_index command_args_last(1)]
  show ?thesis
    using restored more r w ok
    by (cases "fork1 os"; cases "fork2 os"; cases "''|'' \<in> set ws")
      (auto simp: dispatch_def bar run_pipe_def run_input_def run_output_def run_append_def
        run_redirected_def run_plain_def Let_def)
qed

text \<open>
  C15: \<open>process_arglist\<close> never ends the shell and does nothing undefined in it, whatever the words
  are and whatever becomes of the children: bad commands, missing files, misplaced symbols. It
  returns 1, or 0 exactly if a \<open>pipe\<close> or a \<open>fork\<close> of its own failed, it leaves the signal
  dispositions alone, and after a return with 1 the shell has the open files it had before. No
  child leaves the bounds of the argument list: at worst it passes a null program name.
\<close>

theorem shell_survives:
  assumes "ws \<noteq> []"
  shows "\<exists>r s' cs. process_arglist os (length ws) (args_of ws) s = Ok (r, s') \<and>
    r = (if fork1 os \<noteq> None \<and> (''|'' \<in> set ws \<longrightarrow> pipe_ok os \<and> fork2 os \<noteq> None) then 1 else 0) \<and>
    handlers s' = handlers s \<and> (r = 1 \<longrightarrow> (\<forall>n. fd_get (fds s') n = fd_get (fds s) n)) \<and>
    calls s' = calls s @ cs \<and> (\<forall>p c. CFork p c \<in> set cs \<longrightarrow> in_bounds c)"
  using dispatch_result [OF assms, of os s] process_arglist_eq [OF assms, of os s] by auto

text \<open>
  C20: When \<open>process_arglist\<close> returns 1, the children it started have ended and are gone, unless the
  line is a plain command with a final \<open>&\<close>, whose child is added to those still running. With a
  pipe or a redirection a final \<open>&\<close> has no effect.
\<close>

theorem waits_for_foreground:
  assumes "ws \<noteq> []" and "fork1 os = Some p" and "fork2 os = Some q"
    and "p \<notin> set (children s)" and "q \<notin> set (children s)" and "p \<noteq> q"
    and "process_arglist os (length ws) (args_of ws) s = Ok (1, s')"
  shows "children s' =
    (if last ws = ''&'' \<and> set ws \<inter> shell_symbols = {} then children s @ [p] else children s)"
proof -
  have s': "dispatch os ws s = (1, s')" using assms(7) process_arglist_eq [OF assms(1)] by simp
  obtain vs v where ws: "ws = vs @ [v]" using assms(1) by (cases ws rule: rev_cases) auto
  have at: "x \<in> set (command ws) \<longleftrightarrow> x \<in> set ws" if "x \<in> shell_symbols" for x
    using that by (auto simp: command_def ws shell_symbols_def)
  show ?thesis
    using s' assms(2-6)
    by (auto simp: dispatch_def at shell_symbols_def run_pipe_def run_input_def run_output_def
        run_append_def run_redirected_def run_plain_def Let_def filter_fresh
        split: if_splits prod.splits)
qed

text \<open>
  The handler of \<open>SIGCHLD\<close> leaves no zombie: it reaps every child that has ended, also when one
  signal stands for several of them, and no other.
\<close>

theorem no_zombies:
  "sigchld_handler ended s = s\<lparr>children := filter (\<lambda>p. p \<notin> ended) (children s)\<rparr>"
proof (induction ended s rule: sigchld_handler.induct)
  case (1 ended s)
  show ?case
  proof (cases "List.find (\<lambda>p. p \<in> ended) (children s)")
    case None
    then have "filter (\<lambda>p. p \<notin> ended) (children s) = children s"
      by (auto simp: find_None_iff intro: filter_True)
    then show ?thesis using None by (subst sigchld_handler.simps) simp
  next
    case (Some p)
    then have p: "p \<in> ended" by (auto simp: find_Some_iff)
    have "filter (\<lambda>p. p \<notin> ended) (remove1 p cs) = filter (\<lambda>p. p \<notin> ended) cs" for cs
      using p by (induction cs) auto
    then show ?thesis using 1 [OF Some] Some by (subst sigchld_handler.simps) simp
  qed
qed

text \<open>
  What every form of a command line starts: a program whose \<open>SIGINT\<close> action is that of the shell, set
  back by \<open>execvp\<close>. \<open>starts_with d s s'\<close>: between \<open>s\<close> and \<open>s'\<close> the shell has kept its handlers, and
  every program started has \<open>d\<close> as its action.
\<close>

definition starts_with :: "disposition \<Rightarrow> shell \<Rightarrow> shell \<Rightarrow> bool" where
  "starts_with d s s' \<longleftrightarrow> handlers s' = handlers s \<and>
     (\<exists>new. calls s' = calls s @ new \<and> (\<forall>q im. CFork q (Ok im) \<in> set new \<longrightarrow> sigint (on_signal im) = d))"

lemma exec_sigint: "exec_or_exit os a j t sg = Ok im \<Longrightarrow> sigint (on_signal im) = at_exec (sigint sg)"
  unfolding exec_or_exit_def bindR_Ok_iff
  by (elim exE conjE) (simp split: option.split_asm if_split_asm, drule sym, simp)

lemma child_sigint:
  "pipe_writer os r w i a s = Ok im \<Longrightarrow> sigint (on_signal im) = at_exec (sigint (handlers s))"
  "pipe_reader os r w i a s = Ok im \<Longrightarrow> sigint (on_signal im) = at_exec (sigint (handlers s))"
  "redirected os fl std i a s = Ok im \<Longrightarrow> sigint (on_signal im) = at_exec (sigint (handlers s))"
proof -
  show "pipe_writer os r w i a s = Ok im \<Longrightarrow> sigint (on_signal im) = at_exec (sigint (handlers s))"
    unfolding pipe_writer_def Let_def bindR_Ok_iff by (elim exE conjE) (rule exec_sigint)
  show "pipe_reader os r w i a s = Ok im \<Longrightarrow> sigint (on_signal im) = at_exec (sigint (handlers s))"
    unfolding pipe_reader_def Let_def by (rule exec_sigint)
  show "redirected os fl std i a s = Ok im \<Longrightarrow> sigint (on_signal im) = at_exec (sigint (handlers s))"
    unfolding redirected_def Let_def new_fd_def bindR_Ok_iff prod.case
    by (elim exE conjE)
      (simp split: option.split_asm if_split_asm, elim exE conjE, rule exec_sigint)
qed

lemma starts_with_calls:
  "starts_with d s s"
  "starts_with d s s' \<Longrightarrow> starts_with d s (s'\<lparr>fds := t, pipes := k\<rparr>)"
  "starts_with d s s' \<Longrightarrow> starts_with d s (log_call (CPipe r w) s')"
  "starts_with d s s' \<Longrightarrow> starts_with d s (log_call (CBackground p) s')"
  "starts_with d s s' \<Longrightarrow> starts_with d s (close_fd n s')"
  "starts_with d s s' \<Longrightarrow> starts_with d s (wait_for p s')"
  "starts_with d s s' \<Longrightarrow> (\<And>im. c = Ok im \<Longrightarrow> sigint (on_signal im) = d) \<Longrightarrow> starts_with d s (forked p c s')"
  by (auto simp: starts_with_def log_call_def close_fd_def wait_for_def forked_def)

lemma starts_with_handlers: "starts_with d s s' \<Longrightarrow> handlers s' = handlers s"
  by (simp add: starts_with_def)

lemma run_pipe_starts: "starts_with (at_exec (sigint (handlers s))) s (snd (run_pipe os i a s))"
proof -
  obtain r t1 where r: "new_fd (PipeRead (pipes s)) (fds s) = (r, t1)" by fastforce
  obtain w t2 where w: "new_fd (PipeWrite (pipes s)) t1 = (w, t2)" by fastforce
  let ?d = "at_exec (sigint (handlers s))"
  let ?s1 = "log_call (CPipe r w) (s\<lparr>fds := t2, pipes := Suc (pipes s)\<rparr>)"
  have s1: "starts_with ?d s ?s1" by (intro starts_with_calls)
  have s2: "starts_with ?d s (forked p (pipe_writer os r w i a ?s1) ?s1)" for p
    using child_sigint(1) starts_with_handlers [OF s1] by (intro starts_with_calls(7) s1) metis
  have s3: "starts_with ?d s (forked q (pipe_reader os r w i a s2) s2)"
    if "s2 = forked p (pipe_writer os r w i a ?s1) ?s1" for p q s2
  proof (rule starts_with_calls(7))
    show "starts_with ?d s s2" unfolding that by (rule s2)
    then show "sigint (on_signal im) = ?d" if "pipe_reader os r w i a s2 = Ok im" for im
      using child_sigint(2) [OF that] starts_with_handlers by metis
  qed
  show ?thesis
    unfolding run_pipe_def Let_def r w prod.case
    by (auto split: option.split intro!: starts_with_calls(1,5,6) s1 s2 s3 [OF refl])
qed

lemma run_redirected_starts:
  "starts_with (at_exec (sigint (handlers s))) s (snd (run_redirected os fl std i a s))"
  by (auto simp: run_redirected_def split: option.split
      intro!: starts_with_calls(1,6) starts_with_calls(7) [OF starts_with_calls(1)] child_sigint(3))

lemma run_plain_starts: "starts_with (at_exec (sigint (handlers s))) s (snd (run_plain os bg a s))"
  by (auto simp: run_plain_def Let_def split: option.split
      intro!: starts_with_calls(1,4,6) starts_with_calls(7) [OF starts_with_calls(1)] exec_sigint)

lemma line_starts_with:
  assumes "process_arglist os count a s = Ok (x, s')"
  shows "starts_with (at_exec (sigint (handlers s))) s s'"
proof -
  define line where "line bg a' y = (if pipe_index y \<noteq> -1 then run_pipe os (nat (pipe_index y)) a' s
         else if input_redirect_index y \<noteq> -1 then run_input os (nat (input_redirect_index y)) a' s
         else if output_redirect_index y \<noteq> -1 then run_output os (nat (output_redirect_index y)) a' s
         else if output_append_index y \<noteq> -1 then run_append os (nat (output_append_index y)) a' s
         else run_plain os bg a' s)" for bg a' and y :: symbols
  have "starts_with (at_exec (sigint (handlers s))) s (snd (line bg a' y))" for bg a' and y :: symbols
    by (simp add: line_def run_pipe_starts run_plain_starts run_redirected_starts run_input_def
        run_output_def run_append_def)
  moreover
  have eq: "process_arglist os count a s = bindR (check_background count a) (\<lambda>(bg, n, a').
      bindR (for_upto n (check_symbol a') no_symbols) (\<lambda>y. Ok (line bg a' y)))"
    unfolding process_arglist_def line_def ..
  have "\<exists>bg a' y. line bg a' y = (x, s')" using assms unfolding eq by auto
  ultimately show ?thesis by (metis snd_conv)
qed

text \<open>
  C38: Control-C: a shell that has been prepared catches \<open>SIGINT\<close> and so survives it, but every program
  it starts, by whatever argument list, in the foreground, in the background, in a pipe or with a
  redirection, gets the default action, the one that ends it. So does the background program of a
  line \<open>xs &\<close> (whose \<open>fork\<close> and \<open>execvp\<close> succeed), which should go on.
\<close>

theorem background_dies_with_sigint:
  assumes "prepare True True s0 = (r, s)" and "ws = xs @ [''&'']" and "xs \<noteq> []"
    and "set xs \<inter> shell_symbols = {}" and "fork1 os = Some p" and "can_exec os (hd xs)"
  shows "r = 0 \<and> sigint (handlers (sigint_handler s)) = Caught \<and>
    (\<forall>os' n a x s'. process_arglist os' n a s = Ok (x, s') \<longrightarrow> sigint (handlers s') = Caught \<and>
       (\<exists>new. calls s' = calls s @ new \<and>
          (\<forall>q im. CFork q (Ok im) \<in> set new \<longrightarrow> sigint (on_signal im) = SigDfl))) \<and>
    (\<exists>s' im. process_arglist os (length ws) (args_of ws) s = Ok (1, s') \<and>
       calls s' = calls s @ [CFork p (Ok im), CBackground p] \<and> argv im = xs \<and>
       p \<in> set (children s') \<and> sigint (on_signal im) = SigDfl)"
proof -
  have s: "r = 0" "sigint (handlers s) = Caught" using assms(1) by (auto simp: prepare_def Let_def)
  have ws: "ws \<noteq> []" "command ws = xs" "last ws = ''&''" "command_args ws = map Some xs @ [None, None]"
    using assms(2) by (simp_all add: command_def command_args_def)
  have "dispatch os ws s = run_plain os True (map Some xs @ [None, None]) s"
    using assms(4) by (simp add: dispatch_def ws shell_symbols_def Let_def)
  then have d: "dispatch os ws s = (1, log_call (CBackground p)
      (forked p (Ok (started xs (fds s) (handlers s))) s))"
    using exec_first [OF assms(3), of os "[None]" "fds s" "handlers s"] assms(5,6)
    by (simp add: run_plain_def Let_def)
  then have line: "\<exists>s' im. process_arglist os (length ws) (args_of ws) s = Ok (1, s') \<and>
       calls s' = calls s @ [CFork p (Ok im), CBackground p] \<and> argv im = xs \<and>
       p \<in> set (children s') \<and> sigint (on_signal im) = SigDfl"
    using process_arglist_eq [OF ws(1), of os s] s
    by (simp add: started_def at_exec_def)
  have "starts_with SigDfl s s'" if "process_arglist os' n a s = Ok (x, s')" for os' n a x s'
    using line_starts_with [OF that] s(2) by (simp add: at_exec_def)
  then show ?thesis using line s by (simp add: starts_with_def sigint_handler_def)
qed

section \<open>Witnesses\<close>

definition shell0 :: shell where
  "shell0 = \<lparr>fds = [Some (Std 0), Some (Std 1), Some (Std 2)],
     handlers = \<lparr>sigint = SigDfl, sigchld = SigDfl\<rparr>, pipes = 0, children = [], calls = []\<rparr>"

definition all_well :: outcomes where
  "all_well = \<lparr>pipe_ok = True, fork1 = Some 7, fork2 = Some 8, can_open = (\<lambda>_ _. True),
     can_exec = (\<lambda>_. True)\<rparr>"

lemma shell0_fds [simp]:
  "fd_get (fds shell0) 0 = Some (Std 0)" "fd_get (fds shell0) (Suc 0) = Some (Std 1)"
  by (simp_all add: shell0_def fd_get_def)

lemma shell0_fields [simp]:
  "children shell0 = []" "pipes shell0 = 0" "calls shell0 = []"
  by (simp_all add: shell0_def)

lemma all_well_fields [simp]:
  "pipe_ok all_well" "fork1 all_well = Some 7" "fork2 all_well = Some 8" "can_open all_well f fl"
  "can_exec all_well w"
  by (simp_all add: all_well_def)

theorem pipeline_witness:
  "\<exists>s' t. process_arglist all_well 3 (args_of [''ls'', ''|'', ''wc'']) shell0 = Ok (1, s') \<and>
     fd_get t 1 = Some (PipeWrite 0) \<and> CFork 7 (Ok (started [''ls''] t (handlers shell0))) \<in> set (calls s')"
proof -
  let ?ws = "[''ls'', ''|'', ''wc'']"
  obtain s' r w t u where "process_arglist all_well (length ?ws) (args_of ?ws) shell0 = Ok (1, s')"
      "calls s' = calls shell0 @ [CPipe r w, CFork 7 (Ok (started [''ls''] t (handlers shell0))),
         CFork 8 (Ok (started [''wc''] u (handlers shell0))), CClose r, CClose w, CWait 7, CWait 8]"
      "\<forall>n. fd_get t n = (if n = 1 then Some (PipeWrite (pipes shell0)) else fd_get (fds shell0) n)"
    using pipeline [of ?ws "[''ls'']" "[''wc'']" all_well 7 8 shell0] by simp blast
  then show ?thesis by (intro exI [of _ s'] exI [of _ t]) (simp add: numeral_3_eq_3)
qed

theorem redirection_witness:
  "\<exists>s' t. process_arglist all_well 3 (args_of [''wc'', ''<'', ''f'']) shell0 = Ok (1, s') \<and>
     fd_get t 0 = Some (Opened ''f'' RdOnly) \<and>
     calls s' = [CFork 7 (Ok (started [''wc''] t (handlers shell0))), CWait 7]"
proof -
  have sy: "set [''wc''] \<inter> shell_symbols = {}" "''f'' \<notin> insert ''&'' shell_symbols"
    by (simp_all add: shell_symbols_def)
  obtain s' t where "process_arglist all_well (length [''wc'', ''<'', ''f''])
        (args_of [''wc'', ''<'', ''f'']) shell0 = Ok (1, s')"
      "calls s' = [CFork 7 (Ok (started [''wc''] t (handlers shell0))), CWait 7]"
      "\<forall>n. fd_get t n = (if n = 0 then Some (Opened ''f'' RdOnly) else fd_get (fds shell0) n)"
    using redirection [of "''<''" RdOnly 0 "[''wc'', ''<'', ''f'']" "[''wc'']" "''f''" all_well 7 shell0]
      sy by auto
  then show ?thesis by (intro exI [of _ s'] exI [of _ t]) (simp add: numeral_3_eq_3)
qed

theorem shell_survives_witness:
  "\<exists>s'. process_arglist all_well 1 (args_of [''|'']) shell0 = Ok (1, s')"
  using shell_survives [of "[''|'']" all_well shell0] by auto

theorem waits_for_foreground_witness:
  "\<exists>s'. process_arglist all_well 2 (args_of [''ls'', ''&'']) shell0 = Ok (1, s') \<and> children s' = [7]"
proof -
  have "\<exists>s'. process_arglist all_well 2 (args_of [''ls'', ''&'']) shell0 = Ok (1, s')"
    using process_arglist_eq [of "[''ls'', ''&'']" all_well shell0]
    by (simp add: dispatch_def command_def run_plain_def Let_def numeral_2_eq_2)
  then obtain s' where s': "process_arglist all_well 2 (args_of [''ls'', ''&'']) shell0 = Ok (1, s')"
    by blast
  then have "children s' = [7]"
    using waits_for_foreground [of "[''ls'', ''&'']" all_well 7 8 shell0 s']
    by (simp add: shell_symbols_def numeral_2_eq_2)
  then show ?thesis using s' by blast
qed

theorem background_dies_with_sigint_witness:
  "\<exists>s' (im :: image). process_arglist all_well 2 (args_of [''nap'', ''&'']) (snd (prepare True True shell0)) = Ok (1, s') \<and>
     argv im = [''nap''] \<and> sigint (on_signal im) = SigDfl"
proof -
  have sy: "set [''nap''] \<inter> shell_symbols = {}" by (simp add: shell_symbols_def)
  have pr: "prepare True True shell0 = (fst (prepare True True shell0), snd (prepare True True shell0))"
    by simp
  obtain s' and im :: image where "process_arglist all_well (length [''nap'', ''&'']) (args_of [''nap'', ''&''])
        (snd (prepare True True shell0)) = Ok (1, s')"
      "argv im = [''nap'']" "sigint (on_signal im) = SigDfl"
    using background_dies_with_sigint [OF pr, of "[''nap'', ''&'']" "[''nap'']" all_well 7] sy
    by simp blast
  then show ?thesis by (intro exI [of _ s'] exI [of _ im]) (simp add: numeral_2_eq_2)
qed

end
