(* ===== verification/Shell_Line.thy ===== *)
theory Shell_Line
  imports My_Shell_Spec
begin

text \<open>
  The frame of the shell, \<open>hw2/shell.c\<close>: \<open>main\<close> reads lines, cuts them into words with \<open>strtok\<close>,
  and hands the argument list to \<open>process_arglist\<close>, of which it only knows the contract that is
  stated as a locale here. The lines of the session are an input, its end is the end of the input.
\<close>

section \<open>Words of a line\<close>

text \<open>
  \<open>strtok\<close> with the delimiters \<open>" \t\n"\<close>: the word, if there is one, and what the next call
  continues with. A C string ends at its first \<open>NUL\<close>.
\<close>

definition is_delim :: "char \<Rightarrow> bool" where
  "is_delim c \<longleftrightarrow> c \<in> {CHR '' '', CHR 0x09, CHR 0x0A}"

definition c_string :: "string \<Rightarrow> string" where
  "c_string l = takeWhile (\<lambda>c. c \<noteq> CHR 0x00) l"

definition strtok :: "string \<Rightarrow> string option \<times> string" where
  "strtok l =
     (let r = dropWhile is_delim l in
      if r = [] then (None, [])
      else (Some (takeWhile (\<lambda>c. \<not> is_delim c) r), drop 1 (dropWhile (\<lambda>c. \<not> is_delim c) r)))"

lemma strtok_shorter:
  assumes "strtok l = (Some w, r)" shows "length r < length l"
proof -
  define d where "d = dropWhile is_delim l"
  have "d \<noteq> []" "r = drop 1 (dropWhile (\<lambda>c. \<not> is_delim c) d)"
    using assms by (auto simp: strtok_def d_def[symmetric] Let_def split: if_splits)
  then have "length r < length d"
    using length_dropWhile_le [of "\<lambda>c. \<not> is_delim c" d] by (cases d) auto
  also have "length d \<le> length l" by (simp add: d_def length_dropWhile_le)
  finally show ?thesis .
qed

text \<open>
  The heap of \<open>main\<close> is the number of its live blocks. \<open>realloc\<close> keeps the entries and makes room;
  the new ones are not yet set.
\<close>

definition resize :: "arglist \<Rightarrow> nat \<Rightarrow> arglist" where
  "resize a n = take n a @ replicate (n - length a) None"

function words_loop ::
    "(nat \<Rightarrow> bool) \<Rightarrow> nat \<Rightarrow> arglist \<Rightarrow> string \<Rightarrow> (nat \<times> arglist) run" where
  "words_loop grows count a rest =
     bindR (get_arg a count) (\<lambda>w.
       if w \<noteq> None
       then if \<not> grows (count + 1) then Exit 1
            else bindR (set_arg (resize a (count + 2)) (count + 1) (fst (strtok rest)))
                   (\<lambda>a'. words_loop grows (count + 1) a' (snd (strtok rest)))
       else Ok (count, a))"
  by auto
termination
proof (relation "measure (\<lambda>(g, c, a, l). length l + (if c < length a \<and> a ! c \<noteq> None then 1 else 0))")
  fix grows count a rest w a'
  assume w: "get_arg a count = Ok w" "w \<noteq> None"
    and a': "set_arg (resize a (count + 2)) (count + 1) (fst (strtok rest)) = Ok a'"
  have old: "count < length a" "a ! count \<noteq> None"
    using w by (auto simp: get_arg_def split: if_splits)
  have new: "a' ! (count + 1) = fst (strtok rest)"
    using a' by (auto simp: set_arg_def split: if_splits)
  have "length (snd (strtok rest)) + (if a' ! (count + 1) \<noteq> None then 1 else 0) < length rest + 1"
  proof (cases "fst (strtok rest)")
    case None
    then have "snd (strtok rest) = []" by (auto simp: strtok_def Let_def split: if_splits)
    then show ?thesis using None new by simp
  next
    case (Some v)
    then have "length (snd (strtok rest)) < length rest"
      by (intro strtok_shorter) (simp add: prod_eq_iff)
    then show ?thesis by simp
  qed
  then show "((grows, count + 1, a', snd (strtok rest)), grows, count, a, rest)
      \<in> measure (\<lambda>(g, c, a, l). length l + (if c < length a \<and> a ! c \<noteq> None then 1 else 0))"
    using old by (auto split: if_splits)
qed simp

declare words_loop.simps [simp del]

section \<open>main\<close>

text \<open>\<open>malloc\<close>, \<open>free\<close>: the number of live blocks; \<open>free\<close> without one is undefined.\<close>

definition free_block :: "nat \<Rightarrow> nat run" where
  "free_block n = (if n = 0 then Fault BadFree else Ok (n - 1))"

text \<open>The outcomes of the allocations for one line.\<close>

record memory =
  first_ok :: bool
  grow_ok :: "nat \<Rightarrow> bool"

text \<open>
  One round: the line is on the heap; then the argument list. The result is \<open>True\<close> if the loop goes
  on.
\<close>

definition one_line ::
    "('x \<Rightarrow> nat \<Rightarrow> arglist \<Rightarrow> 's \<Rightarrow> (int \<times> 's) run) \<Rightarrow> memory \<Rightarrow> 'x \<Rightarrow> string \<Rightarrow> nat \<times> 's \<Rightarrow>
     (bool \<times> nat \<times> 's) run" where
  "one_line process m x line = (\<lambda>(live, s).
     let live1 = live + 1 in
     if \<not> first_ok m then Exit 1
     else
       let live2 = live1 + 1; (w, rest) = strtok (c_string line)
       in bindR (words_loop (grow_ok m) 0 [w] rest) (\<lambda>(count, a).
          bindR (if count \<noteq> 0 then process x count a s else Ok (1, s)) (\<lambda>(r, s').
          bindR (free_block live2) (\<lambda>live3.
          bindR (free_block live3) (\<lambda>live4.
          Ok (r \<noteq> 0, live4, s'))))))"

text \<open>At the end of the input \<open>getline\<close> fails; the buffer it may have got is freed.\<close>

fun shell_loop ::
    "('x \<Rightarrow> nat \<Rightarrow> arglist \<Rightarrow> 's \<Rightarrow> (int \<times> 's) run) \<Rightarrow> (string \<times> memory \<times> 'x) list \<Rightarrow>
     nat \<times> 's \<Rightarrow> (nat \<times> 's) run" where
  "shell_loop process [] = (\<lambda>(live, s). bindR (free_block (live + 1)) (\<lambda>l. Ok (l, s)))"
| "shell_loop process ((line, m, x) # ls) = (\<lambda>st.
     bindR (one_line process m x line st) (\<lambda>(more, st'). if more then shell_loop process ls st' else Ok st'))"

definition shell_main ::
    "('s \<Rightarrow> int \<times> 's) \<Rightarrow> ('x \<Rightarrow> nat \<Rightarrow> arglist \<Rightarrow> 's \<Rightarrow> (int \<times> 's) run) \<Rightarrow> ('s \<Rightarrow> int \<times> 's) \<Rightarrow>
     (string \<times> memory \<times> 'x) list \<Rightarrow> 's \<Rightarrow> (int \<times> nat \<times> 's) run" where
  "shell_main prep process fin ls s =
     (let (r, s1) = prep s in
      if r \<noteq> 0 then Exit 1
      else bindR (shell_loop process ls (0, s1)) (\<lambda>(live, s2).
        let (r2, s3) = fin s2 in if r2 \<noteq> 0 then Exit 1 else Ok (0, live, s3)))"

section \<open>The words\<close>

text \<open>The words of a line, without reference to \<open>strtok\<close>: the non-empty pieces between delimiters.\<close>

fun pieces :: "string \<Rightarrow> string list" where
  "pieces [] = [[]]"
| "pieces (c # cs) = (if is_delim c then [] # pieces cs
     else (case pieces cs of [] \<Rightarrow> [[c]] | w # ws \<Rightarrow> (c # w) # ws))"

definition words_of :: "string \<Rightarrow> string list" where
  "words_of l = filter (\<lambda>w. w \<noteq> []) (pieces l)"

lemma pieces_nonempty [simp]: "pieces l \<noteq> []"
  by (cases l) (auto split: list.splits)

lemma pieces_word:
  "\<forall>c \<in> set w. \<not> is_delim c \<Longrightarrow>
   pieces (w @ r) = (case pieces r of [] \<Rightarrow> [w] | v # vs \<Rightarrow> (w @ v) # vs)"
  by (induction w) (auto split: list.splits)

lemma words_of_delims: "words_of (dropWhile is_delim l) = words_of l"
  by (induction l) (auto simp: words_of_def)

lemma words_of_word:
  assumes "w \<noteq> []" and "\<forall>c \<in> set w. \<not> is_delim c" and "r = [] \<or> is_delim (hd r)"
  shows "words_of (w @ r) = w # words_of (drop 1 r)"
  using assms pieces_word [of w r] by (cases r) (auto simp: words_of_def)

lemma strtok_words:
  "(case strtok l of (None, r) \<Rightarrow> words_of l = [] \<and> r = []
    | (Some w, r) \<Rightarrow> words_of l = w # words_of r)"
proof (cases "dropWhile is_delim l")
  case Nil
  have "words_of l = words_of []" using words_of_delims [of l] unfolding Nil by (rule sym)
  then show ?thesis using Nil by (simp add: strtok_def words_of_def)
next
  case (Cons c cs)
  define r where "r = dropWhile is_delim l"
  define w where "w = takeWhile (\<lambda>c. \<not> is_delim c) r"
  define u where "u = dropWhile (\<lambda>c. \<not> is_delim c) r"
  have r: "r \<noteq> []" "\<not> is_delim (hd r)" using Cons hd_dropWhile [of is_delim l] by (auto simp: r_def)
  then have "w \<noteq> []" by (cases r) (auto simp: w_def)
  moreover have "\<forall>c \<in> set w. \<not> is_delim c" by (auto simp: w_def dest: set_takeWhileD)
  moreover have "u = [] \<or> is_delim (hd u)"
    using hd_dropWhile [of "\<lambda>c. \<not> is_delim c" r] by (auto simp: u_def)
  ultimately have "words_of (w @ u) = w # words_of (drop 1 u)" by (rule words_of_word)
  moreover have "words_of l = words_of (w @ u)"
    using words_of_delims [of l] by (simp add: r_def[symmetric] w_def u_def)
  moreover have "strtok l = (Some w, drop 1 u)"
    using r(1) by (simp add: strtok_def r_def[symmetric] w_def u_def Let_def)
  ultimately show ?thesis by simp
qed

text \<open>The loop fills the array with the words, one entry for each and \<open>NULL\<close> at the end.\<close>

lemma words_loop_eq:
  assumes "\<forall>n. grows n"
  shows "words_loop grows (length ws) (map Some ws @ [fst (strtok l)]) (snd (strtok l)) =
    Ok (length (ws @ words_of l), args_of (ws @ words_of l))"
proof (induction l arbitrary: ws rule: measure_induct_rule [where f = length])
  case (less l)
  note w = strtok_words [of l]
  show ?case
  proof (cases "strtok l")
    case (Pair x r)
    show ?thesis
    proof (cases x)
      case None
      then show ?thesis using w Pair
        by (subst words_loop.simps) (simp add: get_arg_def nth_append args_of_def)
    next
      case (Some v)
      have fill: "set_arg (resize (map Some ws @ [Some v]) (length ws + 2)) (length ws + 1) y =
          Ok (map Some (ws @ [v]) @ [y])" for y
        by (simp add: set_arg_def resize_def list_update_append)
      have "words_loop grows (length ws) (map Some ws @ [Some v]) r =
          words_loop grows (length (ws @ [v])) (map Some (ws @ [v]) @ [fst (strtok r)]) (snd (strtok r))"
        using assms fill by (subst words_loop.simps) (simp add: get_arg_def nth_append)
      also have "\<dots> = Ok (length ((ws @ [v]) @ words_of r), args_of ((ws @ [v]) @ words_of r))"
        by (rule less) (use Pair Some strtok_shorter in blast)
      finally show ?thesis using w Pair Some by simp
    qed
  qed
qed

text \<open>
  C22: The argument list that the loop over \<open>strtok\<close> builds keeps the contract of
  \<open>process_arglist\<close>: it has \<open>count + 1\<close> entries, the last one and only the last one is \<open>NULL\<close>, and
  the others are the words of the line, its non-empty pieces between spaces, tabs and newlines. It
  ends on every line, and every access to the array is within its bounds.
\<close>

theorem arglist_contract:
  assumes "\<forall>n. grows n"
  shows "\<exists>count a. words_loop grows 0 [fst (strtok l)] (snd (strtok l)) = Ok (count, a) \<and>
    length a = count + 1 \<and> (\<forall>i \<le> count. a ! i = None \<longleftrightarrow> i = count) \<and>
    map the (take count a) = words_of l \<and> (\<forall>w \<in> set (words_of l). w \<noteq> [] \<and> (\<forall>c \<in> set w. \<not> is_delim c))"
proof -
  have "\<forall>w \<in> set (pieces l). \<forall>c \<in> set w. \<not> is_delim c"
    by (induction l) (auto split: list.splits)
  then have "\<forall>w \<in> set (words_of l). w \<noteq> [] \<and> (\<forall>c \<in> set w. \<not> is_delim c)"
    by (auto simp: words_of_def)
  then show ?thesis
    using words_loop_eq [OF assms, of "[]" l]
    by (auto simp: args_of_def nth_append comp_def)
qed

text \<open>
  C39: Words that are written with a blank after each of them come back as the same words.
\<close>

theorem words_roundtrip:
  assumes "\<forall>n. grows n" and "\<forall>w \<in> set ws. w \<noteq> [] \<and> (\<forall>c \<in> set w. \<not> is_delim c)"
    and "l = concat (map (\<lambda>w. w @ '' '') ws)"
  shows "words_loop grows 0 [fst (strtok l)] (snd (strtok l)) = Ok (length ws, args_of ws)"
proof -
  have "words_of (concat (map (\<lambda>w. w @ '' '') ws)) = ws"
    using assms(2)
  proof (induction ws)
    case (Cons w ws)
    then show ?case
      using words_of_word [of w "CHR '' '' # concat (map (\<lambda>w. w @ '' '') ws)"]
      by (simp add: is_delim_def)
  qed (simp add: words_of_def)
  then show ?thesis using words_loop_eq [OF assms(1), of "[]" l] assms(3) by simp
qed

section \<open>Sessions\<close>

text \<open>
  The contract between \<open>main\<close> and \<open>process_arglist\<close>: from a good state and a non-empty list of words
  it returns, with the effect \<open>spec\<close>, in a good state.
\<close>

locale arglist_handler =
  fixes process :: "'x \<Rightarrow> nat \<Rightarrow> arglist \<Rightarrow> 's \<Rightarrow> (int \<times> 's) run"
    and spec :: "'x \<Rightarrow> string list \<Rightarrow> 's \<Rightarrow> int \<times> 's"
    and good :: "'s \<Rightarrow> bool"
  assumes handles: "good s \<Longrightarrow> ws \<noteq> [] \<Longrightarrow> process x (length ws) (args_of ws) s = Ok (spec x ws s)"
    and stays_good: "good s \<Longrightarrow> ws \<noteq> [] \<Longrightarrow> good (snd (spec x ws s))"

text \<open>What a session does: the lines with words one after the other, until one fails.\<close>

fun session ::
    "('x \<Rightarrow> string list \<Rightarrow> 's \<Rightarrow> int \<times> 's) \<Rightarrow> (string \<times> memory \<times> 'x) list \<Rightarrow> 's \<Rightarrow> 's" where
  "session spec [] s = s"
| "session spec ((line, m, x) # ls) s =
     (let ws = words_of (c_string line) in
      if ws = [] then session spec ls s
      else let (r, s') = spec x ws s in if r \<noteq> 0 then session spec ls s' else s')"

definition enough_memory :: "memory \<Rightarrow> bool" where
  "enough_memory m \<longleftrightarrow> first_ok m \<and> (\<forall>n. grow_ok m n)"

context arglist_handler
begin

lemma one_line_eq:
  assumes "good s" and "enough_memory m"
  shows "one_line process m x line (live, s) =
    (let ws = words_of (c_string line) in
     if ws = [] then Ok (True, live, s)
     else Ok (fst (spec x ws s) \<noteq> 0, live, snd (spec x ws s)))"
proof -
  let ?l = "c_string line"
  have loop: "words_loop (grow_ok m) 0 [fst (strtok ?l)] (snd (strtok ?l)) =
      Ok (length (words_of ?l), args_of (words_of ?l))"
    using words_loop_eq [of "grow_ok m" "[]" ?l] assms(2) by (simp add: enough_memory_def)
  show ?thesis
    using assms loop handles [OF assms(1), of "words_of ?l" x]
    by (cases "strtok ?l"; cases "spec x (words_of ?l) s")
      (simp add: one_line_def free_block_def enough_memory_def Let_def)
qed

lemma session_ends:
  "good s \<Longrightarrow> \<forall>(line, m, x) \<in> set ls. enough_memory m \<Longrightarrow>
   shell_loop process ls (live, s) = Ok (live, session spec ls s) \<and> good (session spec ls s)"
proof (induction ls arbitrary: s)
  case Nil
  then show ?case by (simp add: free_block_def)
next
  case (Cons y ls)
  obtain line m x where y: "y = (line, m, x)" by (cases y)
  let ?ws = "words_of (c_string line)"
  have m: "enough_memory m" using Cons.prems(2) y by simp
  obtain r s' where rs: "spec x ?ws s = (r, s')" by (cases "spec x ?ws s")
  have "?ws \<noteq> [] \<Longrightarrow> good s'" using stays_good [OF Cons.prems(1), of ?ws x] rs by simp
  have ms: "\<forall>(line, m, x) \<in> set ls. enough_memory m" using Cons.prems(2) by simp
  have line: "shell_loop process (y # ls) (live, s) =
      (if ?ws = [] then shell_loop process ls (live, s)
       else if r \<noteq> 0 then shell_loop process ls (live, s') else Ok (live, s'))"
    using rs by (simp add: y one_line_eq [OF Cons.prems(1) m] Let_def)
  show ?case
  proof (cases "?ws = []")
    case True
    then show ?thesis using Cons.IH [OF Cons.prems(1) ms] line by (simp add: y Let_def)
  next
    case False
    then have "good s'" using stays_good [OF Cons.prems(1), of ?ws x] rs by simp
    then show ?thesis using Cons.IH [OF _ ms, of s'] False line rs by (simp add: y Let_def)
  qed
qed

end

end
