(* ===== verification/Shell_Session.thy ===== *)
theory Shell_Session
  imports Shell_Line
begin

text \<open>
  Whole sessions of the shell: \<open>main\<close> of \<open>hw2/shell.c\<close> with \<open>prepare\<close>, \<open>process_arglist\<close> and
  \<open>finalize\<close> of \<open>hw2/myshell.c\<close>, which keeps the contract that \<open>main\<close> relies on.
\<close>

text \<open>A prepared shell: it has its standard files and catches \<open>SIGINT\<close>.\<close>

definition good_shell :: "shell \<Rightarrow> bool" where
  "good_shell s \<longleftrightarrow> (\<forall>n < 3. fd_get (fds s) n \<noteq> None) \<and> sigint (handlers s) = Caught"

interpretation myshell: arglist_handler process_arglist dispatch good_shell
proof
  fix s and ws :: "string list" and x :: outcomes
  assume s: "good_shell s" and ws: "ws \<noteq> []"
  show "process_arglist x (length ws) (args_of ws) s = Ok (dispatch x ws s)"
    using ws by (rule process_arglist_eq)
  show "good_shell (snd (dispatch x ws s))"
    using dispatch_result [OF ws, of x s] s by (auto simp: good_shell_def)
qed

lemma prepare_good:
  assumes "\<forall>n < 3. fd_get (fds s) n \<noteq> None"
  shows "good_shell (snd (prepare True True s))"
  using assms by (simp add: good_shell_def prepare_def Let_def)

text \<open>
  C9: A session of the whole shell. If a signal handler cannot be installed, it exits with status 1
  before it reads a line. Otherwise, as long as its own allocations succeed, it carries out the
  commands of the lines in order, skips lines without words, stops at the end of the input or after
  the first command whose \<open>pipe\<close> or \<open>fork\<close> fails, and returns 0 with every block freed; it still has its
  standard files then and has caught \<open>SIGINT\<close> all the time. No command, and no child, can end it.
\<close>

theorem shell_session:
  assumes "\<forall>(line, m, x) \<in> set ls. enough_memory m" and "\<forall>n < 3. fd_get (fds s) n \<noteq> None"
  shows "shell_main (prepare ok1 ok2) process_arglist finalize ls s =
      (if ok1 \<and> ok2 then Ok (0, 0, session dispatch ls (snd (prepare True True s))) else Exit 1) \<and>
    good_shell (session dispatch ls (snd (prepare True True s)))"
proof -
  note ends = myshell.session_ends [OF prepare_good [OF assms(2)] assms(1), of 0]
  have p: "fst (prepare ok1 ok2 s) = (if ok1 \<and> ok2 then 0 else 1)"
    by (simp add: prepare_def Let_def)
  have "shell_main (prepare ok1 ok2) process_arglist finalize ls s = Exit 1" if "\<not> (ok1 \<and> ok2)"
    using p that by (simp add: shell_main_def Let_def split_def)
  moreover have "shell_main (prepare True True) process_arglist finalize ls s =
      Ok (0, 0, session dispatch ls (snd (prepare True True s)))"
    using ends by (simp add: shell_main_def finalize_def prepare_def Let_def)
  ultimately show ?thesis using ends by (cases "ok1 \<and> ok2") auto
qed

section \<open>Witnesses\<close>

lemma arglist_contract_witness:
  "\<exists>count a. words_loop (\<lambda>_. True) 0 [fst (strtok '' ls  -l'')] (snd (strtok '' ls  -l'')) = Ok (count, a) \<and>
     length a = count + 1 \<and> map the (take count a) = [''ls'', ''-l'']"
proof -
  have "words_of '' ls  -l'' = [''ls'', ''-l'']" by (simp add: words_of_def is_delim_def)
  then show ?thesis using arglist_contract [of "\<lambda>_. True" "'' ls  -l''"] by fastforce
qed

lemma words_roundtrip_witness:
  "words_loop (\<lambda>_. True) 0 [fst (strtok ''ls -l '')] (snd (strtok ''ls -l '')) =
     Ok (2, args_of [''ls'', ''-l''])"
  using words_roundtrip [of "\<lambda>_. True" "[''ls'', ''-l'']" "''ls -l ''"]
  by (simp add: is_delim_def numeral_2_eq_2)

definition plenty :: memory where
  "plenty = \<lparr>first_ok = True, grow_ok = (\<lambda>_. True)\<rparr>"

theorem shell_session_witness:
  "\<exists>s'. shell_main (prepare True True) process_arglist finalize
     [(''ls'' @ [CHR 0x0A], plenty, all_well), ([CHR 0x0A], plenty, all_well),
      (''|'' @ [CHR 0x0A], plenty, all_well\<lparr>fork1 := None\<rparr>), (''wc'' @ [CHR 0x0A], plenty, all_well)]
     shell0 = Ok (0, 0, s')"
proof -
  have "\<forall>n < 3. fd_get (fds shell0) n \<noteq> None"
    by (auto simp: numeral_3_eq_3 less_Suc_eq shell0_def fd_get_def)
  moreover have "enough_memory plenty" by (simp add: enough_memory_def plenty_def)
  ultimately show ?thesis
    using shell_session [of "[(''ls'' @ [CHR 0x0A], plenty, all_well), ([CHR 0x0A], plenty, all_well),
      (''|'' @ [CHR 0x0A], plenty, all_well\<lparr>fork1 := None\<rparr>), (''wc'' @ [CHR 0x0A], plenty, all_well)]"
      shell0 True True] by simp
qed

end
