(* ===== verification/Shell_Signals.thy ===== *)
theory Shell_Signals
  imports My_Shell_Spec
begin

text \<open>
  The handler of \<open>SIGCHLD\<close> in the middle of \<open>process_arglist\<close>. \<open>My_Shell\<close> lets the code of the shell run
  without interruption; here the signal may come between any two of its system calls. The theorem
  says that this makes no difference to what the shell does, except that the children that have
  ended are gone: it is an equivalence of the two models.
\<close>

section \<open>The parent, interrupted\<close>

text \<open>
  \<open>e k\<close>: the children that have ended when the handler runs at point \<open>k\<close>. Point 0 is before the first
  call of a command, point 7 after its last; the points between follow the calls that the branch makes.
  The calls themselves are restarted or return before their work is done (\<open>SA_RESTART\<close>).
\<close>

definition interrupt :: "(nat \<Rightarrow> nat set) \<Rightarrow> nat \<Rightarrow> shell \<Rightarrow> shell" where
  "interrupt e k s = sigchld_handler (e k) s"

definition pipe_signals :: "(nat \<Rightarrow> nat set) \<Rightarrow> outcomes \<Rightarrow> nat \<Rightarrow> arglist \<Rightarrow> shell \<Rightarrow> int \<times> shell" where
  "pipe_signals e os i a s =
     (if \<not> pipe_ok os then (0, s)
      else
        let (r, t1) = new_fd (PipeRead (pipes s)) (fds s);
            (w, t2) = new_fd (PipeWrite (pipes s)) t1;
            s1 = interrupt e 1 (log_call (CPipe r w) (s\<lparr>fds := t2, pipes := pipes s + 1\<rparr>))
        in case fork1 os of
          None \<Rightarrow> (0, s1)
        | Some pid1 \<Rightarrow>
            let s2 = interrupt e 2 (forked pid1 (pipe_writer os r w i a s1) s1)
            in case fork2 os of
              None \<Rightarrow> (0, s2)
            | Some pid2 \<Rightarrow>
                let s3 = interrupt e 3 (forked pid2 (pipe_reader os r w i a s2) s2);
                    s4 = interrupt e 4 (close_fd r s3);
                    s5 = interrupt e 5 (close_fd w s4)
                in (1, wait_for pid2 (interrupt e 6 (wait_for pid1 s5))))"

definition redirected_signals ::
    "(nat \<Rightarrow> nat set) \<Rightarrow> outcomes \<Rightarrow> open_flags \<Rightarrow> nat \<Rightarrow> nat \<Rightarrow> arglist \<Rightarrow> shell \<Rightarrow> int \<times> shell" where
  "redirected_signals e os fl std i a s =
     (case fork1 os of
        None \<Rightarrow> (0, s)
      | Some pid \<Rightarrow> (1, wait_for pid (interrupt e 2 (forked pid (redirected os fl std i a s) s))))"

definition plain_signals :: "(nat \<Rightarrow> nat set) \<Rightarrow> outcomes \<Rightarrow> bool \<Rightarrow> arglist \<Rightarrow> shell \<Rightarrow> int \<times> shell" where
  "plain_signals e os bg a s =
     (case fork1 os of
        None \<Rightarrow> (0, s)
      | Some pid \<Rightarrow>
          let s1 = interrupt e 2 (forked pid (exec_or_exit os a 0 (fds s) (handlers s)) s)
          in (1, if \<not> bg then wait_for pid s1 else log_call (CBackground pid) s1))"

definition arglist_signals ::
    "(nat \<Rightarrow> nat set) \<Rightarrow> outcomes \<Rightarrow> nat \<Rightarrow> arglist \<Rightarrow> shell \<Rightarrow> (int \<times> shell) run" where
  "arglist_signals e os count a s =
     bindR (check_background count a) (\<lambda>(bg, n, a').
     bindR (for_upto n (check_symbol a') no_symbols) (\<lambda>y.
       let s0 = interrupt e 0 s;
           (res, s') =
             (if pipe_index y \<noteq> -1 then pipe_signals e os (nat (pipe_index y)) a' s0
              else if input_redirect_index y \<noteq> -1
              then redirected_signals e os RdOnly 0 (nat (input_redirect_index y)) a' s0
              else if output_redirect_index y \<noteq> -1
              then redirected_signals e os WrTrunc 1 (nat (output_redirect_index y)) a' s0
              else if output_append_index y \<noteq> -1
              then redirected_signals e os WrAppend 1 (nat (output_append_index y)) a' s0
              else plain_signals e os bg a' s0)
       in Ok (res, interrupt e 7 s')))"

section \<open>Interruptions make no difference\<close>

text \<open>
  Who has ended stays ended, and a process that has not been forked yet has not ended.
\<close>

definition plausible :: "(nat \<Rightarrow> nat set) \<Rightarrow> outcomes \<Rightarrow> bool" where
  "plausible e os \<longleftrightarrow> mono e \<and>
     (\<forall>p. fork1 os = Some p \<longrightarrow> p \<notin> e 1) \<and> (\<forall>p. fork2 os = Some p \<longrightarrow> p \<notin> e 2)"

text \<open>The shell without the children in \<open>d\<close>.\<close>

definition minus_children :: "nat set \<Rightarrow> shell \<Rightarrow> shell" where
  "minus_children d s = s\<lparr>children := filter (\<lambda>p. p \<notin> d) (children s)\<rparr>"

lemma interrupt_eq: "interrupt e k s = minus_children (e k) s"
  by (simp add: interrupt_def no_zombies minus_children_def)

lemma minus_fields [simp]:
  "fds (minus_children d s) = fds s" "handlers (minus_children d s) = handlers s" "pipes (minus_children d s) = pipes s"
  by (simp_all add: minus_children_def)

lemma minus_commutes:
  "log_call c (minus_children d s) = minus_children d (log_call c s)"
  "close_fd n (minus_children d s) = minus_children d (close_fd n s)"
  "wait_for p (minus_children d s) = minus_children d (wait_for p s)"
  "minus_children d s\<lparr>fds := t, pipes := n\<rparr> = minus_children d (s\<lparr>fds := t, pipes := n\<rparr>)"
  by (simp_all add: minus_children_def log_call_def close_fd_def wait_for_def conj_commute)

lemma minus_forked: "p \<notin> d \<Longrightarrow> forked p c (minus_children d s) = minus_children d (forked p c s)"
  by (simp add: minus_children_def forked_def log_call_def)

lemma minus_without: "d \<subseteq> d' \<Longrightarrow> minus_children d' (minus_children d s) = minus_children d' s"
  by (auto simp: minus_children_def intro!: arg_cong [where f = "\<lambda>c. s\<lparr>children := c\<rparr>"] filter_cong)

lemma child_minus [simp]:
  "pipe_writer os r w i a (minus_children d s) = pipe_writer os r w i a s"
  "pipe_reader os r w i a (minus_children d s) = pipe_reader os r w i a s"
  "redirected os fl std i a (minus_children d s) = redirected os fl std i a s"
  unfolding pipe_writer_def pipe_reader_def redirected_def minus_fields by (rule refl)+

definition at_end :: "(nat \<Rightarrow> nat set) \<Rightarrow> int \<times> shell \<Rightarrow> int \<times> shell" where
  "at_end e x = (fst x, minus_children (e 7) (snd x))"

lemma branches_minus:
  assumes "plausible e os"
  shows "at_end e (pipe_signals e os i a (minus_children (e 0) s)) = at_end e (run_pipe os i a s)"
    and "at_end e (redirected_signals e os fl std i a (minus_children (e 0) s)) =
      at_end e (run_redirected os fl std i a s)"
    and "at_end e (plain_signals e os bg a (minus_children (e 0) s)) = at_end e (run_plain os bg a s)"
proof -
  have sub: "j \<le> k \<Longrightarrow> e j \<subseteq> e k" for j k using assms by (simp add: plausible_def mono_def)
  have f1: "p \<notin> e 0" "p \<notin> e 1" if "fork1 os = Some p" for p
    using assms that sub [of 0 1] by (auto simp: plausible_def)
  have f2: "p \<notin> e 0" "p \<notin> e 1" "p \<notin> e 2" if "fork2 os = Some p" for p
    using assms that sub [of 0 2] sub [of 1 2] by (auto simp: plausible_def)
  note steps = interrupt_eq minus_commutes minus_forked minus_without sub
  show "at_end e (pipe_signals e os i a (minus_children (e 0) s)) = at_end e (run_pipe os i a s)"
    using f1 f2
    by (simp add: at_end_def pipe_signals_def run_pipe_def steps Let_def split: prod.split option.split)
  show "at_end e (redirected_signals e os fl std i a (minus_children (e 0) s)) =
      at_end e (run_redirected os fl std i a s)"
    using f1 by (simp add: at_end_def redirected_signals_def run_redirected_def steps split: option.split)
  show "at_end e (plain_signals e os bg a (minus_children (e 0) s)) = at_end e (run_plain os bg a s)"
    using f1 by (simp add: at_end_def plain_signals_def run_plain_def steps Let_def split: option.split)
qed

text \<open>
  C16: \<open>SIGCHLD\<close> may come at any time: however its handler interrupts the shell while it carries out a
  command, \<open>process_arglist\<close> returns the same value, starts the same programs with the same files, and
  makes the same calls in the same order as without interruption. Afterwards the children that have
  ended are reaped, and no others: there are no zombies.
\<close>

theorem signals_anywhere:
  assumes "plausible e os"
  shows "arglist_signals e os count a s =
    bindR (process_arglist os count a s) (\<lambda>(res, s').
      Ok (res, s'\<lparr>children := filter (\<lambda>p. p \<notin> e 7) (children s')\<rparr>))"
proof -
  note b = branches_minus [OF assms, unfolded at_end_def prod.inject]
  show ?thesis
  proof (cases "check_background count a")
    case (Ok x)
    obtain bg n a' where x: "x = (bg, n, a')" by (cases x)
    show ?thesis
      by (cases "for_upto n (check_symbol a') no_symbols")
        (simp_all add: arglist_signals_def process_arglist_def Ok x Let_def split_def interrupt_eq b
          run_input_def run_output_def run_append_def flip: minus_children_def)
  qed (simp_all add: arglist_signals_def process_arglist_def)
qed

text \<open>
  The witness: the first child of a pipe ends while the shell waits for it, and its handler is faster
  than \<open>waitpid\<close>.
\<close>

theorem signals_anywhere_witness:
  "arglist_signals (\<lambda>k. if 3 \<le> k then {7} else {}) all_well 3
     [Some ''a'', Some ''|'', Some ''b'', None] shell0 =
   bindR (process_arglist all_well 3 [Some ''a'', Some ''|'', Some ''b'', None] shell0)
     (\<lambda>(res, s'). Ok (res, s'\<lparr>children := filter (\<lambda>p. p \<notin> {7}) (children s')\<rparr>))"
proof -
  have "plausible (\<lambda>k. if 3 \<le> k then {7} else {}) all_well"
    by (auto simp: plausible_def all_well_def mono_def)
  from signals_anywhere [OF this] show ?thesis by simp
qed

end
