(* ===== verification/C_Heap.thy ===== *)
theory C_Heap
  imports C_Prelude
begin

text \<open>
  Pointers and linked structures, shared by the programs that keep lists on the heap. A heap is
  a map from addresses to live objects; \<open>Undef\<close> is the value of an uninitialised pointer. The
  predicate \<open>seg\<close> says that a list of addresses is what one meets when following the links.
\<close>

section \<open>Pointers\<close>

datatype ptr = Null | Ref nat | Undef

fun deref :: "(nat \<rightharpoonup> 'a) \<Rightarrow> ptr \<Rightarrow> 'a run" where
  "deref h Null = Fault NullDeref"
| "deref h Undef = Fault Uninit"
| "deref h (Ref a) = (case h a of None \<Rightarrow> Fault Dangling | Some x \<Rightarrow> Ok x)"

fun addr :: "ptr \<Rightarrow> nat run" where
  "addr (Ref a) = Ok a"
| "addr Null = Fault NullDeref"
| "addr Undef = Fault Uninit"

text \<open>\<open>p != NULL\<close>\<close>

fun non_null :: "ptr \<Rightarrow> bool run" where
  "non_null Null = Ok False"
| "non_null (Ref a) = Ok True"
| "non_null Undef = Fault Uninit"

definition to_ptr :: "nat list \<Rightarrow> ptr" where
  "to_ptr as = (case as of [] \<Rightarrow> Null | a # _ \<Rightarrow> Ref a)"

lemma to_ptr_simps [simp]: "to_ptr [] = Null" "to_ptr (a # as) = Ref a"
  by (simp_all add: to_ptr_def)

lemma to_ptr_Null [simp]: "to_ptr as = Null \<longleftrightarrow> as = []"
  by (cases as) simp_all

lemma case_to_ptr:
  "(case to_ptr as of Ref a \<Rightarrow> f a | Null \<Rightarrow> x | Undef \<Rightarrow> y) = (case as of [] \<Rightarrow> x | a # _ \<Rightarrow> f a)"
  by (cases as) simp_all

section \<open>Linked lists\<close>

text \<open>
  \<open>seg nx h p as q\<close>: the objects at the addresses \<open>as\<close> of the heap \<open>h\<close> lead from \<open>p\<close> to \<open>q\<close>,
  where \<open>nx\<close> is the field that holds the link.
\<close>

primrec seg :: "('n \<Rightarrow> ptr) \<Rightarrow> (nat \<rightharpoonup> 'n) \<Rightarrow> ptr \<Rightarrow> nat list \<Rightarrow> ptr \<Rightarrow> bool" where
  "seg nx h p [] q = (p = q)"
| "seg nx h p (a # as) q = (p = Ref a \<and> (\<exists>n. h a = Some n \<and> seg nx h (nx n) as q))"

lemma seg_append: "seg nx h p (xs @ ys) q \<longleftrightarrow> (\<exists>r. seg nx h p xs r \<and> seg nx h r ys q)"
  by (induction xs arbitrary: p) auto

lemma seg_frame: "a \<notin> set as \<Longrightarrow> seg nx (h(a := v)) p as q = seg nx h p as q"
  by (induction as arbitrary: p) auto

lemma seg_Null: "seg nx h p as Null \<Longrightarrow> p = Null \<longleftrightarrow> as = []"
  by (cases as) auto

lemma seg_to_ptr: "seg nx h p as Null \<Longrightarrow> p = to_ptr as"
  by (cases as) auto

lemma seg_dom: "seg nx h p as q \<Longrightarrow> set as \<subseteq> dom h"
  by (induction as arbitrary: p) auto

text \<open>An update that keeps the links.\<close>

lemma seg_update:
  "h a = Some n \<Longrightarrow> nx n' = nx n \<Longrightarrow> seg nx (h(a \<mapsto> n')) p as q = seg nx h p as q"
  by (induction as arbitrary: p) auto

lemma seg_determines_next:
  assumes "seg nx h p (xs @ [u]) q" shows "\<exists>n. h u = Some n \<and> nx n = q"
  using assms by (auto simp: seg_append)

lemma seg_relink:
  assumes "seg nx h p (xs @ [u]) q" and "u \<notin> set xs" and "nx n = r"
  shows "seg nx (h(u \<mapsto> n)) p (xs @ [u]) r"
  using assms by (auto simp: seg_append seg_frame)

end
