(* ===== verification/Msg_Slot.thy ===== *)
theory Msg_Slot
  imports C_Heap
begin

text \<open>
  The kernel module of \<open>hw3\<close>, \<open>message_slot.c\<close>: per device a linked list of channels, sorted by
  channel id, with one message of at most 128 bytes each. The lists live on the kernel heap,
  modelled as maps from addresses to live objects; whether a \<open>kmalloc\<close> succeeds is the
  parameter \<open>km\<close>, and an address is the number of the call that returned it, so it is never
  used twice. Memory that \<open>kmalloc\<close> returns is uninitialised: \<open>None\<close> for a byte, \<open>Undef\<close> for a
  pointer, some pattern for a list size, which the code sets at once. User memory is data: how many bytes can be copied.
\<close>

section \<open>Data\<close>

definition MSG_MAX_LENGTH :: nat where
  "MSG_MAX_LENGTH = 128"

definition BUF_LEN :: nat where
  "BUF_LEN = 128"

definition MAX_DEVICES :: nat where
  "MAX_DEVICES = 2 ^ 8 + 1"

definition EINVAL :: int where
  "EINVAL = 22"

definition ENOSPC :: int where
  "ENOSPC = 28"

definition EWOULDBLOCK :: int where
  "EWOULDBLOCK = 11"

definition EMSGSIZE :: int where
  "EMSGSIZE = 90"

type_synonym bytes = "u8 option list"

record node =
  channelId :: int
  msg :: ptr
  msgLength :: "int option"
  nxt :: ptr

record linked_list =
  first :: ptr
  list_size :: c_int

record kernel =
  nodes :: "nat \<rightharpoonup> node"
  bufs :: "nat \<rightharpoonup> bytes"
  lists :: "nat \<rightharpoonup> linked_list"
  devices :: "ptr list"
  kcalls :: nat

definition kernel_init :: kernel where
  "kernel_init =
     \<lparr>nodes = Map.empty, bufs = Map.empty, lists = Map.empty,
      devices = replicate MAX_DEVICES Null, kcalls = 0\<rparr>"

text \<open>An open file: \<open>private_data\<close> (0 is \<open>NULL\<close>) and the minor number of its inode.\<close>

record open_file =
  private_data :: u64
  minor :: nat

section \<open>Heap access\<close>

definition update_node :: "ptr \<Rightarrow> (node \<Rightarrow> node) \<Rightarrow> kernel \<Rightarrow> kernel run" where
  "update_node p f s =
     bindR (deref (nodes s) p) (\<lambda>n. bindR (addr p) (\<lambda>a. Ok (s\<lparr>nodes := (nodes s)(a \<mapsto> f n)\<rparr>)))"

definition update_list :: "ptr \<Rightarrow> (linked_list \<Rightarrow> linked_list) \<Rightarrow> kernel \<Rightarrow> kernel run" where
  "update_list p f s =
     bindR (deref (lists s) p) (\<lambda>l. bindR (addr p) (\<lambda>a. Ok (s\<lparr>lists := (lists s)(a \<mapsto> f l)\<rparr>)))"

text \<open>\<open>kmalloc\<close> of the three kinds of objects.\<close>

definition kmalloc_node :: "(nat \<Rightarrow> bool) \<Rightarrow> kernel \<Rightarrow> ptr \<times> kernel" where
  "kmalloc_node km s =
     (let a = kcalls s; s1 = s\<lparr>kcalls := Suc a\<rparr>
      in if km a
         then (Ref a, s1\<lparr>nodes := (nodes s)(a \<mapsto>
                 \<lparr>channelId = 0, msg = Undef, msgLength = None, nxt = Undef\<rparr>)\<rparr>)
         else (Null, s1))"

definition kmalloc_buf :: "(nat \<Rightarrow> bool) \<Rightarrow> nat \<Rightarrow> kernel \<Rightarrow> ptr \<times> kernel" where
  "kmalloc_buf km n s =
     (let a = kcalls s; s1 = s\<lparr>kcalls := Suc a\<rparr>
      in if km a then (Ref a, s1\<lparr>bufs := (bufs s)(a \<mapsto> replicate n None)\<rparr>) else (Null, s1))"

definition kmalloc_list :: "(nat \<Rightarrow> bool) \<Rightarrow> kernel \<Rightarrow> ptr \<times> kernel" where
  "kmalloc_list km s =
     (let a = kcalls s; s1 = s\<lparr>kcalls := Suc a\<rparr>
      in if km a
         then (Ref a, s1\<lparr>lists := (lists s)(a \<mapsto> \<lparr>first = Undef, list_size = 0xAAAAAAAA\<rparr>)\<rparr>)
         else (Null, s1))"

fun kfree_node :: "ptr \<Rightarrow> kernel \<Rightarrow> kernel run" where
  "kfree_node Null s = Ok s"
| "kfree_node Undef s = Fault Uninit"
| "kfree_node (Ref a) s =
     (if nodes s a = None then Fault BadFree else Ok (s\<lparr>nodes := (nodes s)(a := None)\<rparr>))"

fun kfree_buf :: "ptr \<Rightarrow> kernel \<Rightarrow> kernel run" where
  "kfree_buf Null s = Ok s"
| "kfree_buf Undef s = Fault Uninit"
| "kfree_buf (Ref a) s =
     (if bufs s a = None then Fault BadFree else Ok (s\<lparr>bufs := (bufs s)(a := None)\<rparr>))"

fun kfree_list :: "ptr \<Rightarrow> kernel \<Rightarrow> kernel run" where
  "kfree_list Null s = Ok s"
| "kfree_list Undef s = Fault Uninit"
| "kfree_list (Ref a) s =
     (if lists s a = None then Fault BadFree else Ok (s\<lparr>lists := (lists s)(a := None)\<rparr>))"

text \<open>\<open>memcpy(dst, src, n)\<close> between heap buffers.\<close>

definition memcpy :: "ptr \<Rightarrow> ptr \<Rightarrow> nat \<Rightarrow> kernel \<Rightarrow> kernel run" where
  "memcpy dst src n s =
     bindR (deref (bufs s) dst) (\<lambda>d. bindR (addr dst) (\<lambda>a. bindR (deref (bufs s) src) (\<lambda>b.
       if n \<le> length d \<and> n \<le> length b
       then Ok (s\<lparr>bufs := (bufs s)(a \<mapsto> take n b @ drop n d)\<rparr>)
       else Fault OutOfBounds)))"

section \<open>Channel lists\<close>

text \<open>
  The loops over a list take as many rounds as there are nodes; \<open>fuel\<close> bounds them by the
  number of \<open>kmalloc\<close> calls so far.
\<close>

fun find_loop :: "nat \<Rightarrow> kernel \<Rightarrow> int \<Rightarrow> ptr \<Rightarrow> ptr run" where
  "find_loop 0 s ch p = Fault OutOfFuel"
| "find_loop (Suc fuel) s ch p =
     bindR (non_null p) (\<lambda>nn.
       if nn
       then bindR (deref (nodes s) p) (\<lambda>n.
              if channelId n = ch then Ok p else find_loop fuel s ch (nxt n))
       else Ok Null)"

definition findChannelId :: "ptr \<Rightarrow> int \<Rightarrow> kernel \<Rightarrow> ptr run" where
  "findChannelId lst ch s =
     bindR (deref (lists s) lst) (\<lambda>l. find_loop (Suc (kcalls s)) s ch (first l))"

definition setMsg :: "ptr \<Rightarrow> ptr \<Rightarrow> nat \<Rightarrow> kernel \<Rightarrow> kernel run" where
  "setMsg p src n s =
     bindR (deref (nodes s) p) (\<lambda>nd.
     bindR (memcpy (msg nd) src n s)
       (update_node p (\<lambda>nd. nd\<lparr>msgLength := Some (int n)\<rparr>)))"

definition createNode :: "(nat \<Rightarrow> bool) \<Rightarrow> int \<Rightarrow> kernel \<Rightarrow> (ptr \<times> kernel) run" where
  "createNode km ch s =
     (case kmalloc_node km s of
        (p, s1) \<Rightarrow>
          if p = Null then Ok (Null, s1)
          else (case kmalloc_buf km MSG_MAX_LENGTH s1 of
                  (q, s2) \<Rightarrow>
                    if q = Null then bindR (kfree_node p s2) (\<lambda>s3. Ok (Null, s3))
                    else bindR (update_node p
                                  (\<lambda>n. n\<lparr>msg := q, channelId := ch, nxt := Null\<rparr>) s2)
                           (\<lambda>s3. Ok (p, s3))))"

text \<open>The code that puts a new node between \<open>prev\<close> and \<open>node\<close>, shared by its branches.\<close>

definition insert_before :: "(nat \<Rightarrow> bool) \<Rightarrow> ptr \<Rightarrow> int \<Rightarrow> ptr \<Rightarrow> ptr \<Rightarrow> kernel \<Rightarrow>
    (ptr \<times> kernel) run" where
  "insert_before km lst ch prev node s =
     bindR (createNode km ch s) (\<lambda>(new, s1).
       if new = Null then Ok (Null, s1)
       else
         bindR (if prev = Null
                then bindR (update_node new (\<lambda>n. n\<lparr>nxt := node\<rparr>) s1)
                       (update_list lst (\<lambda>l. l\<lparr>first := new\<rparr>))
                else bindR (update_node new (\<lambda>n. n\<lparr>nxt := node\<rparr>) s1)
                       (update_node prev (\<lambda>n. n\<lparr>nxt := new\<rparr>))) (\<lambda>s2.
         bindR (update_list lst (\<lambda>l. l\<lparr>list_size := list_size l + 1\<rparr>) s2) (\<lambda>s3.
         Ok (new, s3))))"

fun create_loop :: "nat \<Rightarrow> (nat \<Rightarrow> bool) \<Rightarrow> ptr \<Rightarrow> int \<Rightarrow> ptr \<Rightarrow> ptr \<Rightarrow> kernel \<Rightarrow>
    (ptr \<times> kernel) run" where
  "create_loop 0 km lst ch prev node s = Fault OutOfFuel"
| "create_loop (Suc fuel) km lst ch prev node s =
     bindR (deref (nodes s) node) (\<lambda>n.
       if ch = channelId n then Ok (node, s)
       else if ch < channelId n then insert_before km lst ch prev node s
       else
         bindR (non_null (nxt n)) (\<lambda>more.
           if more then create_loop fuel km lst ch node (nxt n) s
           else
             bindR (createNode km ch s) (\<lambda>(new, s1).
               if new = Null then Ok (Null, s1)
               else
                 bindR (update_node node (\<lambda>n. n\<lparr>nxt := new\<rparr>) s1) (\<lambda>s2.
                 bindR (update_list lst (\<lambda>l. l\<lparr>list_size := list_size l + 1\<rparr>) s2) (\<lambda>s3.
                 Ok (new, s3))))))"

declare create_loop.simps [simp del]

definition getOrCreateNode :: "(nat \<Rightarrow> bool) \<Rightarrow> ptr \<Rightarrow> int \<Rightarrow> kernel \<Rightarrow> (ptr \<times> kernel) run" where
  "getOrCreateNode km lst ch s =
     bindR (deref (lists s) lst) (\<lambda>l.
       if list_size l = 0
       then
         bindR (createNode km ch s) (\<lambda>(new, s1).
           if new = Null then Ok (Null, s1)
           else
             bindR (update_list lst (\<lambda>l. l\<lparr>first := new\<rparr>) s1) (\<lambda>s2.
             bindR (update_list lst (\<lambda>l. l\<lparr>list_size := list_size l + 1\<rparr>) s2) (\<lambda>s3.
             Ok (new, s3))))
       else create_loop (Suc (kcalls s)) km lst ch Null (first l) s)"

definition freeNode :: "ptr \<Rightarrow> kernel \<Rightarrow> kernel run" where
  "freeNode p s =
     bindR (deref (nodes s) p) (\<lambda>n. bindR (kfree_buf (msg n) s) (kfree_node p))"

fun free_loop :: "nat \<Rightarrow> ptr \<Rightarrow> ptr \<Rightarrow> kernel \<Rightarrow> kernel run" where
  "free_loop 0 prev cur s = Fault OutOfFuel"
| "free_loop (Suc fuel) prev cur s =
     bindR (non_null cur) (\<lambda>more.
       if more
       then bindR (freeNode prev s) (\<lambda>s1.
            bindR (deref (nodes s1) cur) (\<lambda>n. free_loop fuel cur (nxt n) s1))
       else freeNode prev s)"

definition freeLst :: "ptr \<Rightarrow> kernel \<Rightarrow> kernel run" where
  "freeLst lst s =
     bindR (deref (lists s) lst) (\<lambda>l.
     bindR (if list_size l \<noteq> 0
            then bindR (deref (nodes s) (first l)) (\<lambda>n.
                   free_loop (Suc (kcalls s)) (first l) (nxt n) s)
            else Ok s)
       (kfree_list lst))"

section \<open>File operations\<close>

definition device_slot :: "nat \<Rightarrow> kernel \<Rightarrow> ptr run" where
  "device_slot m s =
     (if m + 1 < length (devices s) then Ok (devices s ! (m + 1)) else Fault OutOfBounds)"

definition device_open :: "(nat \<Rightarrow> bool) \<Rightarrow> nat \<Rightarrow> kernel \<Rightarrow> (int \<times> kernel) run" where
  "device_open km m s =
     bindR (device_slot m s) (\<lambda>d.
       if d = Null
       then (case kmalloc_list km s of
               (p, s1) \<Rightarrow>
                 let s2 = s1\<lparr>devices := (devices s1)[m + 1 := p]\<rparr>
                 in if p = Null then Ok (-1, s2)
                    else bindR (update_list p (\<lambda>l. l\<lparr>list_size := 0\<rparr>) s2) (\<lambda>s3. Ok (0, s3)))
       else Ok (0, s))"

text \<open>Conversion of the \<open>unsigned long\<close> channel id to the parameter type \<open>int\<close>.\<close>

definition to_int :: "u64 \<Rightarrow> int" where
  "to_int ch = sint (ucast ch :: 32 word)"

text \<open>
  A user buffer to read into: \<open>NULL\<close>, or an address behind which that many bytes can be
  written. The result holds the return value and the bytes that reached user memory.
\<close>

datatype user_dst = DstNull | Room nat

text \<open>The part of \<open>device_read\<close> behind the search, for the node found.\<close>

definition read_node :: "(nat \<Rightarrow> bool) \<Rightarrow> ptr \<Rightarrow> user_dst \<Rightarrow> nat \<Rightarrow> kernel \<Rightarrow>
    (int \<times> bytes \<times> kernel) run" where
  "read_node km p buffer len s =
     bindR (deref (nodes s) p) (\<lambda>n.
       case msgLength n of None \<Rightarrow> Fault Uninit
       | Some k \<Rightarrow>
           if int len < k \<or> buffer = DstNull then Ok (- ENOSPC, [], s)
           else
             (case kmalloc_buf km (nat k) s of (t, s1) \<Rightarrow>
                if t = Null then Ok (- ENOSPC, [], s1)
                else
                  bindR (memcpy t (msg n) (nat k) s1) (\<lambda>s2.
                  bindR (deref (bufs s2) t) (\<lambda>tmp.
                    let room = (case buffer of DstNull \<Rightarrow> 0 | Room r \<Rightarrow> r)
                    in if nat k - room \<noteq> 0
                       then bindR (kfree_buf t s2) (\<lambda>s3. Ok (- ENOSPC, take room tmp, s3))
                       else bindR (kfree_buf t s2) (\<lambda>s3. Ok (k, tmp, s3))))))"

definition device_read :: "(nat \<Rightarrow> bool) \<Rightarrow> open_file \<Rightarrow> user_dst \<Rightarrow> nat \<Rightarrow> kernel \<Rightarrow>
    (int \<times> bytes \<times> kernel) run" where
  "device_read km file buffer len s =
     (if private_data file = 0 then Ok (- EINVAL, [], s)
      else
        bindR (device_slot (minor file) s) (\<lambda>lst.
          if lst = Null then Ok (- EINVAL, [], s)
          else
            bindR (findChannelId lst (to_int (private_data file)) s) (\<lambda>p.
              if p = Null then Ok (- EWOULDBLOCK, [], s)
              else read_node km p buffer len s)))"

text \<open>A user buffer to write from: \<open>NULL\<close>, or the bytes that can be read there.\<close>

datatype user_src = SrcNull | Bytes "u8 list"

text \<open>The part of \<open>device_write\<close> behind \<open>getOrCreateNode\<close>, for the node it returned.\<close>

definition write_node :: "(nat \<Rightarrow> bool) \<Rightarrow> ptr \<Rightarrow> u8 list \<Rightarrow> nat \<Rightarrow> kernel \<Rightarrow>
    (int \<times> kernel) run" where
  "write_node km p src len s =
     bindR (update_node p (\<lambda>n. n\<lparr>msgLength := Some (int len)\<rparr>) s) (\<lambda>s2.
       case kmalloc_buf km len s2 of (t, s3) \<Rightarrow>
         if t = Null then Ok (- ENOSPC, s3)
         else if length src < len
         then bindR (kfree_buf t s3) (\<lambda>s4. Ok (- ENOSPC, s4))
         else
           bindR (addr t) (\<lambda>a.
           bindR (setMsg p t len (s3\<lparr>bufs := (bufs s3)(a \<mapsto> map Some (take len src))\<rparr>)) (\<lambda>s4.
           bindR (kfree_buf t s4) (\<lambda>s5. Ok (int len, s5)))))"

definition device_write :: "(nat \<Rightarrow> bool) \<Rightarrow> open_file \<Rightarrow> user_src \<Rightarrow> nat \<Rightarrow> kernel \<Rightarrow>
    (int \<times> kernel) run" where
  "device_write km file buffer len s =
     (if len > BUF_LEN \<or> len \<le> 0 then Ok (- EMSGSIZE, s)
      else if private_data file = 0 then Ok (- EINVAL, s)
      else case buffer of SrcNull \<Rightarrow> Ok (- ENOSPC, s)
      | Bytes src \<Rightarrow>
          bindR (device_slot (minor file) s) (\<lambda>lst.
            if lst = Null then Ok (- EINVAL, s)
            else
              bindR (getOrCreateNode km lst (to_int (private_data file)) s) (\<lambda>(p, s1).
                if p = Null then Ok (- ENOSPC, s1) else write_node km p src len s1)))"

definition MSG_SLOT_CHANNEL :: u32 where
  "MSG_SLOT_CHANNEL = push_bit 30 1 OR push_bit 16 8 OR push_bit 8 240 OR 0"

definition device_ioctl :: "open_file \<Rightarrow> u32 \<Rightarrow> u64 \<Rightarrow> int \<times> open_file" where
  "device_ioctl file ioctl_command_id ioctl_param =
     (if MSG_SLOT_CHANNEL = ioctl_command_id \<and> ioctl_param \<noteq> 0
      then (0, file\<lparr>private_data := ioctl_param\<rparr>)
      else (- EINVAL, file))"

section \<open>The module\<close>

definition MAJOR_NUM :: int where
  "MAJOR_NUM = 240"

definition simple_init :: "int \<Rightarrow> int" where
  "simple_init register_result = (if register_result < 0 then MAJOR_NUM else 0)"

text \<open>The loop over \<open>devices[1]\<close>, ..., \<open>devices[MAX_DEVICES - 1]\<close>.\<close>

definition simple_cleanup :: "kernel \<Rightarrow> kernel run" where
  "simple_cleanup =
     for_upto (MAX_DEVICES - 1) (\<lambda>i s.
       let lst = devices s ! (i + 1) in if lst \<noteq> Null then freeLst lst s else Ok s)"

section \<open>Histories\<close>

text \<open>The calls the kernel makes, in any order and with any arguments.\<close>

datatype slot_op =
  OpOpen nat
| OpWrite open_file user_src nat
| OpRead open_file user_dst nat

fun slot_step :: "(nat \<Rightarrow> bool) \<Rightarrow> slot_op \<Rightarrow> kernel \<Rightarrow> kernel run" where
  "slot_step km (OpOpen m) s = bindR (device_open km m s) (\<lambda>(r, s'). Ok s')"
| "slot_step km (OpWrite f src n) s = bindR (device_write km f src n s) (\<lambda>(r, s'). Ok s')"
| "slot_step km (OpRead f dst n) s = bindR (device_read km f dst n s) (\<lambda>(r, bs, s'). Ok s')"

fun op_minor :: "slot_op \<Rightarrow> nat" where
  "op_minor (OpOpen m) = m"
| "op_minor (OpWrite f src n) = minor f"
| "op_minor (OpRead f dst n) = minor f"

definition slots_run :: "(nat \<Rightarrow> bool) \<Rightarrow> slot_op list \<Rightarrow> kernel \<Rightarrow> kernel run" where
  "slots_run km ops = block (map (slot_step km) ops)"

section \<open>Linked nodes\<close>

definition chan :: "(nat \<rightharpoonup> node) \<Rightarrow> nat \<Rightarrow> int" where
  "chan h a = (case h a of None \<Rightarrow> 0 | Some n \<Rightarrow> channelId n)"

definition ascending :: "(nat \<rightharpoonup> node) \<Rightarrow> nat list \<Rightarrow> bool" where
  "ascending h as \<longleftrightarrow> sorted_wrt (<) (map (chan h) as)"

lemma ascending_distinct: "ascending h as \<Longrightarrow> distinct as"
proof -
  assume "ascending h as"
  then have "distinct (map (chan h) as)" by (simp add: ascending_def strict_sorted_iff)
  then show ?thesis by (rule distinct_map [THEN iffD1, THEN conjunct1])
qed

section \<open>The invariant\<close>

text \<open>
  \<open>G m\<close> are the addresses of the nodes of device \<open>m\<close> in list order. The message buffer of a
  node is the object allocated right after it. Nothing else is allocated.
\<close>

definition device_ok :: "kernel \<Rightarrow> nat list \<Rightarrow> ptr \<Rightarrow> bool" where
  "device_ok s as d \<longleftrightarrow>
     (d = Null \<and> as = []) \<or>
     (\<exists>l L. d = Ref l \<and> lists s l = Some L \<and> list_size L = of_nat (length as) \<and>
        length as < 2 ^ 31 \<and>
        (if as = [] then first L = Undef else seg nxt (nodes s) (first L) as Null))"

definition node_ok :: "kernel \<Rightarrow> nat \<Rightarrow> bool" where
  "node_ok s a \<longleftrightarrow> (\<exists>n b. nodes s a = Some n \<and> msg n = Ref (Suc a) \<and>
     bufs s (Suc a) = Some b \<and> length b = MSG_MAX_LENGTH)"

definition devices_ok :: "kernel \<Rightarrow> (nat \<Rightarrow> nat list) \<Rightarrow> bool" where
  "devices_ok s G \<longleftrightarrow>
     (\<forall>m < 256. device_ok s (G m) (devices s ! (m + 1)) \<and> ascending (nodes s) (G m))"

definition apart :: "kernel \<Rightarrow> (nat \<Rightarrow> nat list) \<Rightarrow> bool" where
  "apart s G \<longleftrightarrow>
     (\<forall>m < 256. \<forall>m' < 256. m \<noteq> m' \<longrightarrow> set (G m) \<inter> set (G m') = {} \<and>
        (devices s ! (m + 1) = devices s ! (m' + 1) \<longrightarrow> devices s ! (m + 1) = Null))"

definition owned :: "kernel \<Rightarrow> (nat \<Rightarrow> nat list) \<Rightarrow> bool" where
  "owned s G \<longleftrightarrow>
     dom (nodes s) = (\<Union>m \<in> {..<256}. set (G m)) \<and>
     dom (bufs s) = Suc ` dom (nodes s) \<and>
     dom (lists s) = {l. \<exists>m < 256. devices s ! (m + 1) = Ref l}"

definition heap_ok :: "kernel \<Rightarrow> bool" where
  "heap_ok s \<longleftrightarrow>
     (\<forall>a \<in> dom (nodes s). node_ok s a) \<and>
     (\<forall>a \<in> dom (nodes s) \<union> dom (bufs s) \<union> dom (lists s). a < kcalls s)"

definition shape :: "kernel \<Rightarrow> (nat \<Rightarrow> nat list) \<Rightarrow> bool" where
  "shape s G \<longleftrightarrow>
     length (devices s) = 257 \<and> devices_ok s G \<and> apart s G \<and> owned s G \<and> heap_ok s"

definition lengths_ok :: "kernel \<Rightarrow> bool" where
  "lengths_ok s \<longleftrightarrow>
     (\<forall>a n. nodes s a = Some n \<longrightarrow> (\<exists>k. msgLength n = Some (int k) \<and> 0 < k \<and> k \<le> MSG_MAX_LENGTH))"

lemma shapeD:
  assumes "shape s G"
  shows "length (devices s) = 257" and "devices_ok s G" and "apart s G" and "owned s G"
    and "heap_ok s"
  using assms by (simp_all add: shape_def)

lemma shape_device: "shape s G \<Longrightarrow> m < 256 \<Longrightarrow> device_ok s (G m) (devices s ! (m + 1))"
  and shape_ascending: "shape s G \<Longrightarrow> m < 256 \<Longrightarrow> ascending (nodes s) (G m)"
  using shapeD(2) unfolding devices_ok_def by blast+

lemma shape_apart:
  assumes "shape s G" and "m < 256" and "m' < 256" and "m \<noteq> m'"
  shows "set (G m) \<inter> set (G m') = {}"
    and "devices s ! (m + 1) = devices s ! (m' + 1) \<Longrightarrow> devices s ! (m + 1) = Null"
  using shapeD(3) [OF assms(1)] assms(2-4) unfolding apart_def by blast+

lemma shape_dom:
  assumes "shape s G"
  shows "dom (nodes s) = (\<Union>m \<in> {..<256}. set (G m))" and "dom (bufs s) = Suc ` dom (nodes s)"
    and "dom (lists s) = {l. \<exists>m < 256. devices s ! (m + 1) = Ref l}"
  using shapeD(4) [OF assms] unfolding owned_def by auto

lemma shape_node_ok: "shape s G \<Longrightarrow> a \<in> dom (nodes s) \<Longrightarrow> node_ok s a"
  using shapeD(5) unfolding heap_ok_def by blast

lemma shape_bound:
  assumes "shape s G" and "a \<in> dom (nodes s) \<or> a \<in> dom (bufs s) \<or> a \<in> dom (lists s)"
  shows "a < kcalls s"
  using shapeD(5) [OF assms(1)] assms(2) unfolding heap_ok_def by blast

lemma shape_member:
  assumes "shape s G" and "m < 256" and "a \<in> set (G m)"
  shows "a \<in> dom (nodes s)"
  unfolding shape_dom(1) [OF assms(1)] using assms(2,3) by blast

lemma shape_fresh:
  assumes "shape s G" and "kcalls s \<le> a"
  shows "nodes s a = None" and "bufs s a = None" and "lists s a = None"
  using shape_bound [OF assms(1), of a] assms(2) by fastforce+

lemma shape_length:
  assumes "shape s G" and "m < 256"
  shows "length (G m) \<le> kcalls s"
proof -
  have "length (G m) = card (set (G m))"
    using ascending_distinct [OF shape_ascending [OF assms]] by (simp add: distinct_card)
  also have "\<dots> \<le> card {..<kcalls s}"
    using shape_bound [OF assms(1)] shape_member [OF assms] by (intro card_mono) auto
  finally show ?thesis by simp
qed

lemma init_devices [simp]: "m < 257 \<Longrightarrow> devices kernel_init ! m = Null"
  by (simp add: kernel_init_def MAX_DEVICES_def)

lemma shape_init: "shape kernel_init (\<lambda>_. [])"
proof -
  have "length (devices kernel_init) = 257" by (simp add: kernel_init_def MAX_DEVICES_def)
  then show ?thesis
    by (simp add: shape_def devices_ok_def device_ok_def ascending_def apart_def owned_def
        heap_ok_def) (simp add: kernel_init_def)
qed

section \<open>Looking up a channel\<close>

lemma find_loop_seg:
  "seg nxt (nodes s) p as Null \<Longrightarrow> length as < fuel \<Longrightarrow>
   find_loop fuel s ch p = Ok (to_ptr (dropWhile (\<lambda>a. chan (nodes s) a \<noteq> ch) as))"
proof (induction as arbitrary: p fuel)
  case Nil
  then show ?case by (cases fuel) auto
next
  case (Cons a as)
  then obtain f n where f: "fuel = Suc f" and n: "p = Ref a" "nodes s a = Some n"
      "seg nxt (nodes s) (nxt n) as Null"
    by (cases fuel) auto
  then show ?case using Cons.IH [OF n(3), of f] Cons.prems(2) by (simp add: chan_def)
qed

lemma findChannelId_ok:
  assumes "shape s G" and "m < 256" and "devices s ! (m + 1) = Ref l" and "G m \<noteq> []"
  shows "findChannelId (Ref l) ch s =
    Ok (to_ptr (dropWhile (\<lambda>a. chan (nodes s) a \<noteq> ch) (G m)))"
proof -
  obtain L where L: "lists s l = Some L" "seg nxt (nodes s) (first L) (G m) Null"
    using shape_device [OF assms(1,2)] assms(3,4) by (auto simp: device_ok_def)
  then show ?thesis
    using find_loop_seg [OF L(2), of "Suc (kcalls s)" ch] shape_length [OF assms(1,2)]
    by (simp add: findChannelId_def)
qed

section \<open>Creating a node\<close>

lemma createNode_eq:
  assumes "nodes s (kcalls s) = None"
  shows "createNode km ch s =
    (let k = kcalls s
     in if km k \<and> km (Suc k)
        then Ok (Ref k, s\<lparr>nodes := (nodes s)(k \<mapsto>
                     \<lparr>channelId = ch, msg = Ref (Suc k), msgLength = None, nxt = Null\<rparr>),
                   bufs := (bufs s)(Suc k \<mapsto> replicate MSG_MAX_LENGTH None),
                   kcalls := Suc (Suc k)\<rparr>)
        else Ok (Null, s\<lparr>kcalls := (if km k then Suc (Suc k) else Suc k)\<rparr>))"
  using assms
  by (auto simp: createNode_def kmalloc_node_def kmalloc_buf_def update_node_def Let_def fun_upd_idem)

text \<open>The kernel after a new node for \<open>ch\<close> was linked between the nodes \<open>xs\<close> and \<open>ys\<close>.\<close>

definition link_nodes :: "int \<Rightarrow> nat list \<Rightarrow> nat list \<Rightarrow> kernel \<Rightarrow> nat \<rightharpoonup> node" where
  "link_nodes ch xs ys s =
     (let k = kcalls s;
          h = (nodes s)(k \<mapsto>
            \<lparr>channelId = ch, msg = Ref (Suc k), msgLength = None, nxt = to_ptr ys\<rparr>)
      in if xs = [] then h else h(last xs \<mapsto> (the (nodes s (last xs)))\<lparr>nxt := Ref k\<rparr>))"

definition link_in :: "nat \<Rightarrow> int \<Rightarrow> nat list \<Rightarrow> nat list \<Rightarrow> kernel \<Rightarrow> kernel" where
  "link_in l ch xs ys s =
     (let k = kcalls s; L = the (lists s l)
      in s\<lparr>nodes := link_nodes ch xs ys s,
           bufs := (bufs s)(Suc k \<mapsto> replicate MSG_MAX_LENGTH None),
           lists := (lists s)(l \<mapsto>
             L\<lparr>first := (if xs = [] then Ref k else first L), list_size := list_size L + 1\<rparr>),
           kcalls := Suc (Suc k)\<rparr>)"

definition created :: "(nat \<Rightarrow> bool) \<Rightarrow> nat \<Rightarrow> int \<Rightarrow> nat list \<Rightarrow> nat list \<Rightarrow> kernel \<Rightarrow>
    ptr \<times> kernel" where
  "created km l ch xs ys s =
     (let k = kcalls s
      in if km k \<and> km (Suc k) then (Ref k, link_in l ch xs ys s)
         else (Null, s\<lparr>kcalls := (if km k then Suc (Suc k) else Suc k)\<rparr>))"

lemma insert_before_eq:
  assumes "nodes s (kcalls s) = None" and "lists s l = Some L"
    and "xs \<noteq> [] \<Longrightarrow> last xs \<in> dom (nodes s)"
  shows "insert_before km (Ref l) ch (if xs = [] then Null else Ref (last xs)) (to_ptr ys) s =
    Ok (created km l ch xs ys s)"
proof -
  have "xs \<noteq> [] \<Longrightarrow> last xs \<noteq> kcalls s" using assms(1,3) by auto
  then show ?thesis
    using assms
    by (cases s) (auto simp: insert_before_def createNode_eq Let_def created_def link_in_def
        link_nodes_def update_node_def update_list_def)
qed

lemma append_node_eq:
  assumes "nodes s (kcalls s) = None" and "lists s l = Some L" and "nodes s a = Some n"
  shows "bindR (createNode km ch s) (\<lambda>(new, s1).
      if new = Null then Ok (Null, s1)
      else
        bindR (update_node (Ref a) (\<lambda>n. n\<lparr>nxt := new\<rparr>) s1) (\<lambda>s2.
        bindR (update_list (Ref l) (\<lambda>l. l\<lparr>list_size := list_size l + 1\<rparr>) s2) (\<lambda>s3.
        Ok (new, s3)))) =
    Ok (created km l ch (xs @ [a]) [] s)"
proof -
  have "a \<noteq> kcalls s" using assms(1,3) by auto
  then show ?thesis
    using assms
    by (cases s; cases L) (auto simp: createNode_eq Let_def created_def link_in_def
        link_nodes_def update_node_def update_list_def)
qed

lemma create_loop_eq:
  assumes "nodes s (kcalls s) = None" and "lists s l = Some L"
  shows "seg nxt (nodes s) (Ref a) (a # as) Null \<Longrightarrow> length (a # as) \<le> fuel \<Longrightarrow>
    (xs \<noteq> [] \<Longrightarrow> last xs \<in> dom (nodes s)) \<Longrightarrow>
    create_loop fuel km (Ref l) ch (if xs = [] then Null else Ref (last xs)) (Ref a) s =
    (let lo = takeWhile (\<lambda>b. chan (nodes s) b < ch) (a # as);
         hi = dropWhile (\<lambda>b. chan (nodes s) b < ch) (a # as)
     in if hi \<noteq> [] \<and> chan (nodes s) (hd hi) = ch then Ok (Ref (hd hi), s)
        else Ok (created km l ch (xs @ lo) hi s))"
proof (induction as arbitrary: a xs fuel)
  case Nil
  then obtain f n where f: "fuel = Suc f" and n: "nodes s a = Some n" "nxt n = Null"
    by (cases fuel) auto
  have c: "chan (nodes s) a = channelId n" using n(1) by (simp add: chan_def)
  have "insert_before km (Ref l) ch (if xs = [] then Null else Ref (last xs)) (Ref a) s =
      Ok (created km l ch xs [a] s)"
    using insert_before_eq [OF assms Nil(3), where ys = "[a]"] by simp
  then show ?case
    using n by (simp add: f c create_loop.simps append_node_eq [OF assms n(1), of _ _ xs])
next
  case (Cons b as)
  then obtain f n where f: "fuel = Suc f" and n: "nodes s a = Some n" "nxt n = Ref b"
      and sg: "seg nxt (nodes s) (Ref b) (b # as) Null"
    by (cases fuel) auto
  have c: "chan (nodes s) a = channelId n" using n(1) by (simp add: chan_def)
  have "insert_before km (Ref l) ch (if xs = [] then Null else Ref (last xs)) (Ref a) s =
      Ok (created km l ch xs (a # b # as) s)"
    using insert_before_eq [OF assms Cons(4), where ys = "a # b # as"] by simp
  moreover have "create_loop f km (Ref l) ch (if xs @ [a] = [] then Null else Ref (last (xs @ [a])))
      (Ref b) s =
    (let lo = takeWhile (\<lambda>b. chan (nodes s) b < ch) (b # as);
         hi = dropWhile (\<lambda>b. chan (nodes s) b < ch) (b # as)
     in if hi \<noteq> [] \<and> chan (nodes s) (hd hi) = ch then Ok (Ref (hd hi), s)
        else Ok (created km l ch ((xs @ [a]) @ lo) hi s))"
    using Cons.prems(2) n(1) f by (intro Cons.IH sg) auto
  ultimately show ?case
    using n by (cases "channelId n < ch") (auto simp: f c create_loop.simps Let_def)
qed

lemma getOrCreateNode_eq:
  assumes "shape s G" and "m < 256" and "devices s ! (m + 1) = Ref l"
  shows "getOrCreateNode km (Ref l) ch s =
    (let lo = takeWhile (\<lambda>b. chan (nodes s) b < ch) (G m);
         hi = dropWhile (\<lambda>b. chan (nodes s) b < ch) (G m)
     in if hi \<noteq> [] \<and> chan (nodes s) (hd hi) = ch then Ok (Ref (hd hi), s)
        else Ok (created km l ch lo hi s))"
proof -
  have fresh: "nodes s (kcalls s) = None" using shape_fresh [OF assms(1)] by simp
  obtain L where L: "lists s l = Some L" "list_size L = of_nat (length (G m))"
      "length (G m) < 2 ^ 31" "G m \<noteq> [] \<Longrightarrow> seg nxt (nodes s) (first L) (G m) Null"
    using shape_device [OF assms(1,2)] assms(3) by (auto simp: device_ok_def split: if_splits)
  have size: "list_size L = 0 \<longleftrightarrow> G m = []"
    using L(2,3) by (simp add: word_unat_eq_iff unat_of_nat take_bit_nat_def)
  show ?thesis
  proof (cases "G m")
    case Nil
    then show ?thesis
      using fresh L size
      by (auto simp: getOrCreateNode_def createNode_eq Let_def created_def link_in_def
          link_nodes_def update_list_def fun_upd_twist)
  next
    case (Cons a as)
    then have "first L = Ref a" "seg nxt (nodes s) (Ref a) (a # as) Null" using L(4) by auto
    then show ?thesis
      using create_loop_eq [OF fresh L(1), of a as "Suc (kcalls s)" "[]" km ch] L size Cons
        shape_length [OF assms(1,2)]
      by (simp add: getOrCreateNode_def Let_def)
  qed
qed

section \<open>Linking a node in keeps the shape\<close>

lemma link_nodes_other:
  assumes "a \<noteq> kcalls s"
  shows "link_nodes ch xs ys s a =
    (if xs \<noteq> [] \<and> a = last xs then Some ((the (nodes s a))\<lparr>nxt := Ref (kcalls s)\<rparr>)
     else nodes s a)"
  using assms by (auto simp: link_nodes_def Let_def)

lemma link_nodes_new:
  assumes "xs \<noteq> [] \<Longrightarrow> last xs \<noteq> kcalls s"
  shows "link_nodes ch xs ys s (kcalls s) = Some \<lparr>channelId = ch, msg = Ref (Suc (kcalls s)),
    msgLength = None, nxt = to_ptr ys\<rparr>"
  using assms by (auto simp: link_nodes_def Let_def)

lemma chan_link_nodes:
  assumes "a \<noteq> kcalls s" and "a \<in> dom (nodes s)"
  shows "chan (link_nodes ch xs ys s) a = chan (nodes s) a"
  using assms by (auto simp: chan_def link_nodes_other)

lemma seg_link_nodes:
  assumes "seg nxt (nodes s) p (xs @ ys) Null" and "distinct (xs @ ys)" and "kcalls s \<notin> set (xs @ ys)"
  shows "seg nxt (link_nodes ch xs ys s) (if xs = [] then Ref (kcalls s) else p)
    (xs @ kcalls s # ys) Null"
proof -
  let ?k = "kcalls s"
  let ?new = "\<lparr>channelId = ch, msg = Ref (Suc ?k), msgLength = None, nxt = to_ptr ys\<rparr>"
  obtain r where r: "seg nxt (nodes s) p xs r" "seg nxt (nodes s) r ys Null"
    using assms(1) by (auto simp: seg_append)
  then have ry: "r = to_ptr ys" using seg_to_ptr by blast
  show ?thesis
  proof (cases xs rule: rev_cases)
    case Nil
    then show ?thesis
      using r ry assms(3) by (simp add: link_nodes_def Let_def seg_frame)
  next
    case (snoc us u)
    obtain n where n: "nodes s u = Some n" using r(1) snoc seg_determines_next by blast
    have u: "u \<noteq> ?k" "u \<notin> set us" "u \<notin> set ys" using assms(2,3) snoc by auto
    have "link_nodes ch xs ys s = (nodes s)(u \<mapsto> n\<lparr>nxt := Ref ?k\<rparr>, ?k \<mapsto> ?new)"
      using u n snoc by (auto simp: link_nodes_def Let_def)
    moreover have "seg nxt ((nodes s)(u \<mapsto> n\<lparr>nxt := Ref ?k\<rparr>)) p xs (Ref ?k)"
      unfolding snoc using r(1) u(2) by (intro seg_relink) (simp_all add: snoc)
    ultimately show ?thesis
      using r ry u assms(3) snoc by (auto simp: seg_append seg_frame)
  qed
qed

lemma device_ok_nodes:
  assumes "device_ok s as d" and "\<And>l. d = Ref l \<Longrightarrow> lists s' l = lists s l"
    and "\<And>p. seg nxt (nodes s) p as Null \<Longrightarrow> seg nxt (nodes s') p as Null"
  shows "device_ok s' as d"
  using assms by (cases "as = []") (auto simp: device_ok_def)

lemma ascending_cong:
  assumes "ascending h as" and "\<And>a. a \<in> set as \<Longrightarrow> chan h' a = chan h a"
  shows "ascending h' as"
proof -
  have "map (chan h') as = map (chan h) as" using assms(2) by (rule map_cong [OF refl])
  then show ?thesis using assms(1) by (simp only: ascending_def)
qed

lemma shape_link_in:
  assumes "shape s G" and "m < 256" and "devices s ! (m + 1) = Ref l" and "G m = xs @ ys"
    and "\<forall>a \<in> set xs. chan (nodes s) a < ch" and "\<forall>a \<in> set ys. ch < chan (nodes s) a"
    and "length (G m) + 1 < 2 ^ 31"
  shows "shape (link_in l ch xs ys s) (G(m := xs @ kcalls s # ys))"
proof -
  let ?k = "kcalls s" and ?s = "link_in l ch xs ys s" and ?G = "G(m := xs @ kcalls s # ys)"
  let ?h = "link_nodes ch xs ys s"
  note dm = shape_dom [OF assms(1)]
  have old: "a \<in> dom (nodes s) \<and> a \<noteq> ?k" if "m' < 256" "a \<in> set (G m')" for m' a
    using shape_member [OF assms(1) that] shape_fresh(1) [OF assms(1) le_refl] by auto
  have last: "last xs \<in> set (G m)" "last xs \<noteq> ?k" "last xs \<in> dom (nodes s)" if "xs \<noteq> []"
    using old [OF assms(2), of "last xs"] assms(4) that by auto
  have dist: "distinct (xs @ ys)"
    using ascending_distinct [OF shape_ascending [OF assms(1,2)]] assms(4) by simp
  have flds: "nodes ?s = ?h" "devices ?s = devices s" "kcalls ?s = Suc (Suc ?k)"
      "bufs ?s = (bufs s)(Suc ?k \<mapsto> replicate MSG_MAX_LENGTH None)"
    by (simp_all add: link_in_def Let_def)
  obtain L where L: "lists s l = Some L" "list_size L = of_nat (length (G m))"
      "G m \<noteq> [] \<Longrightarrow> seg nxt (nodes s) (first L) (G m) Null"
    using shape_device [OF assms(1,2)] assms(3) by (auto simp: device_ok_def split: if_splits)
  have lists: "lists ?s = (lists s)(l \<mapsto>
      L\<lparr>first := (if xs = [] then Ref ?k else first L), list_size := list_size L + 1\<rparr>)"
    using L(1) by (simp add: link_in_def Let_def)
  have chan: "chan ?h a = chan (nodes s) a" if "m' < 256" "a \<in> set (G m')" for m' a
    using chan_link_nodes old [OF that] by blast
  have chan_k: "chan ?h ?k = ch"
    using link_nodes_new [of xs s ch ys] last(2) by (simp add: chan_def)
  have dom_h: "dom ?h = insert ?k (dom (nodes s))"
    using last(3) link_nodes_new [of xs s ch ys] last(2)
    by (auto simp: dom_def link_nodes_other split: if_splits) (metis link_nodes_other option.distinct(1))+
  have sg: "seg nxt ?h (if xs = [] then Ref ?k else first L) (xs @ ?k # ys) Null"
  proof (cases "G m = []")
    case True
    then show ?thesis using assms(4) link_nodes_new [of xs s ch ys] by simp
  next
    case False
    have "?k \<notin> set (xs @ ys)" using old [OF assms(2), of ?k] assms(4) by auto
    then show ?thesis
      using seg_link_nodes [OF _ dist, of s "first L" ch] L(3) [OF False] assms(4) by simp
  qed
  have 1: "devices_ok ?s ?G"
    unfolding devices_ok_def
  proof (intro allI impI)
    fix m' :: nat assume m': "m' < 256"
    show "device_ok ?s (?G m') (devices ?s ! (m' + 1)) \<and> ascending (nodes ?s) (?G m')"
    proof (cases "m' = m")
      case True
      have "device_ok ?s (xs @ ?k # ys) (Ref l)"
        using sg L(2) assms(4,7) by (auto simp: device_ok_def lists flds)
      moreover have "ascending ?h (xs @ ?k # ys)"
      proof -
        have "ascending ?h (xs @ ys)"
          using ascending_cong [OF shape_ascending [OF assms(1,2)] chan [OF assms(2)]] assms(4)
          by simp
        moreover have "\<forall>a \<in> set xs. chan ?h a < ch" "\<forall>a \<in> set ys. ch < chan ?h a"
          using assms(4-6) chan [OF assms(2)] by auto
        ultimately show ?thesis by (auto simp: ascending_def sorted_wrt_append chan_k)
      qed
      ultimately show ?thesis using True assms(3) by (simp add: flds)
    next
      case False
      have notin: "last xs \<notin> set (G m')" if "xs \<noteq> []"
        using shape_apart(1) [OF assms(1) m' assms(2) False] last(1) [OF that] by auto
      have "?k \<notin> set (G m')" using old [OF m'] by auto
      then have "seg nxt ?h p (G m') Null" if "seg nxt (nodes s) p (G m') Null" for p
        using that notin by (auto simp: link_nodes_def Let_def seg_frame)
      moreover have "lists ?s l' = lists s l'" if "devices s ! (m' + 1) = Ref l'" for l'
        using shape_apart(2) [OF assms(1) m' assms(2) False] assms(3) that by (auto simp: lists)
      ultimately have "device_ok ?s (G m') (devices s ! (m' + 1))"
        using device_ok_nodes [OF shape_device [OF assms(1) m']] by (simp add: flds)
      moreover have "ascending ?h (G m')"
        using ascending_cong [OF shape_ascending [OF assms(1) m'] chan [OF m']] .
      ultimately show ?thesis using False by (simp add: flds)
    qed
  qed
  have 2: "apart ?s ?G"
    unfolding apart_def
  proof (intro allI impI)
    fix m1 m2 :: nat assume ms: "m1 < 256" "m2 < 256" "m1 \<noteq> m2"
    have "?k \<notin> set (G m1)" "?k \<notin> set (G m2)" using old ms by auto
    then have "set (?G m1) \<inter> set (?G m2) = {}"
      using shape_apart(1) [OF assms(1) ms] ms(3) assms(4) by auto
    then show "set (?G m1) \<inter> set (?G m2) = {} \<and>
        (devices ?s ! (m1 + 1) = devices ?s ! (m2 + 1) \<longrightarrow> devices ?s ! (m1 + 1) = Null)"
      using shape_apart(2) [OF assms(1) ms] by (simp add: flds)
  qed
  have 3: "owned ?s ?G"
  proof -
    have "dom ?h = (\<Union>m \<in> {..<256}. set (?G m))"
    proof -
      have "set (?G x) = set (G x) \<union> (if x = m then {?k} else {})" for x
        using assms(4) by simp
      then show ?thesis unfolding dom_h dm(1) using assms(2) by (auto split: if_splits)
    qed
    moreover have "dom (bufs ?s) = Suc ` dom ?h" by (simp add: flds dm(2) dom_h)
    moreover have "dom (lists ?s) = dom (lists s)" using L(1) by (auto simp: lists)
    ultimately show ?thesis using dm(3) by (simp add: owned_def flds)
  qed
  have 4: "heap_ok ?s"
    unfolding heap_ok_def
  proof (intro conjI ballI)
    fix a assume "a \<in> dom (nodes ?s)"
    then have a: "a = ?k \<or> a \<in> dom (nodes s) \<and> a \<noteq> ?k" by (auto simp: flds dom_h)
    show "node_ok ?s a"
    proof (cases "a = ?k")
      case True
      then show ?thesis using link_nodes_new [of xs s ch ys] last(2) by (simp add: node_ok_def flds)
    next
      case False
      then have "node_ok s a" using a shape_node_ok [OF assms(1)] by blast
      then show ?thesis using False by (auto simp: node_ok_def flds link_nodes_other)
    qed
  next
    fix a assume "a \<in> dom (nodes ?s) \<union> dom (bufs ?s) \<union> dom (lists ?s)"
    then have "a \<in> {?k, Suc ?k} \<or> a \<in> dom (nodes s) \<or> a \<in> dom (bufs s) \<or> a \<in> dom (lists s)"
      using L(1) by (auto simp: flds dom_h lists split: if_splits)
    then have "a \<in> {?k, Suc ?k} \<or> a < ?k" using shape_bound [OF assms(1)] by blast
    then show "a < kcalls ?s" by (auto simp: flds)
  qed
  show ?thesis using 1 2 3 4 shapeD(1) [OF assms(1)] by (simp add: shape_def flds)
qed

section \<open>Changing contents keeps the shape\<close>

text \<open>\<open>same_links s s'\<close>: the same objects are live and linked in the same way.\<close>

definition same_links :: "kernel \<Rightarrow> kernel \<Rightarrow> bool" where
  "same_links s s' \<longleftrightarrow>
     devices s' = devices s \<and> lists s' = lists s \<and> kcalls s \<le> kcalls s' \<and>
     (\<forall>a. map_option (\<lambda>n. (channelId n, msg n, nxt n)) (nodes s' a) =
        map_option (\<lambda>n. (channelId n, msg n, nxt n)) (nodes s a)) \<and>
     (\<forall>a. map_option length (bufs s' a) = map_option length (bufs s a))"

lemma same_linksD:
  assumes "same_links s s'"
  shows "nodes s a = Some n \<Longrightarrow> \<exists>n'. nodes s' a = Some n' \<and> channelId n' = channelId n \<and>
      msg n' = msg n \<and> nxt n' = nxt n"
    and "bufs s a = Some b \<Longrightarrow> \<exists>b'. bufs s' a = Some b' \<and> length b' = length b"
    and "dom (nodes s') = dom (nodes s)" and "dom (bufs s') = dom (bufs s)"
proof -
  have n: "map_option (\<lambda>n. (channelId n, msg n, nxt n)) (nodes s' a) =
      map_option (\<lambda>n. (channelId n, msg n, nxt n)) (nodes s a)"
    and b: "map_option length (bufs s' a) = map_option length (bufs s a)" for a
    using assms by (simp_all add: same_links_def)
  show "nodes s a = Some n \<Longrightarrow> \<exists>n'. nodes s' a = Some n' \<and> channelId n' = channelId n \<and>
      msg n' = msg n \<and> nxt n' = nxt n"
    using n [of a] by auto
  show "bufs s a = Some b \<Longrightarrow> \<exists>b'. bufs s' a = Some b' \<and> length b' = length b"
    using b [of a] by auto
  have "nodes s' a = None \<longleftrightarrow> nodes s a = None" for a using n [of a] by auto
  moreover have "bufs s' a = None \<longleftrightarrow> bufs s a = None" for a using b [of a] by auto
  ultimately show "dom (nodes s') = dom (nodes s)" "dom (bufs s') = dom (bufs s)"
    by (simp_all add: dom_def)
qed

lemma same_links_chan: "same_links s s' \<Longrightarrow> chan (nodes s') a = chan (nodes s) a"
proof (cases "nodes s a")
  case None
  assume "same_links s s'"
  then have "nodes s' a = None" using same_linksD(3) None by blast
  then show ?thesis using None by (simp add: chan_def)
next
  case (Some n)
  assume "same_links s s'"
  then show ?thesis using same_linksD(1) [of s s' a n] Some by (auto simp: chan_def)
qed

lemma same_links_seg: "same_links s s' \<Longrightarrow> seg nxt (nodes s) p as q \<Longrightarrow> seg nxt (nodes s') p as q"
proof (induction as arbitrary: p)
  case (Cons a as)
  then obtain n where "p = Ref a" "nodes s a = Some n" "seg nxt (nodes s) (nxt n) as q" by auto
  then show ?case using Cons same_linksD(1) [of s s' a n] by auto
qed simp

lemma shape_same_links:
  assumes "shape s G" and "same_links s s'"
  shows "shape s' G"
proof -
  have flds: "devices s' = devices s" "lists s' = lists s" "kcalls s \<le> kcalls s'"
    using assms(2) by (simp_all add: same_links_def)
  note doms = same_linksD(3,4) [OF assms(2)]
  have "devices_ok s' G"
    unfolding devices_ok_def flds
    using device_ok_nodes [OF shape_device [OF assms(1)]] same_links_seg [OF assms(2)] flds
      ascending_cong [OF shape_ascending [OF assms(1)]] same_links_chan [OF assms(2)] by metis
  moreover have "apart s' G" using shapeD(3) [OF assms(1)] by (simp add: apart_def flds)
  moreover have "owned s' G" using shapeD(4) [OF assms(1)] by (simp add: owned_def flds doms)
  moreover have "heap_ok s'"
    unfolding heap_ok_def
  proof (intro conjI ballI)
    fix a assume "a \<in> dom (nodes s')"
    then have "node_ok s a" using shape_node_ok [OF assms(1)] doms by simp
    then obtain n b where "nodes s a = Some n" "msg n = Ref (Suc a)" "bufs s (Suc a) = Some b"
        "length b = MSG_MAX_LENGTH"
      by (auto simp: node_ok_def)
    then show "node_ok s' a"
      using same_linksD(1) [OF assms(2), of a n] same_linksD(2) [OF assms(2), of "Suc a" b]
      by (auto simp: node_ok_def)
  next
    fix a assume "a \<in> dom (nodes s') \<union> dom (bufs s') \<union> dom (lists s')"
    then show "a < kcalls s'"
      using shape_bound [OF assms(1), of a] doms flds by (metis UnE less_le_trans)
  qed
  ultimately show ?thesis using shapeD(1) [OF assms(1)] by (simp add: shape_def flds)
qed

lemma same_links_refl [simp]: "same_links s s"
  by (simp add: same_links_def)

lemma same_links_calls [simp]: "kcalls s \<le> k \<Longrightarrow> same_links s (s\<lparr>kcalls := k\<rparr>)"
  by (simp add: same_links_def)

section \<open>What is stored\<close>

text \<open>The message a node holds: the first \<open>msgLength\<close> bytes of its buffer.\<close>

definition node_msg :: "kernel \<Rightarrow> nat \<Rightarrow> bytes option" where
  "node_msg s a =
     (case nodes s a of None \<Rightarrow> None
      | Some n \<Rightarrow> (case (msgLength n, msg n) of
                     (Some k, Ref b) \<Rightarrow> map_option (take (nat k)) (bufs s b)
                   | _ \<Rightarrow> None))"

text \<open>The message of channel \<open>ch\<close> of device \<open>m\<close>.\<close>

definition stored :: "kernel \<Rightarrow> nat \<Rightarrow> int \<Rightarrow> bytes option" where
  "stored s m ch =
     (case device_slot m s of
        Ok lst \<Rightarrow>
          if lst = Null then None
          else (case findChannelId lst ch s of Ok (Ref a) \<Rightarrow> node_msg s a | _ \<Rightarrow> None)
      | _ \<Rightarrow> None)"

lemma device_slot_ok: "shape s G \<Longrightarrow> m < 256 \<Longrightarrow> device_slot m s = Ok (devices s ! (m + 1))"
  using shapeD(1) by (simp add: device_slot_def)

lemma device_cases:
  assumes "shape s G" and "m < 256"
  obtains "devices s ! (m + 1) = Null" "G m = []"
  | l where "devices s ! (m + 1) = Ref l"
  using shape_device [OF assms] by (auto simp: device_ok_def)

lemma find_unwritten:
  assumes "shape s G" and "m < 256" and "devices s ! (m + 1) = Ref l" and "G m = []"
  shows "findChannelId (Ref l) ch s = Fault Uninit"
  using shape_device [OF assms(1,2)] assms(3,4) by (auto simp: device_ok_def findChannelId_def)

lemma stored_eq:
  assumes "shape s G" and "m < 256"
  shows "stored s m ch =
    (case dropWhile (\<lambda>a. chan (nodes s) a \<noteq> ch) (G m) of [] \<Rightarrow> None | a # _ \<Rightarrow> node_msg s a)"
proof (cases rule: device_cases [OF assms])
  case 1
  then show ?thesis by (simp add: stored_def device_slot_ok [OF assms])
next
  case (2 l)
  show ?thesis
  proof (cases "G m = []")
    case True
    then show ?thesis
      using 2 find_unwritten [OF assms 2 True] by (simp add: stored_def device_slot_ok [OF assms])
  next
    case False
    then show ?thesis
      using 2 findChannelId_ok [OF assms 2 False]
      by (simp add: stored_def device_slot_ok [OF assms] case_to_ptr)
  qed
qed

lemma ascending_inj:
  assumes "ascending h as" and "a \<in> set as" and "b \<in> set as" and "chan h a = chan h b"
  shows "a = b"
proof -
  have "distinct (map (chan h) as)" using assms(1) by (simp add: ascending_def strict_sorted_iff)
  then show ?thesis using assms(2-4) by (meson distinct_map inj_onD)
qed

lemma stored_at:
  assumes "shape s G" and "m < 256" and "a \<in> set (G m)" and "chan (nodes s) a = ch"
  shows "stored s m ch = node_msg s a"
proof (cases "dropWhile (\<lambda>a. chan (nodes s) a \<noteq> ch) (G m)")
  case Nil
  then show ?thesis using assms(3,4) by (auto simp: dropWhile_eq_Nil_conv)
next
  case (Cons b bs)
  have "b \<in> set (dropWhile (\<lambda>a. chan (nodes s) a \<noteq> ch) (G m))" unfolding Cons by simp
  then have "b \<in> set (G m)" by (rule set_dropWhileD)
  moreover have "chan (nodes s) b = ch"
    using hd_dropWhile [of "\<lambda>a. chan (nodes s) a \<noteq> ch" "G m"] Cons by simp
  ultimately have b: "b \<in> set (G m)" "chan (nodes s) b = ch" by simp_all
  then have "b = a" using ascending_inj [OF shape_ascending [OF assms(1,2)]] assms(3,4) by simp
  then show ?thesis using Cons by (simp add: stored_eq [OF assms(1,2)])
qed

lemma stored_none:
  assumes "shape s G" and "m < 256" and "\<forall>a \<in> set (G m). chan (nodes s) a \<noteq> ch"
  shows "stored s m ch = None"
proof -
  have "dropWhile (\<lambda>a. chan (nodes s) a \<noteq> ch) (G m) = []"
    using assms(3) by (simp add: dropWhile_eq_Nil_conv)
  then show ?thesis unfolding stored_eq [OF assms(1,2)] by (simp only: list.case)
qed

text \<open>Two states agree on a channel if they have the same node for it, with the same contents.\<close>

lemma stored_cong:
  assumes "shape s G" and "shape s' G'" and "m < 256"
    and "{a \<in> set (G' m). chan (nodes s') a = ch} = {a \<in> set (G m). chan (nodes s) a = ch}"
    and "\<And>a. a \<in> set (G m) \<Longrightarrow> chan (nodes s) a = ch \<Longrightarrow> node_msg s' a = node_msg s a"
  shows "stored s' m ch = stored s m ch"
proof (cases "\<exists>a \<in> set (G m). chan (nodes s) a = ch")
  case True
  then obtain a where a: "a \<in> set (G m)" "chan (nodes s) a = ch" by blast
  then have "a \<in> set (G' m)" "chan (nodes s') a = ch" using assms(4) by blast+
  then show ?thesis using stored_at [OF assms(2,3)] stored_at [OF assms(1,3) a] assms(5) [OF a] by simp
next
  case False
  then have "\<forall>a \<in> set (G' m). chan (nodes s') a \<noteq> ch" using assms(4) by blast
  then show ?thesis
    using stored_none [OF assms(2,3)] stored_none [OF assms(1,3)] False by simp
qed

end
