(* ===== verification/Msg_Slot_Ops.thy ===== *)
theory Msg_Slot_Ops
  imports Msg_Slot
begin

text \<open>
  What the file operations of the kernel module do to the stored messages: each operation keeps
  the shape of the heap, changes at most the channel it works on, and releases its temporary
  memory. From this follow memory safety of every history of calls, that a message written is
  the message read, and that unloading the module frees everything.
\<close>

section \<open>Finding or making the node to write to\<close>

definition slots_inv :: "kernel \<Rightarrow> (nat \<Rightarrow> nat list) \<Rightarrow> bool" where
  "slots_inv s G \<longleftrightarrow> shape s G \<and> lengths_ok s"

text \<open>\<open>grown m a s G s1 G1\<close>: device \<open>m\<close> has the node \<open>a\<close> now, all else is as before.\<close>

definition grown :: "nat \<Rightarrow> nat \<Rightarrow> kernel \<Rightarrow> (nat \<Rightarrow> nat list) \<Rightarrow> kernel \<Rightarrow> (nat \<Rightarrow> nat list) \<Rightarrow> bool" where
  "grown m a s G s1 G1 \<longleftrightarrow>
     shape s1 G1 \<and> set (G1 m) = insert a (set (G m)) \<and> (\<forall>m'. m' \<noteq> m \<longrightarrow> G1 m' = G m') \<and>
     length (G1 m) \<le> length (G m) + 1 \<and> devices s1 = devices s \<and>
     (\<forall>b \<in> dom (nodes s). chan (nodes s1) b = chan (nodes s) b \<and> node_msg s1 b = node_msg s b) \<and>
     (\<forall>b n. b \<noteq> a \<longrightarrow> nodes s1 b = Some n \<longrightarrow>
        (\<exists>n'. nodes s b = Some n' \<and> msgLength n = msgLength n'))"

lemma grown_unchanged: "shape s G \<Longrightarrow> a \<in> set (G m) \<Longrightarrow> grown m a s G s G"
  by (auto simp: grown_def)

lemma grown_link_in:
  assumes "shape s G" and "m < 256" and "devices s ! (m + 1) = Ref l" and "G m = xs @ ys"
    and "\<forall>a \<in> set xs. chan (nodes s) a < ch" and "\<forall>a \<in> set ys. ch < chan (nodes s) a"
    and "length (G m) + 1 < 2 ^ 31"
  shows "grown m (kcalls s) s G (link_in l ch xs ys s) (G(m := xs @ kcalls s # ys))"
    and "chan (nodes (link_in l ch xs ys s)) (kcalls s) = ch"
proof -
  let ?k = "kcalls s" and ?s = "link_in l ch xs ys s"
  have flds: "nodes ?s = link_nodes ch xs ys s" "devices ?s = devices s"
      "bufs ?s = (bufs s)(Suc ?k \<mapsto> replicate MSG_MAX_LENGTH None)"
    by (simp_all add: link_in_def Let_def)
  have k: "nodes s ?k = None" using shape_fresh(1) [OF assms(1) le_refl] .
  have last: "last xs \<in> dom (nodes s)" "last xs \<noteq> ?k" if "xs \<noteq> []"
    using shape_member [OF assms(1,2), of "last xs"] assms(4) that k by auto
  then have new: "link_nodes ch xs ys s ?k = Some \<lparr>channelId = ch, msg = Ref (Suc ?k),
      msgLength = None, nxt = to_ptr ys\<rparr>"
    by (intro link_nodes_new) simp
  then show "chan (nodes ?s) ?k = ch" by (simp add: flds chan_def)
  have "chan (nodes ?s) b = chan (nodes s) b \<and> node_msg ?s b = node_msg s b"
    if b: "b \<in> dom (nodes s)" for b
  proof -
    have bk: "b \<noteq> ?k" using b k by auto
    have "node_ok s b" using shape_node_ok [OF assms(1) b] .
    then obtain n ba where n: "nodes s b = Some n" "msg n = Ref (Suc b)" "bufs s (Suc b) = Some ba"
      by (auto simp: node_ok_def)
    moreover have "bufs ?s (Suc b) = Some ba" using n(3) bk by (simp add: flds)
    moreover have "\<exists>n1. nodes ?s b = Some n1 \<and> msg n1 = msg n \<and> msgLength n1 = msgLength n"
      using n(1) bk by (auto simp: flds link_nodes_other)
    then obtain n1 where "nodes ?s b = Some n1" "msg n1 = msg n" "msgLength n1 = msgLength n"
      by blast
    ultimately have "node_msg ?s b = node_msg s b" by (simp add: node_msg_def split: option.split)
    then show ?thesis using chan_link_nodes [OF bk b] by (simp add: flds)
  qed
  moreover have "\<exists>n'. nodes s b = Some n' \<and> msgLength n = msgLength n'"
    if "b \<noteq> ?k" "link_nodes ch xs ys s b = Some n" for b n
    using that last by (auto simp: link_nodes_other split: if_splits)
  ultimately show "grown m ?k s G ?s (G(m := xs @ ?k # ys))"
    using shape_link_in [OF assms] assms(4) by (auto simp: grown_def flds)
qed

lemma ascending_split:
  assumes "ascending h as"
    and "dropWhile (\<lambda>a. chan h a < ch) as \<noteq> [] \<longrightarrow> chan h (hd (dropWhile (\<lambda>a. chan h a < ch) as)) \<noteq> ch"
  shows "\<forall>a \<in> set (takeWhile (\<lambda>a. chan h a < ch) as). chan h a < ch"
    and "\<forall>a \<in> set (dropWhile (\<lambda>a. chan h a < ch) as). ch < chan h a"
proof -
  let ?P = "\<lambda>a. chan h a < ch"
  show "\<forall>a \<in> set (takeWhile ?P as). chan h a < ch" by (blast dest: set_takeWhileD)
  show "\<forall>a \<in> set (dropWhile ?P as). ch < chan h a"
  proof (cases "dropWhile ?P as")
    case Nil
    then show ?thesis unfolding Nil by simp
  next
    case (Cons b bs)
    have "\<not> chan h b < ch" using hd_dropWhile [of ?P as] Cons by simp
    moreover have "chan h b \<noteq> ch" using assms(2) Cons by simp
    ultimately have b: "ch < chan h b" by simp
    have "sorted_wrt (<) (map (chan h) (takeWhile ?P as @ b # bs))"
      using assms(1) Cons unfolding ascending_def by (metis takeWhile_dropWhile_id)
    then have "\<forall>a \<in> set bs. chan h b < chan h a" by (simp add: sorted_wrt_append)
    then show ?thesis unfolding Cons using b by auto
  qed
qed

lemma getOrCreateNode_result:
  assumes "shape s G" and "m < 256" and "devices s ! (m + 1) = Ref l"
    and "length (G m) + 1 < 2 ^ 31"
  obtains (failed) k where "getOrCreateNode km (Ref l) ch s = Ok (Null, s\<lparr>kcalls := k\<rparr>)"
      and "kcalls s \<le> k"
  | (found) a s1 G1 where "getOrCreateNode km (Ref l) ch s = Ok (Ref a, s1)"
      and "grown m a s G s1 G1" and "chan (nodes s1) a = ch"
proof -
  let ?P = "\<lambda>b. chan (nodes s) b < ch"
  define lo where "lo = takeWhile ?P (G m)"
  define hi where "hi = dropWhile ?P (G m)"
  have G: "G m = lo @ hi" by (simp add: lo_def hi_def)
  have eq: "getOrCreateNode km (Ref l) ch s =
    (if hi \<noteq> [] \<and> chan (nodes s) (hd hi) = ch then Ok (Ref (hd hi), s)
     else Ok (created km l ch lo hi s))"
    unfolding getOrCreateNode_eq [OF assms(1-3)] Let_def lo_def hi_def by (rule refl)
  show thesis
  proof (cases "hi \<noteq> [] \<and> chan (nodes s) (hd hi) = ch")
    case True
    then have "hd hi \<in> set (G m)" unfolding G by auto
    then show thesis using found [of "hd hi" s G] eq True grown_unchanged [OF assms(1)] by simp
  next
    case False
    then have lohi: "\<forall>a \<in> set lo. chan (nodes s) a < ch" "\<forall>a \<in> set hi. ch < chan (nodes s) a"
      using ascending_split [OF shape_ascending [OF assms(1,2)], of ch]
      unfolding lo_def hi_def by blast+
    show thesis
    proof (cases "km (kcalls s) \<and> km (Suc (kcalls s))")
      case True
      then show thesis
        using found [OF _ grown_link_in [OF assms(1-3) G lohi assms(4)]] eq False
        by (auto simp: created_def Let_def)
    next
      case no: False
      then show thesis
        using failed [of "if km (kcalls s) then Suc (Suc (kcalls s)) else Suc (kcalls s)"] eq False
        by (auto simp: created_def Let_def)
    qed
  qed
qed

section \<open>Writing\<close>

lemma write_node_eq:
  assumes "nodes s a = Some n" and "msg n = Ref (Suc a)" and "bufs s (Suc a) = Some b"
    and "length b = MSG_MAX_LENGTH" and "bufs s (kcalls s) = None" and "len \<le> BUF_LEN"
  shows "write_node km (Ref a) src len s =
    (let s' = s\<lparr>nodes := (nodes s)(a \<mapsto> n\<lparr>msgLength := Some (int len)\<rparr>),
               kcalls := Suc (kcalls s)\<rparr>
     in if km (kcalls s) \<and> len \<le> length src
        then Ok (int len, s'\<lparr>bufs := (bufs s)(Suc a \<mapsto> map Some (take len src) @ drop len b)\<rparr>)
        else Ok (- ENOSPC, s'))"
proof -
  have "Suc a \<noteq> kcalls s" using assms(3,5) by auto
  moreover have "(bufs s)(kcalls s := None) = bufs s" using assms(5) by auto
  moreover have "min (length src) len = len" if "len \<le> length src" using that by simp
  ultimately show ?thesis
    using assms
    by (cases s) (auto simp: write_node_def update_node_def kmalloc_buf_def setMsg_def memcpy_def
        Let_def BUF_LEN_def MSG_MAX_LENGTH_def fun_upd_twist [of "kcalls s"])
qed

lemma grown_stored:
  assumes "shape s G" and "grown m a s G s1 G1" and "chan (nodes s1) a = ch"
    and "m' < 256" and "m' \<noteq> m \<or> ch' \<noteq> ch"
  shows "stored s1 m' ch' = stored s m' ch'"
proof -
  have g: "shape s1 G1" "set (G1 m) = insert a (set (G m))" "\<And>m'. m' \<noteq> m \<Longrightarrow> G1 m' = G m'"
      "\<And>b. b \<in> dom (nodes s) \<Longrightarrow> chan (nodes s1) b = chan (nodes s) b \<and> node_msg s1 b = node_msg s b"
    using assms(2) by (simp_all add: grown_def)
  have mem: "b \<in> dom (nodes s)" if "b \<in> set (G m')" for b
    using shape_member [OF assms(1,4) that] .
  have "x \<in> set (G1 m') \<and> chan (nodes s1) x = ch' \<longleftrightarrow> x \<in> set (G m') \<and> chan (nodes s) x = ch'" for x
  proof (cases "m' = m")
    case True
    then have ne: "ch' \<noteq> ch" using assms(5) by simp
    show ?thesis
    proof (cases "x = a")
      case True
      then show ?thesis using ne assms(3) g(4) [of a] mem [of a] by auto
    next
      case False
      then show ?thesis using True g(2) g(4) [of x] mem [of x] by auto
    qed
  next
    case False
    then show ?thesis using g(3) [OF False] g(4) [of x] mem [of x] by auto
  qed
  then have "{x \<in> set (G1 m'). chan (nodes s1) x = ch'} = {x \<in> set (G m'). chan (nodes s) x = ch'}"
    by blast
  then show ?thesis
    using g(4) mem by (intro stored_cong [OF assms(1) g(1) assms(4)]) simp_all
qed

lemma write_node_effect:
  assumes "shape s G" and "m < 256" and "a \<in> set (G m)" and "0 < len" and "len \<le> BUF_LEN"
    and "\<forall>b n. b \<noteq> a \<longrightarrow> nodes s b = Some n \<longrightarrow>
      (\<exists>k. msgLength n = Some (int k) \<and> 0 < k \<and> k \<le> MSG_MAX_LENGTH)"
  shows "\<exists>r s'. write_node km (Ref a) src len s = Ok (r, s') \<and> slots_inv s' G \<and>
    devices s' = devices s \<and>
    (\<forall>m' < 256. \<forall>ch'. m' \<noteq> m \<or> ch' \<noteq> chan (nodes s) a \<longrightarrow> stored s' m' ch' = stored s m' ch') \<and>
    (if km (kcalls s) \<and> len \<le> length src
     then r = int len \<and> stored s' m (chan (nodes s) a) = Some (map Some (take len src))
     else r = - ENOSPC)"
proof -
  let ?ch = "chan (nodes s) a"
  have "node_ok s a" using shape_node_ok [OF assms(1) shape_member [OF assms(1-3)]] .
  then obtain n b where n: "nodes s a = Some n" "msg n = Ref (Suc a)" "bufs s (Suc a) = Some b"
      "length b = MSG_MAX_LENGTH"
    by (auto simp: node_ok_def)
  have k: "bufs s (kcalls s) = None" using shape_fresh(2) [OF assms(1) le_refl] .
  let ?s = "s\<lparr>nodes := (nodes s)(a \<mapsto> n\<lparr>msgLength := Some (int len)\<rparr>), kcalls := Suc (kcalls s)\<rparr>"
  let ?b = "map Some (take len src) @ drop len b"
  let ?done = "km (kcalls s) \<and> len \<le> length src"
  let ?s' = "if ?done then ?s\<lparr>bufs := (bufs s)(Suc a \<mapsto> ?b)\<rparr> else ?s"
  let ?r = "if ?done then int len else - ENOSPC"
  have eq: "write_node km (Ref a) src len s = Ok (?r, ?s')"
    unfolding write_node_eq [OF n k assms(5)] Let_def by (cases ?done) auto
  have links: "same_links s ?s'"
    using n assms(5) by (auto simp: same_links_def BUF_LEN_def MSG_MAX_LENGTH_def)
  have sh: "shape ?s' G" using shape_same_links [OF assms(1) links] .
  have len_ok: "lengths_ok ?s'"
    using assms(4-6) by (auto simp: lengths_ok_def BUF_LEN_def MSG_MAX_LENGTH_def)
  have chan': "chan (nodes ?s') x = chan (nodes s) x" for x
    using same_links_chan [OF links] .
  have other: "node_msg ?s' x = node_msg s x" if x: "x \<in> dom (nodes s)" "x \<noteq> a" for x
  proof -
    obtain nx where "nodes s x = Some nx" "msg nx = Ref (Suc x)"
      using shape_node_ok [OF assms(1) x(1)] by (auto simp: node_ok_def)
    then show ?thesis using x(2) by (simp add: node_msg_def split: option.split)
  qed
  have "stored ?s' m' ch' = stored s m' ch'" if m': "m' < 256" and ne: "m' \<noteq> m \<or> ch' \<noteq> ?ch"
    for m' ch'
  proof (rule stored_cong [OF assms(1) sh m'])
    fix x assume x: "x \<in> set (G m')" "chan (nodes s) x = ch'"
    have "x \<noteq> a"
    proof
      assume "x = a"
      then have "m' \<noteq> m" using x(2) ne by auto
      then show False using shape_apart(1) [OF assms(1) m' assms(2)] x(1) assms(3) \<open>x = a\<close> by blast
    qed
    then show "node_msg ?s' x = node_msg s x"
      using other shape_member [OF assms(1) m' x(1)] by blast
  qed (simp only: chan')
  moreover have "stored ?s' m ?ch = Some (map Some (take len src))" if "?done"
  proof -
    have "stored ?s' m ?ch = node_msg ?s' a" using stored_at [OF sh assms(2,3)] chan' by blast
    also have "\<dots> = Some (map Some (take len src))"
      using that n by (simp add: node_msg_def take_map)
    finally show ?thesis .
  qed
  ultimately show ?thesis
    using eq sh len_ok by (intro exI [of _ ?r] exI [of _ ?s']) (simp add: slots_inv_def)
qed

lemma node_msg_same:
  "nodes s' a = nodes s a \<Longrightarrow> bufs s' = bufs s \<Longrightarrow> node_msg s' a = node_msg s a"
  by (simp only: node_msg_def)

lemma calls_only:
  assumes "shape s G" and "kcalls s \<le> k"
  shows "shape (s\<lparr>kcalls := k\<rparr>) G"
    and "m < 256 \<Longrightarrow> stored (s\<lparr>kcalls := k\<rparr>) m ch = stored s m ch"
proof -
  show sh: "shape (s\<lparr>kcalls := k\<rparr>) G" using shape_same_links [OF assms(1)] assms(2) by simp
  have "node_msg (s\<lparr>kcalls := k\<rparr>) a = node_msg s a" for a by (rule node_msg_same) simp_all
  then show "m < 256 \<Longrightarrow> stored (s\<lparr>kcalls := k\<rparr>) m ch = stored s m ch"
    by (intro stored_cong [OF assms(1) sh]) simp_all
qed

text \<open>The result of a write: it changes at most its own channel.\<close>

lemma device_write_effect:
  assumes "slots_inv s G" and "minor f < 256" and "length (G (minor f)) + 1 < 2 ^ 31"
  shows "\<exists>r s' G'. device_write km f src len s = Ok (r, s') \<and> slots_inv s' G' \<and>
    (\<forall>m. length (G' m) \<le> length (G m) + 1) \<and> devices s' = devices s \<and>
    (\<forall>m < 256. \<forall>ch. m \<noteq> minor f \<or> ch \<noteq> to_int (private_data f) \<longrightarrow>
       stored s' m ch = stored s m ch) \<and>
    (r < 0 \<or> (\<exists>bs. src = Bytes bs \<and> len \<le> length bs \<and> r = int len \<and> 0 < len \<and>
       stored s' (minor f) (to_int (private_data f)) = Some (map Some (take len bs))))"
proof -
  let ?m = "minor f" and ?ch = "to_int (private_data f)"
  have sh: "shape s G" and lens: "lengths_ok s" using assms(1) by (simp_all add: slots_inv_def)
  have same: "\<exists>r' s' G'. Ok (r, s) = Ok (r', s') \<and> slots_inv s' G' \<and>
      (\<forall>m. length (G' m) \<le> length (G m) + 1) \<and> devices s' = devices s \<and>
      (\<forall>m < 256. \<forall>ch. m \<noteq> ?m \<or> ch \<noteq> ?ch \<longrightarrow> stored s' m ch = stored s m ch) \<and>
      (r' < 0 \<or> R r' s')" if "r < 0" for r R
    using assms(1) that by (intro exI [of _ r] exI [of _ s] exI [of _ G]) auto
  show ?thesis
  proof (cases "len > BUF_LEN \<or> len \<le> 0 \<or> private_data f = 0 \<or> src = SrcNull \<or>
      devices s ! (?m + 1) = Null")
    case True
    then have "\<exists>r. r < 0 \<and> device_write km f src len s = Ok (r, s)"
      using device_slot_ok [OF sh assms(2)]
      by (auto simp: device_write_def EMSGSIZE_def EINVAL_def ENOSPC_def split: user_src.split)
    then obtain r where r: "r < 0" and w: "device_write km f src len s = Ok (r, s)" by blast
    show ?thesis unfolding w by (rule same [OF r])
  next
    case False
    then obtain bs where bs: "src = Bytes bs" by (cases src) auto
    obtain l where l: "devices s ! (?m + 1) = Ref l"
      using False by (cases rule: device_cases [OF sh assms(2)]) auto
    have run: "device_write km f src len s =
        bindR (getOrCreateNode km (Ref l) ?ch s) (\<lambda>(p, s1).
          if p = Null then Ok (- ENOSPC, s1) else write_node km p bs len s1)"
      using False bs l device_slot_ok [OF sh assms(2)] by (simp add: device_write_def)
    show ?thesis
    proof (cases rule: getOrCreateNode_result [where km = km and ch = ?ch, OF sh assms(2) l assms(3)])
      case (1 k)
      let ?s = "s\<lparr>kcalls := k\<rparr>"
      show ?thesis
        unfolding run 1(1) using calls_only [OF sh 1(2)] lens
        by (intro exI [of _ "- ENOSPC"] exI [of _ ?s] exI [of _ G])
          (simp add: slots_inv_def lengths_ok_def ENOSPC_def)
    next
      case (2 a s1 G1)
      have g: "shape s1 G1" "set (G1 ?m) = insert a (set (G ?m))"
          "\<And>m'. m' \<noteq> ?m \<Longrightarrow> G1 m' = G m'" "length (G1 ?m) \<le> length (G ?m) + 1"
          "devices s1 = devices s"
        using 2(2) by (simp_all add: grown_def)
      have lens1: "\<forall>b n. b \<noteq> a \<longrightarrow> nodes s1 b = Some n \<longrightarrow>
        (\<exists>k. msgLength n = Some (int k) \<and> 0 < k \<and> k \<le> MSG_MAX_LENGTH)"
      proof (intro allI impI)
        fix b n assume b: "b \<noteq> a" "nodes s1 b = Some n"
        obtain n' where "nodes s b = Some n'" "msgLength n = msgLength n'"
          using 2(2) b unfolding grown_def by blast
        then show "\<exists>k. msgLength n = Some (int k) \<and> 0 < k \<and> k \<le> MSG_MAX_LENGTH"
          using lens unfolding lengths_ok_def by metis
      qed
      have a: "a \<in> set (G1 ?m)" using g(2) by blast
      have pos: "0 < len" "len \<le> BUF_LEN" using False by auto
      obtain r s' where w: "write_node km (Ref a) bs len s1 = Ok (r, s')" "slots_inv s' G1"
          "devices s' = devices s1"
          "\<And>m' ch'. m' < 256 \<Longrightarrow> m' \<noteq> ?m \<or> ch' \<noteq> ?ch \<Longrightarrow> stored s' m' ch' = stored s1 m' ch'"
          "if km (kcalls s1) \<and> len \<le> length bs
           then r = int len \<and> stored s' ?m ?ch = Some (map Some (take len bs)) else r = - ENOSPC"
        using write_node_effect [OF g(1) assms(2) a pos lens1, where km = km and src = bs] 2(3) by metis
      have "length (G1 m) \<le> length (G m) + 1" for m
        using g(3,4) by (cases "m = ?m") auto
      moreover have "stored s' m ch = stored s m ch" if "m < 256" "m \<noteq> ?m \<or> ch \<noteq> ?ch" for m ch
        using w(4) [OF that] grown_stored [OF sh 2(2,3) that] by simp
      moreover have "r < 0 \<or> (len \<le> length bs \<and> r = int len \<and>
          stored s' ?m ?ch = Some (map Some (take len bs)))"
        using w(5) by (auto simp: ENOSPC_def split: if_splits)
      moreover have "device_write km f src len s = Ok (r, s')"
        unfolding run 2(1) using w(1) by simp
      ultimately show ?thesis
        using w(2,3) g(5) bs pos by (intro exI [of _ r] exI [of _ s'] exI [of _ G1]) auto
    qed
  qed
qed

section \<open>Reading\<close>

text \<open>What a read returns, in terms of the stored message; it changes nothing.\<close>

lemma read_node_eq:
  assumes "nodes s a = Some n" and "msg n = Ref (Suc a)" and "bufs s (Suc a) = Some b"
    and "length b = MSG_MAX_LENGTH" and "bufs s (kcalls s) = None"
    and "msgLength n = Some (int k)" and "k \<le> MSG_MAX_LENGTH"
  shows "read_node km (Ref a) dst len s =
    (case dst of DstNull \<Rightarrow> Ok (- ENOSPC, [], s)
     | Room r \<Rightarrow>
         if len < k then Ok (- ENOSPC, [], s)
         else if \<not> km (kcalls s) then Ok (- ENOSPC, [], s\<lparr>kcalls := Suc (kcalls s)\<rparr>)
         else if k \<le> r then Ok (int k, take k b, s\<lparr>kcalls := Suc (kcalls s)\<rparr>)
         else Ok (- ENOSPC, take r (take k b), s\<lparr>kcalls := Suc (kcalls s)\<rparr>))"
proof -
  have "Suc a \<noteq> kcalls s" using assms(3,5) by auto
  moreover have "(bufs s)(kcalls s := None) = bufs s" using assms(5) by auto
  moreover have "s\<lparr>bufs := bufs s, kcalls := x\<rparr> = s\<lparr>kcalls := x\<rparr>" for x by (cases s) simp
  ultimately show ?thesis
    using assms
    by (cases s; cases dst) (auto simp: read_node_def kmalloc_buf_def memcpy_def Let_def)
qed

lemma device_read_eq:
  assumes "slots_inv s G" and "minor f < 256"
  shows "device_read km f dst len s =
    (if private_data f = 0 \<or> devices s ! (minor f + 1) = Null then Ok (- EINVAL, [], s)
     else if G (minor f) = [] then Fault Uninit
     else case stored s (minor f) (to_int (private_data f)) of
            None \<Rightarrow> Ok (- EWOULDBLOCK, [], s)
          | Some bs \<Rightarrow>
              (case dst of DstNull \<Rightarrow> Ok (- ENOSPC, [], s)
               | Room r \<Rightarrow>
                   if len < length bs then Ok (- ENOSPC, [], s)
                   else if \<not> km (kcalls s) then Ok (- ENOSPC, [], s\<lparr>kcalls := Suc (kcalls s)\<rparr>)
                   else if length bs \<le> r
                   then Ok (int (length bs), bs, s\<lparr>kcalls := Suc (kcalls s)\<rparr>)
                   else Ok (- ENOSPC, take r bs, s\<lparr>kcalls := Suc (kcalls s)\<rparr>)))"
proof -
  let ?m = "minor f" and ?ch = "to_int (private_data f)"
  have sh: "shape s G" and lens: "lengths_ok s" using assms(1) by (simp_all add: slots_inv_def)
  note slot = device_slot_ok [OF sh assms(2)]
  show ?thesis
  proof (cases "private_data f = 0 \<or> devices s ! (?m + 1) = Null")
    case True
    then show ?thesis using slot by (auto simp: device_read_def)
  next
    case False
    then obtain l where l: "devices s ! (?m + 1) = Ref l"
      by (cases rule: device_cases [OF sh assms(2)]) auto
    show ?thesis
    proof (cases "G ?m = []")
      case True
      then show ?thesis
        using False l slot find_unwritten [OF sh assms(2) l True] by (simp add: device_read_def)
    next
      case ne: False
      define as where "as = dropWhile (\<lambda>a. chan (nodes s) a \<noteq> ?ch) (G ?m)"
      have run: "device_read km f dst len s =
          (case as of [] \<Rightarrow> Ok (- EWOULDBLOCK, [], s)
           | a # _ \<Rightarrow> read_node km (Ref a) dst len s)"
        using False l slot findChannelId_ok [OF sh assms(2) l ne, of ?ch] unfolding as_def [symmetric]
        by (cases as) (simp_all add: device_read_def)
      note st_eq = stored_eq [OF sh assms(2), of ?ch, folded as_def]
      show ?thesis
      proof (cases as)
        case Nil
        then show ?thesis using False ne run st_eq by simp
      next
        case (Cons a as')
        have "a \<in> set (dropWhile (\<lambda>a. chan (nodes s) a \<noteq> ?ch) (G ?m))"
          using Cons unfolding as_def by (metis list.set_intros(1))
        then have "a \<in> set (G ?m)" by (rule set_dropWhileD)
        then have "node_ok s a" using shape_node_ok [OF sh shape_member [OF sh assms(2)]] by blast
        then obtain n b where n: "nodes s a = Some n" "msg n = Ref (Suc a)"
            "bufs s (Suc a) = Some b" "length b = MSG_MAX_LENGTH"
          by (auto simp: node_ok_def)
        obtain k where k: "msgLength n = Some (int k)" "k \<le> MSG_MAX_LENGTH"
          using lens n(1) unfolding lengths_ok_def by blast
        have st: "stored s ?m ?ch = Some (take k b)"
          using n k unfolding st_eq Cons by (simp add: node_msg_def)
        have "length (take k b) = k" using k n(4) by simp
        moreover have "device_read km f dst len s = read_node km (Ref a) dst len s"
          unfolding run Cons by simp
        ultimately show ?thesis
          using read_node_eq [OF n shape_fresh(2) [OF sh le_refl] k, of km dst len] False ne st
          by (simp split: user_dst.split)
      qed
    qed
  qed
qed

section \<open>Opening\<close>

lemma device_open_effect:
  assumes "slots_inv s G" and "m < 256"
  shows "\<exists>r s'. device_open km m s = Ok (r, s') \<and> slots_inv s' G \<and> r \<in> {0, -1} \<and>
    (r = 0 \<longrightarrow> devices s' ! (m + 1) \<noteq> Null) \<and>
    (\<forall>m' < 256. \<forall>ch. stored s' m' ch = stored s m' ch)"
proof -
  have sh: "shape s G" and lens: "lengths_ok s" using assms(1) by (simp_all add: slots_inv_def)
  note slot = device_slot_ok [OF sh assms(2)]
  show ?thesis
  proof (cases rule: device_cases [OF sh assms(2)])
    case (2 l)
    then show ?thesis using slot assms(1) by (simp add: device_open_def)
  next
    case 1
    let ?k = "kcalls s"
    show ?thesis
    proof (cases "km ?k")
      case False
      then have "device_open km m s = Ok (-1, s\<lparr>kcalls := Suc ?k\<rparr>)"
        using slot 1(1) list_update_id [of "devices s" "m + 1"]
        by (cases s) (simp add: device_open_def kmalloc_list_def Let_def)
      then show ?thesis
        using calls_only [OF sh, of "Suc ?k"] lens
        by (intro exI [of _ "-1"] exI [of _ "s\<lparr>kcalls := Suc ?k\<rparr>"])
          (simp add: slots_inv_def lengths_ok_def)
    next
      case True
      let ?s = "s\<lparr>devices := (devices s)[m + 1 := Ref ?k],
        lists := (lists s)(?k \<mapsto> \<lparr>first = Undef, list_size = 0\<rparr>), kcalls := Suc ?k\<rparr>"
      have run: "device_open km m s = Ok (0, ?s)"
        using True slot 1(1)
        by (cases s) (simp add: device_open_def kmalloc_list_def update_list_def Let_def)
      have len: "length (devices s) = 257" using shapeD(1) [OF sh] .
      have dev: "devices ?s ! (m' + 1) = (if m' = m then Ref ?k else devices s ! (m' + 1))"
        if "m' < 256" for m'
        using that len assms(2) by (simp add: nth_list_update)
      have fresh: "devices s ! (m' + 1) \<noteq> Ref ?k" if m': "m' < 256" for m'
      proof
        assume "devices s ! (m' + 1) = Ref ?k"
        then have "?k \<in> dom (lists s)" unfolding shape_dom(3) [OF sh] using m' by blast
        then show False using shape_fresh(3) [OF sh le_refl] by blast
      qed
      have "devices_ok ?s G"
        unfolding devices_ok_def
      proof (intro allI impI conjI)
        fix m' :: nat assume m': "m' < 256"
        show "ascending (nodes ?s) (G m')" using shape_ascending [OF sh m'] by simp
        show "device_ok ?s (G m') (devices ?s ! (m' + 1))"
        proof (cases "m' = m")
          case True
          then show ?thesis using dev [OF m'] 1(2) by (simp add: device_ok_def)
        next
          case False
          have "device_ok ?s (G m') (devices s ! (m' + 1))"
            using fresh [OF m'] by (intro device_ok_nodes [OF shape_device [OF sh m']]) auto
          then show ?thesis using dev [OF m'] False by simp
        qed
      qed
      moreover have "apart ?s G"
        unfolding apart_def
      proof (intro allI impI)
        fix m1 m2 :: nat assume ms: "m1 < 256" "m2 < 256" "m1 \<noteq> m2"
        show "set (G m1) \<inter> set (G m2) = {} \<and>
            (devices ?s ! (m1 + 1) = devices ?s ! (m2 + 1) \<longrightarrow> devices ?s ! (m1 + 1) = Null)"
          unfolding dev [OF ms(1)] dev [OF ms(2)]
          using shape_apart [OF sh ms] fresh [OF ms(1)] fresh [OF ms(2)] ms(3)
          by (cases "m1 = m"; cases "m2 = m") auto
      qed
      moreover have "owned ?s G"
      proof -
        have "{l. \<exists>m' < 256. devices ?s ! (m' + 1) = Ref l} =
            insert ?k {l. \<exists>m' < 256. devices s ! (m' + 1) = Ref l}"
        proof (intro set_eqI iffI)
          fix x assume "x \<in> {l. \<exists>m' < 256. devices ?s ! (m' + 1) = Ref l}"
          then obtain m' where m': "m' < 256" "devices ?s ! (m' + 1) = Ref x" by blast
          then show "x \<in> insert ?k {l. \<exists>m' < 256. devices s ! (m' + 1) = Ref l}"
            unfolding dev [OF m'(1)] by (cases "m' = m") auto
        next
          fix x assume "x \<in> insert ?k {l. \<exists>m' < 256. devices s ! (m' + 1) = Ref l}"
          then have x: "x = ?k \<or> (\<exists>m' < 256. devices s ! (m' + 1) = Ref x)" by blast
          show "x \<in> {l. \<exists>m' < 256. devices ?s ! (m' + 1) = Ref l}"
          proof (cases "x = ?k")
            case True
            then show ?thesis using dev [OF assms(2)] assms(2) by (intro CollectI exI [of _ m]) simp
          next
            case False
            then obtain m' where m': "m' < 256" "devices s ! (m' + 1) = Ref x" using x by blast
            then have "m' \<noteq> m" using 1(1) by auto
            then have "devices ?s ! (m' + 1) = Ref x" using dev [OF m'(1)] m'(2) by simp
            then show ?thesis using m'(1) by blast
          qed
        qed
        then show ?thesis using shapeD(4) [OF sh] shape_dom(3) [OF sh] by (simp add: owned_def)
      qed
      moreover have "heap_ok ?s"
        using shapeD(5) [OF sh] by (auto simp: heap_ok_def node_ok_def less_Suc_eq)
      ultimately have sh': "shape ?s G" using len by (simp add: shape_def)
      have "node_msg ?s a = node_msg s a" for a by (rule node_msg_same) simp_all
      then have "stored ?s m' ch = stored s m' ch" if "m' < 256" for m' ch
        using that by (intro stored_cong [OF sh sh']) simp_all
      then show ?thesis
        using run sh' lens dev [OF assms(2)]
        by (intro exI [of _ 0] exI [of _ ?s]) (simp add: slots_inv_def lengths_ok_def)
    qed
  qed
qed

section \<open>Histories of calls\<close>

fun writes_to :: "slot_op \<Rightarrow> nat \<Rightarrow> int \<Rightarrow> bool" where
  "writes_to (OpWrite f src n) m ch = (minor f = m \<and> to_int (private_data f) = ch)"
| "writes_to _ m ch = False"

text \<open>A read on a device that was opened but never written to.\<close>

fun reads_unwritten :: "kernel \<Rightarrow> slot_op \<Rightarrow> bool" where
  "reads_unwritten s (OpRead f dst n) =
     (private_data f \<noteq> 0 \<and>
      (case devices s ! (minor f + 1) of
         Ref l \<Rightarrow> (case lists s l of Some L \<Rightarrow> list_size L = 0 | None \<Rightarrow> False)
       | _ \<Rightarrow> False))"
| "reads_unwritten s _ = False"

lemma reads_unwritten_iff:
  assumes "shape s G" and "minor f < 256"
  shows "reads_unwritten s (OpRead f dst n) \<longleftrightarrow>
    private_data f \<noteq> 0 \<and> devices s ! (minor f + 1) \<noteq> Null \<and> G (minor f) = []"
proof (cases rule: device_cases [OF assms])
  case (2 l)
  then obtain L where "lists s l = Some L" "list_size L = of_nat (length (G (minor f)))"
      "length (G (minor f)) < 2 ^ 31"
    using shape_device [OF assms] by (auto simp: device_ok_def)
  then show ?thesis using 2 by (simp add: word_unat_eq_iff unat_of_nat take_bit_nat_def)
qed simp

lemma slot_step_effect:
  assumes "slots_inv s G" and "op_minor op < 256" and "\<forall>m. length (G m) + 1 < 2 ^ 31"
  shows "if reads_unwritten s op then slot_step km op s = Fault Uninit
    else \<exists>s' G'. slot_step km op s = Ok s' \<and> slots_inv s' G' \<and>
      (\<forall>m. length (G' m) \<le> length (G m) + 1) \<and>
      (\<forall>m < 256. \<forall>ch. \<not> writes_to op m ch \<longrightarrow> stored s' m ch = stored s m ch)"
proof (cases op)
  case (OpOpen m)
  then have "m < 256" using assms(2) by simp
  from device_open_effect [OF assms(1) this, of km] obtain r s' where
      run: "device_open km m s = Ok (r, s')" and inv: "slots_inv s' G"
      and st: "\<forall>m < 256. \<forall>ch. stored s' m ch = stored s m ch"
    by blast
  have "slot_step km op s = Ok s'" using run OpOpen by simp
  then have "\<exists>s' G'. slot_step km op s = Ok s' \<and> slots_inv s' G' \<and>
      (\<forall>m. length (G' m) \<le> length (G m) + 1) \<and>
      (\<forall>m < 256. \<forall>ch. \<not> writes_to op m ch \<longrightarrow> stored s' m ch = stored s m ch)"
    using inv st by (intro exI [of _ s'] exI [of _ G]) simp
  then show ?thesis using OpOpen by simp
next
  case (OpWrite f src n)
  then have "minor f < 256" using assms(2) by simp
  from device_write_effect [OF assms(1) this assms(3)[rule_format], of km src n] obtain r s' G' where
      run: "device_write km f src n s = Ok (r, s')" and inv: "slots_inv s' G'"
      and len: "\<forall>m. length (G' m) \<le> length (G m) + 1"
      and st: "\<forall>m < 256. \<forall>ch. m \<noteq> minor f \<or> ch \<noteq> to_int (private_data f) \<longrightarrow>
         stored s' m ch = stored s m ch"
    by blast
  have "slot_step km op s = Ok s'" using run OpWrite by simp
  moreover have "stored s' m ch = stored s m ch" if "m < 256" "\<not> writes_to op m ch" for m ch
    using st that OpWrite by auto
  ultimately have "\<exists>s' G'. slot_step km op s = Ok s' \<and> slots_inv s' G' \<and>
      (\<forall>m. length (G' m) \<le> length (G m) + 1) \<and>
      (\<forall>m < 256. \<forall>ch. \<not> writes_to op m ch \<longrightarrow> stored s' m ch = stored s m ch)"
    using inv len by (intro exI [of _ s'] exI [of _ G'] conjI) blast+
  then show ?thesis using OpWrite by simp
next
  case (OpRead f dst n)
  have sh: "shape s G" and lens: "lengths_ok s" using assms(1) by (simp_all add: slots_inv_def)
  have m: "minor f < 256" using assms(2) OpRead by simp
  note calls = calls_only [OF sh, of "Suc (kcalls s)"]
  show ?thesis
  proof (cases "reads_unwritten s op")
    case True
    then show ?thesis
      using OpRead reads_unwritten_iff [OF sh m] device_read_eq [OF assms(1) m, of km dst n] by simp
  next
    case False
    have "\<exists>r bs s'. device_read km f dst n s = Ok (r, bs, s') \<and>
        (s' = s \<or> s' = s\<lparr>kcalls := Suc (kcalls s)\<rparr>)"
      using False reads_unwritten_iff [OF sh m] device_read_eq [OF assms(1) m, of km dst n] OpRead
      by (auto split: option.split user_dst.split)
    then obtain r bs s' where s': "device_read km f dst n s = Ok (r, bs, s')"
        "s' = s \<or> s' = s\<lparr>kcalls := Suc (kcalls s)\<rparr>"
      by blast
    then have "slots_inv s' G" "\<forall>m < 256. \<forall>ch. stored s' m ch = stored s m ch"
      using assms(1) calls lens by (auto simp: slots_inv_def lengths_ok_def)
    moreover have "slot_step km op s = Ok s'" using OpRead s'(1) by simp
    ultimately show ?thesis using False by (auto intro!: exI [of _ G])
  qed
qed

lemma slots_run_simps [simp]:
  "slots_run km [] s = Ok s"
  "slots_run km (op # ops) s = bindR (slot_step km op s) (slots_run km ops)"
  by (simp_all add: slots_run_def)

lemma slots_run_effect:
  "slots_run km ops s = Ok s' \<Longrightarrow> slots_inv s G \<Longrightarrow> \<forall>op \<in> set ops. op_minor op < 256 \<Longrightarrow>
   \<forall>m. length (G m) + length ops < 2 ^ 31 \<Longrightarrow>
   \<exists>G'. slots_inv s' G' \<and> (\<forall>m. length (G' m) \<le> length (G m) + length ops) \<and>
     (\<forall>m < 256. \<forall>ch. (\<forall>op \<in> set ops. \<not> writes_to op m ch) \<longrightarrow> stored s' m ch = stored s m ch)"
proof (induction ops arbitrary: s G)
  case Nil
  then show ?case by (auto intro!: exI [of _ G])
next
  case (Cons op ops)
  obtain s1 where s1: "slot_step km op s = Ok s1" "slots_run km ops s1 = Ok s'"
    using Cons.prems(1) by auto
  have "\<forall>m. length (G m) + 1 < 2 ^ 31"
  proof
    fix m show "length (G m) + 1 < 2 ^ 31" using Cons.prems(4)[rule_format, of m] by simp
  qed
  then obtain G1 where G1: "slots_inv s1 G1" "\<forall>m. length (G1 m) \<le> length (G m) + 1"
      "\<forall>m < 256. \<forall>ch. \<not> writes_to op m ch \<longrightarrow> stored s1 m ch = stored s m ch"
    using slot_step_effect [OF Cons.prems(2), of op km] Cons.prems(3) s1(1)
    by (auto split: if_splits)
  have "\<forall>m. length (G1 m) + length ops < 2 ^ 31"
  proof
    fix m show "length (G1 m) + length ops < 2 ^ 31"
      using Cons.prems(4)[rule_format, of m] G1(2)[rule_format, of m] by simp
  qed
  then obtain G' where G': "slots_inv s' G'" "\<forall>m. length (G' m) \<le> length (G1 m) + length ops"
      "\<forall>m < 256. \<forall>ch. (\<forall>op \<in> set ops. \<not> writes_to op m ch) \<longrightarrow> stored s' m ch = stored s1 m ch"
    using Cons.IH [OF s1(2) G1(1)] Cons.prems(3) by auto
  have "length (G' m) \<le> length (G m) + length (op # ops)" for m
    using G'(2)[rule_format, of m] G1(2)[rule_format, of m] by simp
  then show ?case using G'(1,3) G1(3) by (intro exI [of _ G']) auto
qed

lemma init_inv: "slots_inv kernel_init (\<lambda>_. [])"
  using shape_init by (simp add: slots_inv_def lengths_ok_def kernel_init_def)

text \<open>The states a history of fewer than \<open>2^31\<close> calls leads to.\<close>

definition history :: "(nat \<Rightarrow> bool) \<Rightarrow> slot_op list \<Rightarrow> kernel \<Rightarrow> bool" where
  "history km ops s \<longleftrightarrow> slots_run km ops kernel_init = Ok s \<and>
     (\<forall>op \<in> set ops. op_minor op < 256) \<and> length ops + 1 < 2 ^ 31"

lemma history_inv:
  assumes "history km ops s"
  obtains G where "slots_inv s G" and "\<forall>m. length (G m) \<le> length ops"
  using slots_run_effect [of km ops kernel_init s "\<lambda>_. []"] assms init_inv
  by (auto simp: history_def)

text \<open>
  C17: No call of the module does anything undefined, whatever calls came before and whichever
  allocations and copies fail, with one exception: a read on a device that was opened but not
  written to reads the list head that \<open>device_open\<close> leaves uninitialised.
\<close>

theorem calls_are_safe:
  assumes "history km ops s" and "op_minor op < 256"
  shows "if reads_unwritten s op then slot_step km op s = Fault Uninit
    else \<exists>s'. slot_step km op s = Ok s'"
proof -
  obtain G where G: "slots_inv s G" "\<forall>m. length (G m) \<le> length ops"
    using history_inv [OF assms(1)] .
  have "length ops + 1 < 2 ^ 31" using assms(1) by (simp add: history_def)
  then have "length (G m) + 1 < 2 ^ 31" for m using G(2)[rule_format, of m] by linarith
  then show ?thesis using slot_step_effect [OF G(1) assms(2), of km] by auto
qed

definition example_file :: "nat \<Rightarrow> u64 \<Rightarrow> open_file" where
  "example_file m ch = \<lparr>private_data = ch, minor = m\<rparr>"

definition opened :: kernel where
  "opened = kernel_init\<lparr>devices := (replicate 257 Null)[4 := Ref 0],
     lists := [0 \<mapsto> \<lparr>first = Undef, list_size = 0\<rparr>], kcalls := 1\<rparr>"

lemma opened_run: "slots_run (\<lambda>_. True) [OpOpen 3] kernel_init = Ok opened"
  by (simp add: opened_def device_open_def device_slot_def kernel_init_def MAX_DEVICES_def
      kmalloc_list_def update_list_def Let_def)

lemma opened_history: "history (\<lambda>_. True) [OpOpen 3] opened"
  using opened_run by (simp add: history_def)

definition written :: kernel where
  "written =
     opened\<lparr>nodes := [1 \<mapsto> \<lparr>channelId = 7, msg = Ref 2, msgLength = Some 2, nxt = Null\<rparr>],
            bufs := [2 \<mapsto> [Some 65, Some 66] @ replicate 126 None],
            lists := [0 \<mapsto> \<lparr>first = Ref 1, list_size = 1\<rparr>], kcalls := 4\<rparr>"

lemma find_loop_numeral [simp]:
  "find_loop (numeral v) s ch p =
     bindR (non_null p) (\<lambda>nn.
       if nn
       then bindR (deref (nodes s) p) (\<lambda>n.
              if channelId n = ch then Ok p else find_loop (pred_numeral v) s ch (nxt n))
       else Ok Null)"
  by (simp add: numeral_eq_Suc)

lemmas create_loop_5 = create_loop.simps(2) [of 4, simplified]

lemma single_delete: "c \<noteq> a \<Longrightarrow> [a \<mapsto> b](c := None) = [a \<mapsto> b]"
  by auto

lemmas evaluate_slot =
  device_write_def device_slot_def getOrCreateNode_def createNode_eq update_list_def
  update_node_def write_node_def kmalloc_buf_def setMsg_def memcpy_def BUF_LEN_def
  MSG_MAX_LENGTH_def Let_def to_int_def example_file_def opened_def kernel_init_def
  single_delete

lemma written_run:
  "device_write (\<lambda>_. True) (example_file 3 7) (Bytes [65, 66]) 2 opened = Ok (2, written)"
  by (simp add: evaluate_slot written_def) (simp add: numeral_2_eq_2)

theorem calls_are_safe_witness:
  "slot_step (\<lambda>_. True) (OpRead (example_file 3 1) (Room 9) 9) opened = Fault Uninit"
  using calls_are_safe [OF opened_history, of "OpRead (example_file 3 1) (Room 9) 9"]
  by (simp add: example_file_def opened_def)

lemma write_then_read_lemma:
  assumes "history km ops s" and "minor f < 256"
    and "device_write km f (Bytes bs) len s = Ok (int len, s1)"
    and "slots_run km ops' s1 = Ok s2" and "\<forall>op \<in> set ops'. op_minor op < 256"
    and "length ops + length ops' + 1 < 2 ^ 31"
    and "\<forall>op \<in> set ops'. \<not> writes_to op (minor f) (to_int (private_data f))"
    and "minor g = minor f" and "private_data g = private_data f"
    and "len \<le> n" and "len \<le> room" and "km (kcalls s2)"
  shows "device_read km g (Room room) n s2 =
    Ok (int len, map Some (take len bs), s2\<lparr>kcalls := Suc (kcalls s2)\<rparr>)"
proof -
  let ?m = "minor f" and ?ch = "to_int (private_data f)"
  obtain G where G: "slots_inv s G" "\<forall>m. length (G m) \<le> length ops"
    using history_inv [OF assms(1)] .
  have "length (G ?m) + 1 < 2 ^ 31" using G(2)[rule_format, of ?m] assms(6) by linarith
  from device_write_effect [OF G(1) assms(2) this, of km "Bytes bs" len] assms(3)
  obtain G1 where G1: "slots_inv s1 G1" "\<forall>m. length (G1 m) \<le> length (G m) + 1" "len \<le> length bs"
      "stored s1 ?m ?ch = Some (map Some (take len bs))"
    by auto
  have "\<forall>m. length (G1 m) + length ops' < 2 ^ 31"
  proof
    fix m show "length (G1 m) + length ops' < 2 ^ 31"
      using G(2)[rule_format, of m] G1(2)[rule_format, of m] assms(6) by linarith
  qed
  then obtain G2 where G2: "slots_inv s2 G2" "stored s2 ?m ?ch = stored s1 ?m ?ch"
    using slots_run_effect [OF assms(4) G1(1) assms(5)] assms(2,7) by blast
  have sh2: "shape s2 G2" using G2(1) by (simp add: slots_inv_def)
  have st: "stored s2 ?m ?ch = Some (map Some (take len bs))" using G2(2) G1(4) by simp
  have "devices s2 ! (?m + 1) \<noteq> Null"
    using st device_slot_ok [OF sh2 assms(2)] by (auto simp: stored_def)
  moreover have "G2 ?m \<noteq> []" using st stored_none [OF sh2 assms(2), of ?ch] by auto
  moreover have "private_data f \<noteq> 0"
    using assms(3) by (auto simp: device_write_def EINVAL_def EMSGSIZE_def split: if_splits)
  ultimately show ?thesis
    using device_read_eq [OF G2(1), of g km "Room room" n] st assms(2,8-12) G1(3) by simp
qed

text \<open>
  C7: A message written to a channel of a device is what a later read on this channel of this
  device delivers, whatever calls come in between, as long as none of them writes to the same
  channel; other channels, other devices, opening and reading do not disturb it.
\<close>

theorem write_then_read:
  assumes "history km ops s" and "minor f < 256"
    and "device_write km f (Bytes bs) len s = Ok (int len, s1)"
    and "slots_run km ops' s1 = Ok s2" and "\<forall>op \<in> set ops'. op_minor op < 256"
    and "length ops + length ops' + 1 < 2 ^ 31"
    and "\<forall>op \<in> set ops'. \<not> writes_to op (minor f) (to_int (private_data f))"
    and "minor g = minor f" and "private_data g = private_data f"
    and "len \<le> n" and "len \<le> room" and "km (kcalls s2)"
  shows "device_read km g (Room room) n s2 =
    Ok (int len, map Some (take len bs), s2\<lparr>kcalls := Suc (kcalls s2)\<rparr>)"
  by (rule write_then_read_lemma [OF assms])

theorem write_then_read_witness:
  "\<exists>s. slots_run (\<lambda>_. True) [OpOpen 4, OpRead (example_file 3 9) (Room 1) 5] written = Ok s \<and>
     device_read (\<lambda>_. True) (example_file 3 7) (Room 128) 128 s =
       Ok (2, [Some 65, Some 66], s\<lparr>kcalls := Suc (kcalls s)\<rparr>)"
proof -
  let ?ops = "[OpOpen 4, OpRead (example_file 3 9) (Room 1) 5]"
  have "\<exists>s. slots_run (\<lambda>_. True) ?ops written = Ok s"
    by (simp add: evaluate_slot written_def device_open_def kmalloc_list_def MAX_DEVICES_def
        device_read_def findChannelId_def)
  then obtain s where s: "slots_run (\<lambda>_. True) ?ops written = Ok s" by blast
  have "device_write (\<lambda>_. True) (example_file 3 7) (Bytes [65, 66]) 2 opened = Ok (int 2, written)"
    using written_run by simp
  from write_then_read [OF opened_history _ this s, of "example_file 3 7" 128 128]
  have "device_read (\<lambda>_. True) (example_file 3 7) (Room 128) 128 s =
      Ok (2, [Some 65, Some 66], s\<lparr>kcalls := Suc (kcalls s)\<rparr>)"
    by (simp add: example_file_def to_int_def)
  then show ?thesis using s by blast
qed

section \<open>What the code gets wrong\<close>

text \<open>
  C27: The channel id is an \<open>unsigned long\<close> in \<open>ioctl\<close> but an \<open>int\<close> in the list, so channels
  whose ids agree modulo \<open>2^32\<close> are one channel: a message written to channel \<open>ch\<close> is read
  on channel \<open>ch + 2^32\<close>.
\<close>

theorem channels_collide:
  assumes "history km ops s" and "minor f < 256"
    and "device_write km f (Bytes bs) len s = Ok (int len, s1)"
    and "minor g = minor f" and "private_data g = private_data f + 2 ^ 32"
    and "private_data g \<noteq> 0" and "km (kcalls s1)"
  shows "device_read km g (Room BUF_LEN) BUF_LEN s1 =
    Ok (int len, map Some (take len bs), s1\<lparr>kcalls := Suc (kcalls s1)\<rparr>)"
proof -
  have len: "length ops + 1 < 2 ^ 31" using assms(1) by (simp add: history_def)
  have f: "private_data f \<noteq> 0" "len \<le> BUF_LEN"
    using assms(3) by (auto simp: device_write_def EINVAL_def EMSGSIZE_def split: if_splits)
  have ids: "to_int (private_data g) = to_int (private_data f)"
  proof -
    have "(ucast (private_data f + 2 ^ 32) :: 32 word) = ucast (private_data f)"
      by (simp add: word_unat_eq_iff unat_word_ariths unat_of_nat take_bit_eq_mod
          unsigned_ucast_eq take_bit_nat_def) (simp add: mod_mod_cancel mod_add_eq)
    then show ?thesis by (simp add: to_int_def assms(5))
  qed
  have "device_read km f (Room BUF_LEN) BUF_LEN s1 =
      Ok (int len, map Some (take len bs), s1\<lparr>kcalls := Suc (kcalls s1)\<rparr>)"
    using write_then_read_lemma [OF assms(1-3) slots_run_simps(1), where g = f and n = BUF_LEN and room = BUF_LEN]
      len f(2) assms(7) by simp
  moreover have "device_read km g (Room BUF_LEN) BUF_LEN s1 =
      device_read km f (Room BUF_LEN) BUF_LEN s1"
    unfolding device_read_def assms(4) ids using assms(6) f(1) by simp
  ultimately show ?thesis by simp
qed

theorem channels_collide_witness:
  "device_read (\<lambda>_. True) (example_file 3 (7 + 2 ^ 32)) (Room BUF_LEN) BUF_LEN written =
     Ok (int 2, [Some 65, Some 66], written\<lparr>kcalls := Suc (kcalls written)\<rparr>)"
proof -
  have "device_write (\<lambda>_. True) (example_file 3 7) (Bytes [65, 66]) 2 opened = Ok (int 2, written)"
    using written_run by simp
  from channels_collide [OF opened_history _ this, of "example_file 3 (7 + 2 ^ 32)"]
  show ?thesis by (simp add: example_file_def)
qed

end
