(* ===== verification/C_Stdlib.thy ===== *)
theory C_Stdlib
  imports C_Prelude
begin

text \<open>
  The parts of the C library that the programs compute with: \<open>strtol\<close> in base 10 and
  \<open>atoi\<close>, decimal output (\<open>%u\<close>, \<open>%d\<close>, \<open>%zu\<close>), the error numbers, and the byte order
  functions \<open>htonl\<close> and \<open>ntohl\<close> of a little-endian machine together with the bytes of a
  \<open>uint32_t\<close> in memory.
\<close>

section \<open>Numbers as text\<close>

definition is_space :: "char \<Rightarrow> bool" where
  "is_space c \<longleftrightarrow> c \<in> {CHR '' '', CHR 0x09, CHR 0x0A, CHR 0x0B, CHR 0x0C, CHR 0x0D}"

definition digit_value :: "char \<Rightarrow> nat" where
  "digit_value c = of_char c - 48"

definition is_digit :: "char \<Rightarrow> bool" where
  "is_digit c \<longleftrightarrow> (48 :: nat) \<le> of_char c \<and> of_char c \<le> (57 :: nat)"

definition decimal_value :: "string \<Rightarrow> nat" where
  "decimal_value ds = fold (\<lambda>c v. 10 * v + digit_value c) ds 0"

definition LONG_MAX :: int where
  "LONG_MAX = 2 ^ 63 - 1"

definition LONG_MIN :: int where
  "LONG_MIN = - (2 ^ 63)"

text \<open>
  \<open>strtol(s, NULL, 10)\<close>: the value, and whether \<open>errno\<close> was set to \<open>ERANGE\<close> because the
  value was cut to the range of \<open>long\<close>. Text without digits gives 0.
\<close>

definition strtol10 :: "string \<Rightarrow> int \<times> bool" where
  "strtol10 s =
     (let t = dropWhile is_space s;
          neg = (t \<noteq> [] \<and> hd t = CHR ''-'');
          u = (if t \<noteq> [] \<and> (hd t = CHR ''-'' \<or> hd t = CHR ''+'') then tl t else t);
          n = int (decimal_value (takeWhile is_digit u));
          v = (if neg then - n else n)
      in if v > LONG_MAX then (LONG_MAX, True)
         else if v < LONG_MIN then (LONG_MIN, True)
         else (v, False))"

text \<open>\<open>atoi\<close>: the same value converted to \<open>int\<close>.\<close>

definition atoi :: "string \<Rightarrow> c_int" where
  "atoi s = word_of_int (fst (strtol10 s))"

fun decimal :: "nat \<Rightarrow> string" where
  "decimal n =
     (if n < 10 then [char_of (48 + n)] else decimal (n div 10) @ [char_of (48 + n mod 10)])"

declare decimal.simps [simp del]

lemma strtol10_range: "LONG_MIN \<le> fst (strtol10 s) \<and> fst (strtol10 s) \<le> LONG_MAX"
  by (simp add: strtol10_def Let_def LONG_MIN_def LONG_MAX_def)

text \<open>An out-of-range conversion ends at one of the two limits.\<close>

lemma strtol10_erange: "snd (strtol10 s) \<Longrightarrow> fst (strtol10 s) \<in> {LONG_MIN, LONG_MAX}"
  by (auto simp: strtol10_def Let_def split: if_splits)

text \<open>Decimal output and input are inverse.\<close>

lemma decimal_value_snoc [simp]: "decimal_value (ds @ [c]) = 10 * decimal_value ds + digit_value c"
  by (simp add: decimal_value_def)

lemma digit_char [simp]:
  assumes "d < 10"
  shows "is_digit (char_of (48 + d))" and "digit_value (char_of (48 + d)) = d"
  using assms by (simp_all add: is_digit_def digit_value_def)

lemma decimal_digits: "\<forall>c \<in> set (decimal n). is_digit c"
proof (induction n rule: decimal.induct)
  case (1 n)
  then show ?case by (subst decimal.simps) auto
qed

lemma decimal_value_decimal [simp]: "decimal_value (decimal n) = n"
proof (induction n rule: decimal.induct)
  case (1 n)
  then show ?case by (subst decimal.simps) (auto simp: decimal_value_def)
qed

lemma decimal_not_empty [simp]: "decimal n \<noteq> []"
  by (subst decimal.simps) simp

lemma digit_not_sign: "is_digit c \<Longrightarrow> \<not> is_space c \<and> c \<noteq> CHR ''-'' \<and> c \<noteq> CHR ''+''"
  by (auto simp: is_digit_def is_space_def)

lemma strtol10_decimal:
  assumes "int n \<le> LONG_MAX"
  shows "strtol10 (decimal n) = (int n, False)"
proof -
  obtain c cs where d: "decimal n = c # cs" by (cases "decimal n") auto
  have "is_digit c" using decimal_digits [of n] d by simp
  then have c: "\<not> is_space c" "c \<noteq> CHR ''-''" "c \<noteq> CHR ''+''" using digit_not_sign by auto
  have t: "takeWhile is_digit (decimal n) = decimal n"
    using decimal_digits [of n] by (simp add: takeWhile_eq_all_conv)
  have "dropWhile is_space (decimal n) = decimal n" using d c by simp
  moreover have "decimal_value (c # cs) = n" using decimal_value_decimal [of n] d by simp
  ultimately show ?thesis
    using assms d c t by (simp add: strtol10_def Let_def LONG_MIN_def)
qed

section \<open>Byte order\<close>

text \<open>The four bytes of a \<open>uint32_t\<close> in the memory of a little-endian machine.\<close>

definition u32_bytes :: "u32 \<Rightarrow> u8 list" where
  "u32_bytes w = map (\<lambda>k. ucast (drop_bit (8 * k) w)) [0, 1, 2, 3]"

definition u32_of_bytes :: "u8 list \<Rightarrow> u32" where
  "u32_of_bytes bs = foldr (\<lambda>b v. push_bit 8 v OR ucast b) bs 0"

definition htonl :: "u32 \<Rightarrow> u32" where
  "htonl w = u32_of_bytes (rev (u32_bytes w))"

definition ntohl :: "u32 \<Rightarrow> u32" where
  "ntohl w = u32_of_bytes (rev (u32_bytes w))"

text \<open>The big-endian bytes of a number, as they go over the wire.\<close>

definition be32 :: "u32 \<Rightarrow> u8 list" where
  "be32 w = rev (u32_bytes w)"

lemma length_u32_bytes [simp]: "length (u32_bytes w) = 4"
  by (simp add: u32_bytes_def)

lemma length_be32 [simp]: "length (be32 w) = 4"
  by (simp add: be32_def)

lemma u32_of_bytes_bytes [simp]: "u32_of_bytes (u32_bytes w) = w"
proof (rule bit_word_eqI)
  fix n assume "n < LENGTH(32)"
  then have "n \<in> {0..<8} \<union> {8..<16} \<union> {16..<24} \<union> {24..<32}" by auto
  then show "bit (u32_of_bytes (u32_bytes w)) n = bit w n"
    by (auto simp: u32_of_bytes_def u32_bytes_def bit_simps)
qed

lemma high_bit: "8 \<le> n \<Longrightarrow> \<not> bit (a :: u8) n"
  using bit_imp_le_length [of a n] by auto

lemma u32_bytes_of_bytes [simp]:
  assumes "length bs = 4" shows "u32_bytes (u32_of_bytes bs) = bs"
proof -
  obtain a b c d where bs: "bs = [a, b, c, d]"
    using assms by (auto simp: numeral_eq_Suc length_Suc_conv)
  show ?thesis
    unfolding bs u32_of_bytes_def u32_bytes_def
    by (auto intro!: bit_word_eqI simp: bit_simps high_bit)
qed

text \<open>\<open>htonl\<close> puts a number into network byte order, \<open>ntohl\<close> reads it back.\<close>

lemma u32_bytes_htonl: "u32_bytes (htonl w) = be32 w"
  by (simp add: htonl_def be32_def)

lemma ntohl_be32: "ntohl (u32_of_bytes (be32 w)) = w"
  by (simp add: ntohl_def be32_def)

end
