(* ===== verification/Slot_Tools.thy ===== *)
theory Slot_Tools
  imports Msg_Slot_Ops C_Stdlib
begin

text \<open>
  The two user programs of \<open>hw3\<close>, \<open>message_sender.c\<close> and \<open>message_reader.c\<close>, on top of the
  kernel module, and the contract \<open>message_slot\<close> they rely on. The theorem that spans the
  three programs: what was sent to a device and channel is what the reader prints.
\<close>

section \<open>The contract of a message slot\<close>

text \<open>
  \<open>valid n s\<close>: the state is well formed and has room for \<open>n\<close> more operations. \<open>alloc_ok s\<close>: the next
  allocation of the module will succeed. A device that has a message is there already when it is
  opened, and reading a message fails only if its one allocation does.
\<close>

locale message_slot =
  fixes open_dev :: "nat \<Rightarrow> 's \<Rightarrow> (int \<times> 's) run"
    and put :: "open_file \<Rightarrow> u8 list \<Rightarrow> 's \<Rightarrow> (int \<times> 's) run"
    and get :: "open_file \<Rightarrow> nat \<Rightarrow> 's \<Rightarrow> (int \<times> bytes \<times> 's) run"
    and contents :: "'s \<Rightarrow> nat \<Rightarrow> int \<Rightarrow> bytes option"
    and valid :: "nat \<Rightarrow> 's \<Rightarrow> bool"
    and alloc_ok :: "'s \<Rightarrow> bool"
  assumes open_keeps: "valid (Suc n) s \<Longrightarrow> m < 256 \<Longrightarrow> \<exists>r s'. open_dev m s = Ok (r, s') \<and>
      valid n s' \<and> (\<forall>m < 256. \<forall>ch. contents s' m ch = contents s m ch)"
    and open_again: "valid n s \<Longrightarrow> m < 256 \<Longrightarrow> contents s m ch \<noteq> None \<Longrightarrow> open_dev m s = Ok (0, s)"
    and put_stores: "valid (Suc n) s \<Longrightarrow> minor f < 256 \<Longrightarrow> \<exists>r s'. put f bs s = Ok (r, s') \<and>
      valid n s' \<and>
      (r < 0 \<or> r = int (length bs) \<and> private_data f \<noteq> 0 \<and>
        contents s' (minor f) (to_int (private_data f)) = Some (map Some bs))"
    and get_delivers: "valid n s \<Longrightarrow> minor f < 256 \<Longrightarrow> private_data f \<noteq> 0 \<Longrightarrow>
      contents s (minor f) (to_int (private_data f)) = Some ms \<Longrightarrow> length ms \<le> k \<Longrightarrow>
      \<exists>r out s'. get f k s = Ok (r, out, s') \<and>
        (if alloc_ok s then r = int (length ms) \<and> out = ms else r < 0 \<and> out = [])"
begin

text \<open>A message that one process puts into a channel is what another one gets from it.\<close>

lemma pass_message:
  assumes "valid (Suc n) s" and "minor f < 256" and "length bs \<le> k"
    and "put f bs s = Ok (r, s1)" and "0 \<le> r"
  shows "open_dev (minor f) s1 = Ok (0, s1) \<and>
    (\<exists>q out s3. get f k s1 = Ok (q, out, s3) \<and>
       (if alloc_ok s1 then q = r \<and> out = map Some bs else q < 0 \<and> out = []))"
proof -
  have s1: "valid n s1" "r = int (length bs)" "private_data f \<noteq> 0"
      "contents s1 (minor f) (to_int (private_data f)) = Some (map Some bs)"
    using put_stores [OF assms(1,2), of bs] assms(4,5) by auto
  moreover obtain q out s3 where "get f k s1 = Ok (q, out, s3)"
      "if alloc_ok s1 then q = int (length (map Some bs)) \<and> out = map Some bs else q < 0 \<and> out = []"
    using get_delivers [OF s1(1) assms(2) s1(3,4), of k] assms(3) by auto
  moreover have "open_dev (minor f) s1 = Ok (0, s1)" using open_again [OF s1(1) assms(2)] s1(4) by blast
  ultimately show ?thesis by simp
qed

end

definition roomy :: "nat \<Rightarrow> kernel \<Rightarrow> bool" where
  "roomy n s \<longleftrightarrow> (\<exists>G. slots_inv s G \<and> (\<forall>m. length (G m) + n < 2 ^ 31))"

lemma roomy_inv:
  assumes "roomy (Suc n) s"
  obtains G where "slots_inv s G" and "\<forall>m. length (G m) + 1 < 2 ^ 31"
    and "\<And>G' :: nat \<Rightarrow> nat list. \<forall>m. length (G' m) \<le> length (G m) + 1 \<Longrightarrow> \<forall>m. length (G' m) + n < 2 ^ 31"
proof -
  obtain G where G: "slots_inv s G" "\<forall>m. length (G m) + Suc n < 2 ^ 31"
    using assms by (auto simp: roomy_def)
  have "length (G m) + 1 < 2 ^ 31" for m using G(2)[rule_format, of m] by linarith
  moreover have "length (G' m) + n < 2 ^ 31" if "\<forall>m. length (G' m) \<le> length (G m) + 1" for G' :: "nat \<Rightarrow> nat list" and m
    using G(2)[rule_format, of m] that[rule_format, of m] by linarith
  ultimately show thesis using that [OF G(1)] by blast
qed

lemma roomy_same:
  assumes "roomy (Suc n) s"
  obtains G where "slots_inv s G" and "\<forall>m. length (G m) + n < 2 ^ 31"
proof (rule roomy_inv [OF assms])
  fix G assume G: "slots_inv s G"
    and keep: "\<And>G' :: nat \<Rightarrow> nat list. \<forall>m. length (G' m) \<le> length (G m) + 1 \<Longrightarrow>
      \<forall>m. length (G' m) + n < 2 ^ 31"
  have "\<forall>m. length (G m) + n < 2 ^ 31" by (rule keep) simp
  with G show thesis by (rule that)
qed

lemma stored_usable:
  assumes "slots_inv s G" and "m < 256" and "stored s m ch = Some bs"
  shows "devices s ! (m + 1) \<noteq> Null" and "G m \<noteq> []"
proof -
  have sh: "shape s G" using assms(1) by (simp add: slots_inv_def)
  show "devices s ! (m + 1) \<noteq> Null"
    using assms(3) device_slot_ok [OF sh assms(2)] by (auto simp: stored_def)
  show "G m \<noteq> []" using assms(3) stored_none [OF sh assms(2), of ch] by auto
qed

interpretation slots: message_slot "device_open km"
    "\<lambda>f bs. device_write km f (Bytes bs) (length bs)" "\<lambda>f k. device_read km f (Room k) k"
    stored "\<lambda>n s. roomy n s" "\<lambda>s. km (kcalls s)" for km
proof unfold_locales
  fix n s and m :: nat
  assume r: "roomy (Suc n) s" and m: "m < 256"
  obtain G where G: "slots_inv s G" "\<forall>m. length (G m) + n < 2 ^ 31"
    using roomy_same [OF r] .
  obtain r s' where "device_open km m s = Ok (r, s')" "slots_inv s' G"
      "\<forall>m < 256. \<forall>ch. stored s' m ch = stored s m ch"
    using device_open_effect [OF G(1) m, of km] by blast
  then show "\<exists>r s'. device_open km m s = Ok (r, s') \<and> roomy n s' \<and>
      (\<forall>m < 256. \<forall>ch. stored s' m ch = stored s m ch)"
    using G(2) by (auto simp: roomy_def)
next
  fix n s ch and m :: nat
  assume r: "roomy n s" and m: "m < 256" and st: "stored s m ch \<noteq> None"
  obtain G where G: "slots_inv s G" using r by (auto simp: roomy_def)
  have sh: "shape s G" using G by (simp add: slots_inv_def)
  show "device_open km m s = Ok (0, s)"
    using st stored_usable(1) [OF G m] device_slot_ok [OF sh m] by (auto simp: device_open_def)
next
  fix n s and f :: open_file and bs
  assume r: "roomy (Suc n) s" and m: "minor f < 256"
  obtain G where G: "slots_inv s G" "\<forall>m. length (G m) + 1 < 2 ^ 31"
      "\<And>G' :: nat \<Rightarrow> nat list. \<forall>m. length (G' m) \<le> length (G m) + 1 \<Longrightarrow> \<forall>m. length (G' m) + n < 2 ^ 31"
    using roomy_inv [OF r] by metis
  obtain r s' G' where e: "device_write km f (Bytes bs) (length bs) s = Ok (r, s')"
      "slots_inv s' G'" "\<forall>m. length (G' m) \<le> length (G m) + 1"
      "r < 0 \<or> (r = int (length bs) \<and>
        stored s' (minor f) (to_int (private_data f)) = Some (map Some bs))"
    using device_write_effect [OF G(1) m G(2)[rule_format], of km "Bytes bs" "length bs"] by force
  then have "roomy n s'" using G(3) unfolding roomy_def by blast
  moreover have "0 \<le> r \<Longrightarrow> private_data f \<noteq> 0"
    using e(1) by (auto simp: device_write_def EINVAL_def EMSGSIZE_def split: if_splits)
  ultimately show "\<exists>r s'. device_write km f (Bytes bs) (length bs) s = Ok (r, s') \<and> roomy n s' \<and>
      (r < 0 \<or> r = int (length bs) \<and> private_data f \<noteq> 0 \<and>
        stored s' (minor f) (to_int (private_data f)) = Some (map Some bs))"
    using e by force
next
  fix n s and f :: open_file and bs k
  assume r: "roomy n s" and m: "minor f < 256" and pd: "private_data f \<noteq> 0" and len: "length bs \<le> k"
    and st: "stored s (minor f) (to_int (private_data f)) = Some bs"
  obtain G where G: "slots_inv s G" using r by (auto simp: roomy_def)
  show "\<exists>r out s'. device_read km f (Room k) k s = Ok (r, out, s') \<and>
      (if km (kcalls s) then r = int (length bs) \<and> out = bs else r < 0 \<and> out = [])"
    using device_read_eq [OF G m, of km "Room k" k] st len pd stored_usable [OF G m st]
    by (simp add: ENOSPC_def)
qed

section \<open>The sender\<close>

definition EBADF :: int where
  "EBADF = 9"

text \<open>A C string as the bytes \<open>strlen\<close> counts.\<close>

definition c_bytes :: "string \<Rightarrow> u8 list" where
  "c_bytes s = map of_char (takeWhile (\<lambda>c. c \<noteq> CHR 0x00) s)"

text \<open>\<open>open\<close> on a path: \<open>dev\<close> gives the minor number of the slot device there, if any.\<close>

definition open_slot :: "(nat \<Rightarrow> bool) \<Rightarrow> nat option \<Rightarrow> kernel \<Rightarrow> (open_file option \<times> kernel) run" where
  "open_slot km dev s =
     (case dev of None \<Rightarrow> Ok (None, s)
      | Some m \<Rightarrow> bindR (device_open km m s) (\<lambda>(r, s1).
          Ok (if r < 0 then None else Some \<lparr>private_data = 0, minor = m\<rparr>, s1)))"

text \<open>
  The exit status and the kernel afterwards. When \<open>open\<close> fails the program goes on with the
  descriptor -1, on which \<open>ioctl\<close> fails with \<open>EBADF\<close>.
\<close>

definition sender_main :: "(nat \<Rightarrow> bool) \<Rightarrow> (string \<Rightarrow> nat option) \<Rightarrow> string list \<Rightarrow> kernel \<Rightarrow>
    (int \<times> kernel) run" where
  "sender_main km dev argv s =
     (if length argv \<noteq> 4 then Ok (1, s)
      else
        (case strtol10 (argv ! 2) of (channel, erange) \<Rightarrow>
           if channel = 2 ^ 32 - 1 \<and> erange then Ok (1, s)
           else
             bindR (open_slot km (dev (argv ! 1)) s) (\<lambda>(fd, s1).
               case fd of None \<Rightarrow> Ok (EBADF, s1)
               | Some file \<Rightarrow>
                   (case device_ioctl file MSG_SLOT_CHANNEL (word_of_int channel) of
                      (r, file') \<Rightarrow>
                        if r < 0 then Ok (- r, s1)
                        else
                          bindR (device_write km file' (Bytes (c_bytes (argv ! 3)))
                                   (length (c_bytes (argv ! 3))) s1) (\<lambda>(w, s2).
                            if w < 0 then Ok (- w, s2) else Ok (0, s2))))))"

section \<open>The reader\<close>

text \<open>
  The exit status, what goes to standard output (of which \<open>out_takes\<close> bytes are taken) and the
  kernel afterwards; \<open>calloc_ok\<close> is whether \<open>calloc\<close> succeeds.
\<close>

definition reader_main :: "(nat \<Rightarrow> bool) \<Rightarrow> (string \<Rightarrow> nat option) \<Rightarrow> bool \<Rightarrow> nat \<Rightarrow> string list \<Rightarrow>
    kernel \<Rightarrow> (int \<times> bytes \<times> kernel) run" where
  "reader_main km dev calloc_ok out_takes argv s =
     (if length argv \<noteq> 3 then Ok (1, [], s)
      else
        (case strtol10 (argv ! 2) of (channel, erange) \<Rightarrow>
           if channel = 2 ^ 32 - 1 \<and> erange then Ok (1, [], s)
           else
             bindR (open_slot km (dev (argv ! 1)) s) (\<lambda>(fd, s1).
               case fd of None \<Rightarrow> Ok (1, [], s1)
               | Some file \<Rightarrow>
                   if \<not> calloc_ok then Ok (1, [], s1)
                   else
                     (case device_ioctl file MSG_SLOT_CHANNEL (word_of_int channel) of
                        (r, file') \<Rightarrow>
                          if r < 0 then Ok (- r, [], s1)
                          else
                            bindR (device_read km file' (Room BUF_LEN) BUF_LEN s1)
                              (\<lambda>(retVal, msg, s2).
                                 if retVal < 0 then Ok (- retVal, [], s2)
                                 else Ok (0, take out_takes msg, s2))))))"

section \<open>Theorems\<close>

lemma open_slot_Some:
  assumes "open_slot km dev s = Ok (Some file, s1)"
  shows "\<exists>m r. dev = Some m \<and> file = \<lparr>private_data = 0, minor = m\<rparr> \<and>
    device_open km m s = Ok (r, s1) \<and> 0 \<le> r"
  using assms by (auto simp: open_slot_def split: option.splits if_splits)

text \<open>What a successful run of the sender has done.\<close>

lemma sender_success:
  assumes "sender_main km dev argv s = Ok (0, s2)"
  obtains m r s1 f w where "length argv = 4" and "dev (argv ! 1) = Some m"
    and "device_open km m s = Ok (r, s1)"
    and "f = \<lparr>private_data = word_of_int (fst (strtol10 (argv ! 2))), minor = m\<rparr>"
    and "private_data f \<noteq> 0" and "0 \<le> w"
    and "device_write km f (Bytes (c_bytes (argv ! 3))) (length (c_bytes (argv ! 3))) s1 = Ok (w, s2)"
proof -
  obtain ch e where st: "strtol10 (argv ! 2) = (ch, e)" by (cases "strtol10 (argv ! 2)") auto
  let ?msg = "c_bytes (argv ! 3)"
  have len: "length argv = 4" using assms by (auto simp: sender_main_def split: if_splits)
  obtain fd s1 where op: "open_slot km (dev (argv ! 1)) s = Ok (fd, s1)"
    using assms st len by (auto simp: sender_main_def split: if_splits)
  then obtain fl where fd: "fd = Some fl"
    using assms st len by (cases fd) (auto simp: sender_main_def EBADF_def split: if_splits)
  then obtain m r where m: "dev (argv ! 1) = Some m" "fl = \<lparr>private_data = 0, minor = m\<rparr>"
      "device_open km m s = Ok (r, s1)"
    using open_slot_Some op by blast
  have ch: "word_of_int ch \<noteq> (0 :: u64)"
    using assms st len op fd by (auto simp: sender_main_def device_ioctl_def EINVAL_def split: if_splits)
  let ?f = "\<lparr>private_data = word_of_int ch, minor = m\<rparr>"
  have "bindR (device_write km ?f (Bytes ?msg) (length ?msg) s1) (\<lambda>(w, s2).
      if w < 0 then Ok (- w, s2) else Ok (0, s2)) = Ok (0, s2)"
    using assms st len op fd m(2) ch by (auto simp: sender_main_def device_ioctl_def split: if_splits)
  then obtain w where "device_write km ?f (Bytes ?msg) (length ?msg) s1 = Ok (w, s2)" "0 \<le> w"
    by (auto split: if_splits)
  then show thesis using that [OF len m(1,3), of ?f w] st ch by simp
qed

text \<open>
  C29: When the sender exits with status 0, a reader started afterwards with the same device and
  channel arguments prints exactly the message and exits with status 0, if its \<open>calloc\<close> and the
  one allocation that the module makes for it succeed and standard output takes the message; if one
  of the two allocations fails, it prints nothing and exits with a non-zero status. Nothing else
  can go wrong.
\<close>

theorem reader_prints_what_was_sent:
  assumes "history km ops s" and "length ops + 8 < 2 ^ 31"
    and "sender_main km dev [p, path, ch, text] s = Ok (0, s1)"
    and "dev path = Some m" and "m < 256" and "BUF_LEN \<le> out_takes"
  shows "\<exists>st out s2. reader_main km dev calloc_ok out_takes [q, path, ch] s1 = Ok (st, out, s2) \<and>
    (if calloc_ok \<and> km (kcalls s1) then st = 0 \<and> out = map Some (c_bytes text)
     else st > 0 \<and> out = [])"
proof -
  let ?msg = "c_bytes text"
  obtain r so f w where snd: "device_open km m s = Ok (r, so)"
      "f = \<lparr>private_data = word_of_int (fst (strtol10 ch)), minor = m\<rparr>"
      "private_data f \<noteq> 0" "0 \<le> w"
      "device_write km f (Bytes ?msg) (length ?msg) so = Ok (w, s1)"
    using sender_success [OF assms(3)] assms(4) by (simp, metis option.inject)
  have bound: "length ops + 8 < 2147483648" using assms(2) by simp
  obtain G where G: "slots_inv s G" "\<forall>m. length (G m) \<le> length ops"
    using history_inv [OF assms(1)] .
  have "length (G m) + 2 < 2 ^ 31" for m
    using G(2)[rule_format, of m] bound by (simp del: One_nat_def)
  then have "roomy (Suc (Suc 0)) s" using G(1) unfolding roomy_def by auto
  then have so: "roomy (Suc 0) so"
    using slots.open_keeps [OF _ assms(5), of _ s km] snd(1) by fastforce
  have len: "length ?msg \<le> BUF_LEN"
    using snd(4,5) by (auto simp: device_write_def EMSGSIZE_def split: if_splits)
  have mf: "minor f < 256" "minor f = m" using snd(2) assms(5) by simp_all
  obtain q2 out s3 where get: "device_open km m s1 = Ok (0, s1)"
      "device_read km f (Room BUF_LEN) BUF_LEN s1 = Ok (q2, out, s3)"
      "if km (kcalls s1) then q2 = w \<and> out = map Some ?msg else q2 < 0 \<and> out = []"
    using slots.pass_message [OF so mf(1) len snd(5,4)] mf(2) by blast
  obtain c e where st: "strtol10 ch = (c, e)" by (cases "strtol10 ch") auto
  have ne: "\<not> (c = 2 ^ 32 - 1 \<and> e)"
    using strtol10_erange [of ch] st by (auto simp: LONG_MAX_def LONG_MIN_def)
  have "take out_takes (map Some ?msg) = map Some ?msg" using len assms(6) by simp
  then show ?thesis
    using get snd(2-4) st ne assms(4)
    by (auto simp: reader_main_def open_slot_def device_ioctl_def split: if_splits)
qed

lemma sender_example:
  "\<exists>s1. sender_main (\<lambda>_. True) (\<lambda>_. Some 3) [''s'', ''/dev/slot'', ''7'', ''AB''] kernel_init =
     Ok (0, s1)"
proof -
  have "strtol10 ''7'' = (7, False)"
    by (simp add: strtol10_def is_space_def is_digit_def digit_value_def decimal_value_def
        LONG_MAX_def LONG_MIN_def Let_def)
  moreover have "device_open (\<lambda>_. True) 3 kernel_init = Ok (0, opened)"
    using opened_run by (auto simp: device_open_def opened_def kernel_init_def device_slot_def
        MAX_DEVICES_def kmalloc_list_def update_list_def Let_def)
  moreover have "c_bytes ''AB'' = [65, 66]" by (simp add: c_bytes_def)
  moreover have "device_write (\<lambda>_. True) \<lparr>private_data = 7, minor = 3\<rparr> (Bytes [65, 66])
      (Suc (Suc 0)) opened = Ok (2, written)"
    using written_run by (simp add: example_file_def numeral_2_eq_2)
  ultimately show ?thesis
    by (simp add: sender_main_def open_slot_def device_ioctl_def EINVAL_def)
qed

theorem reader_prints_what_was_sent_witness:
  "\<exists>s1 s2.
     sender_main (\<lambda>_. True) (\<lambda>_. Some 3) [''s'', ''/dev/slot'', ''7'', ''AB''] kernel_init = Ok (0, s1) \<and>
     reader_main (\<lambda>_. True) (\<lambda>_. Some 3) True 128 [''r'', ''/dev/slot'', ''7''] s1 =
       Ok (0, [Some 65, Some 66], s2)"
proof -
  obtain s1 where s1: "sender_main (\<lambda>_. True) (\<lambda>_. Some 3) [''s'', ''/dev/slot'', ''7'', ''AB'']
      kernel_init = Ok (0, s1)"
    using sender_example by blast
  have "history (\<lambda>_. True) [] kernel_init" by (simp add: history_def)
  from reader_prints_what_was_sent [OF this _ s1, of 3 128 True "''r''"] s1
  show ?thesis by (auto simp: BUF_LEN_def c_bytes_def)
qed

text \<open>
  The check for a channel id out of range never applies: a text that does not fit into a
  \<open>long\<close> is not rejected but behaves as the largest or smallest \<open>long\<close>, since \<open>strtol\<close> returns
  \<open>LONG_MAX\<close> or \<open>LONG_MIN\<close> then and never the \<open>UINT_MAX\<close> the programs compare with.
\<close>

theorem range_check_is_dead:
  assumes "snd (strtol10 ch)"
  shows "(\<forall>km dev p path text s. sender_main km dev [p, path, ch, text] s =
           sender_main km dev [p, path, ''9223372036854775807'', text] s) \<or>
         (\<forall>km dev p path text s. sender_main km dev [p, path, ch, text] s =
           sender_main km dev [p, path, ''-9223372036854775808'', text] s)"
proof -
  have limits: "strtol10 ''9223372036854775807'' = (LONG_MAX, False)"
      "strtol10 ''-9223372036854775808'' = (LONG_MIN, False)"
    by (simp_all add: strtol10_def is_space_def is_digit_def digit_value_def decimal_value_def
        LONG_MAX_def LONG_MIN_def Let_def)
  have "strtol10 ch = (LONG_MAX, True) \<or> strtol10 ch = (LONG_MIN, True)"
    using strtol10_erange [OF assms] assms by (cases "strtol10 ch") auto
  moreover have idx: "[p, path, c, t] ! 1 = path" "[p, path, c, t] ! 2 = c"
      "[p, path, c, t] ! 3 = t" for p path c t :: string
    by simp_all
  moreover have "\<not> (LONG_MAX = 2 ^ 32 - 1 \<and> True)" "\<not> (LONG_MIN = 2 ^ 32 - 1 \<and> True)"
    by (simp_all add: LONG_MAX_def LONG_MIN_def)
  ultimately show ?thesis
    unfolding sender_main_def idx limits by (elim disjE) simp_all
qed

theorem range_check_is_dead_witness:
  "(\<forall>km dev p path text s. sender_main km dev [p, path, ''9999999999999999999'', text] s =
      sender_main km dev [p, path, ''9223372036854775807'', text] s) \<or>
   (\<forall>km dev p path text s. sender_main km dev [p, path, ''9999999999999999999'', text] s =
      sender_main km dev [p, path, ''-9223372036854775808'', text] s)"
  by (rule range_check_is_dead)
    (simp add: strtol10_def is_space_def is_digit_def digit_value_def decimal_value_def
      LONG_MAX_def LONG_MIN_def Let_def)

end
