(* ===== verification/Msg_Slot_Unload.thy ===== *)
theory Msg_Slot_Unload
  imports Msg_Slot_Ops
begin

text \<open>
  Unloading the module: \<open>simple_cleanup\<close> of \<open>message_slot.c\<close> frees every list, node and message
  buffer exactly once, whatever calls came before.
\<close>

lemma map_delete: "h(a := None) = h |` (- {a})"
  by (auto simp: restrict_map_def)

lemma restrict_all [simp]: "h |` UNIV = h"
  by (auto simp: restrict_map_def)

lemma compl_insert: "- {x} \<inter> - X = - insert x X"
  by auto

lemma restrict_away: "dom h \<subseteq> A \<Longrightarrow> h |` (- A) = Map.empty"
  by (rule ext) (auto simp: restrict_map_def dom_def)

lemma kfree_buf_Ok: "b \<in> dom (bufs s) \<Longrightarrow> kfree_buf (Ref b) s = Ok (s\<lparr>bufs := bufs s |` (- {b})\<rparr>)"
  by (auto simp: map_delete)

lemma kfree_node_Ok: "a \<in> dom (nodes s) \<Longrightarrow>
    kfree_node (Ref a) s = Ok (s\<lparr>nodes := nodes s |` (- {a})\<rparr>)"
  by (auto simp: map_delete)

lemma kfree_list_Ok: "l \<in> dom (lists s) \<Longrightarrow>
    kfree_list (Ref l) s = Ok (s\<lparr>lists := lists s |` (- {l})\<rparr>)"
  by (auto simp: map_delete)

text \<open>The state without the nodes \<open>as\<close> and their buffers.\<close>

definition without :: "nat set \<Rightarrow> kernel \<Rightarrow> kernel" where
  "without A s = s\<lparr>nodes := nodes s |` (- A), bufs := bufs s |` (- Suc ` A)\<rparr>"

lemma without_empty [simp]: "without {} s = s"
  by (cases s) (simp add: without_def)

lemma without_without: "without A (without B s) = without (A \<union> B) s"
  by (cases s) (simp add: without_def Int_commute image_Un)

lemma without_fields [simp]:
  "nodes (without A s) = nodes s |` (- A)" "bufs (without A s) = bufs s |` (- Suc ` A)"
  "lists (without A s) = lists s" "devices (without A s) = devices s"
  "kcalls (without A s) = kcalls s"
  by (simp_all add: without_def)

lemma freeNode_Ok:
  assumes "node_ok s a"
  shows "freeNode (Ref a) s = Ok (without {a} s)"
proof -
  obtain n b where n: "nodes s a = Some n" "msg n = Ref (Suc a)" "bufs s (Suc a) = Some b"
    using assms by (auto simp: node_ok_def)
  then have "kfree_buf (Ref (Suc a)) s = Ok (s\<lparr>bufs := bufs s |` (- {Suc a})\<rparr>)"
    by (intro kfree_buf_Ok) auto
  moreover have "kfree_node (Ref a) (s\<lparr>bufs := bufs s |` (- {Suc a})\<rparr>) = Ok (without {a} s)"
    using n by (subst kfree_node_Ok) (auto simp: without_def)
  ultimately show ?thesis using n by (simp add: freeNode_def del: kfree_buf.simps kfree_node.simps)
qed

lemma node_ok_without: "node_ok s a \<Longrightarrow> a \<notin> A \<Longrightarrow> node_ok (without A s) a"
  by (auto simp: node_ok_def restrict_map_def)

lemma seg_without: "seg nxt (nodes s) p as q \<Longrightarrow> set as \<inter> A = {} \<Longrightarrow> seg nxt (nodes (without A s)) p as q"
proof (induction as arbitrary: p)
  case (Cons a as)
  then obtain n where "p = Ref a" "nodes s a = Some n" "seg nxt (nodes s) (nxt n) as q" by auto
  then show ?case using Cons by auto
qed simp

lemma free_loop_Ok:
  "seg nxt (nodes s) (Ref a) (a # as) Null \<Longrightarrow> distinct (a # as) \<Longrightarrow> \<forall>x \<in> set (a # as). node_ok s x \<Longrightarrow>
   length as < fuel \<Longrightarrow> nodes s a = Some n \<Longrightarrow>
   free_loop fuel (Ref a) (nxt n) s = Ok (without (set (a # as)) s)"
proof (induction as arbitrary: a s fuel n)
  case Nil
  then show ?case using freeNode_Ok [of s a] by (cases fuel) auto
next
  case (Cons b as)
  obtain f where f: "fuel = Suc f" "length as < f" using Cons.prems(4) by (cases fuel) auto
  have nb: "nxt n = Ref b" "seg nxt (nodes s) (Ref b) (b # as) Null" using Cons.prems(1,5) by auto
  let ?s = "without {a} s"
  have fr: "freeNode (Ref a) s = Ok ?s" using Cons.prems(3) by (intro freeNode_Ok) simp
  have sb: "seg nxt (nodes ?s) (Ref b) (b # as) Null"
    using seg_without [OF nb(2), of "{a}"] Cons.prems(2) by auto
  then obtain n' where n': "nodes ?s b = Some n'" by auto
  have "\<forall>x \<in> set (b # as). node_ok ?s x"
    using Cons.prems(2,3) node_ok_without [of s _ "{a}"] by auto
  then have "free_loop f (Ref b) (nxt n') ?s = Ok (without (set (b # as)) ?s)"
    using Cons.IH [OF sb _ _ f(2) n'] Cons.prems(2) by simp
  then show ?case
    using f(1) nb(1) fr n' by (simp add: without_without insert_commute del: without_fields)
qed

lemma freeLst_Ok:
  assumes "lists s l = Some L" and "list_size L = of_nat (length as)" and "length as < 2 ^ 31"
    and "as \<noteq> [] \<Longrightarrow> seg nxt (nodes s) (first L) as Null" and "distinct as"
    and "\<forall>x \<in> set as. node_ok s x" and "length as \<le> kcalls s"
  shows "freeLst (Ref l) s =
    Ok (without (set as) (s\<lparr>lists := lists s |` (- {l})\<rparr>))"
proof -
  have size: "list_size L = 0 \<longleftrightarrow> as = []"
    using assms(2,3) by (simp add: word_unat_eq_iff unat_of_nat take_bit_nat_def)
  have kf: "kfree_list (Ref l) (without (set as) s) =
      Ok (without (set as) (s\<lparr>lists := lists s |` (- {l})\<rparr>))"
    using assms(1) by (subst kfree_list_Ok) (auto simp: without_def)
  show ?thesis
  proof (cases as)
    case Nil
    show ?thesis using assms(1) size kf Nil by (simp add: freeLst_def del: kfree_list.simps)
  next
    case (Cons a as')
    then obtain n where n: "first L = Ref a" "nodes s a = Some n"
        "seg nxt (nodes s) (Ref a) (a # as') Null"
      using assms(4) by auto
    have "free_loop (Suc (kcalls s)) (Ref a) (nxt n) s = Ok (without (set as) s)"
      using free_loop_Ok [OF n(3) _ _ _ n(2)] assms(5-7) Cons by (simp del: free_loop.simps)
    then show ?thesis
      using assms(1) size kf n Cons by (simp add: freeLst_def del: kfree_list.simps free_loop.simps)
  qed
qed

section \<open>Freeing all devices\<close>

text \<open>The state after the lists of the devices below \<open>i\<close> were freed.\<close>

definition freed :: "(nat \<Rightarrow> nat list) \<Rightarrow> kernel \<Rightarrow> nat \<Rightarrow> kernel" where
  "freed G s i = without (\<Union>m \<in> {..<i}. set (G m))
     (s\<lparr>lists := lists s |` (- {l. \<exists>m < i. devices s ! (m + 1) = Ref l})\<rparr>)"

lemma freed_0: "freed G s 0 = s"
  by (cases s) (simp add: freed_def without_def)

lemma cleanup_step:
  assumes "shape s G" and "i < 256"
  shows "(let lst = devices (freed G s i) ! (i + 1)
          in if lst \<noteq> Null then freeLst lst (freed G s i) else Ok (freed G s i)) =
    Ok (freed G s (Suc i))"
proof (cases rule: device_cases [OF assms])
  case 1
  have "{l. \<exists>m < Suc i. devices s ! (m + 1) = Ref l} = {l. \<exists>m < i. devices s ! (m + 1) = Ref l}"
    using 1(1) by (auto simp: less_Suc_eq)
  then show ?thesis using 1 by (simp add: freed_def lessThan_Suc)
next
  case (2 l)
  let ?A = "\<Union>m \<in> {..<i}. set (G m)"
  let ?s = "freed G s i"
  have disj: "set (G i) \<inter> ?A = {}"
  proof -
    have "set (G i) \<inter> set (G m) = {}" if "m < i" for m
      using shape_apart(1) [OF assms(1,2), of m] that assms(2) by simp
    then show ?thesis by blast
  qed
  obtain L where L: "lists s l = Some L" "list_size L = of_nat (length (G i))"
      "length (G i) < 2 ^ 31" "G i \<noteq> [] \<Longrightarrow> seg nxt (nodes s) (first L) (G i) Null"
    using shape_device [OF assms] 2 by (auto simp: device_ok_def split: if_splits)
  have "devices s ! (m + 1) \<noteq> Ref l" if "m < i" for m
    using shape_apart(2) [OF assms(1), of m i] that assms(2) 2 by auto
  then have "lists ?s l = Some L" using L(1) by (auto simp: freed_def restrict_map_def)
  moreover have "seg nxt (nodes ?s) (first L) (G i) Null" if "G i \<noteq> []"
    using seg_without [OF L(4) [OF that] disj] by (simp add: freed_def)
  moreover have "\<forall>x \<in> set (G i). node_ok ?s x"
  proof
    fix x assume x: "x \<in> set (G i)"
    have "node_ok (s\<lparr>lists := lists s |` (- {l. \<exists>m < i. devices s ! (m + 1) = Ref l})\<rparr>) x"
      using shape_node_ok [OF assms(1) shape_member [OF assms x]] by (simp add: node_ok_def)
    then show "node_ok ?s x" unfolding freed_def using x disj by (intro node_ok_without) auto
  qed
  ultimately have "freeLst (Ref l) ?s =
      Ok (without (set (G i)) (?s\<lparr>lists := lists ?s |` (- {l})\<rparr>))"
    using freeLst_Ok [of ?s l L "G i"] L(2,3) ascending_distinct [OF shape_ascending [OF assms]]
      shape_length [OF assms]
    by (simp add: freed_def)
  also have "without (set (G i)) (?s\<lparr>lists := lists ?s |` (- {l})\<rparr>) = freed G s (Suc i)"
  proof -
    have "{l. \<exists>m < Suc i. devices s ! (m + 1) = Ref l} =
        insert l {l. \<exists>m < i. devices s ! (m + 1) = Ref l}"
      using 2 by (auto simp: less_Suc_eq)
    then show ?thesis
      by (cases s) (simp add: freed_def without_def lessThan_Suc image_Un Int_commute Un_commute,
        simp only: compl_insert)
  qed
  finally show ?thesis using 2 by (simp add: freed_def)
qed

text \<open>
  C19: Unloading the module after any history of calls frees every object on the heap exactly
  once: no access to freed memory, no double free, nothing left.
\<close>

theorem cleanup_frees_everything:
  assumes "history km ops s"
  shows "\<exists>s'. simple_cleanup s = Ok s' \<and>
    nodes s' = Map.empty \<and> bufs s' = Map.empty \<and> lists s' = Map.empty"
proof -
  obtain G where "slots_inv s G" using history_inv [OF assms] .
  then have sh: "shape s G" by (simp add: slots_inv_def)
  have "for_upto n (\<lambda>i s. let lst = devices s ! (i + 1)
        in if lst \<noteq> Null then freeLst lst s else Ok s) s = Ok (freed G s n)" if "n \<le> 256" for n
    using that
  proof (induction n)
    case 0
    then show ?case by (simp add: freed_0)
  next
    case (Suc n)
    then show ?case using cleanup_step [OF sh, of n] by simp
  qed
  then have run: "simple_cleanup s = Ok (freed G s 256)"
    by (simp add: simple_cleanup_def MAX_DEVICES_def)
  have "nodes (freed G s 256) = Map.empty"
    unfolding freed_def without_fields using shape_dom(1) [OF sh] by (intro restrict_away) simp
  moreover have "bufs (freed G s 256) = Map.empty"
    unfolding freed_def without_fields using shape_dom(1,2) [OF sh] by (intro restrict_away) simp
  moreover have "lists (freed G s 256) = Map.empty"
    unfolding freed_def without_fields using shape_dom(3) [OF sh]
    by (simp del: Collect_case_prod) (intro restrict_away, simp)
  ultimately show ?thesis using run by blast
qed

theorem cleanup_frees_everything_witness:
  "\<exists>s'. simple_cleanup opened = Ok s' \<and>
    nodes s' = Map.empty \<and> bufs s' = Map.empty \<and> lists s' = Map.empty"
  by (rule cleanup_frees_everything [OF opened_history])

end
