(* ===== verification/Msg_Slot_Fail.thy ===== *)
theory Msg_Slot_Fail
  imports Msg_Slot_Ops
begin

text \<open>
  What a failed \<open>device_write\<close> of \<open>message_slot.c\<close> leaves behind: it has made the node of the channel
  and set its \<open>msgLength\<close> before the allocation and the copy that can fail, so it changes what a
  later read delivers.
\<close>

section \<open>The node that a write works on\<close>

text \<open>
  The node exists already, or it is made, and then its buffer is as \<open>kmalloc\<close> returned it.
\<close>

lemma getOrCreateNode_node:
  assumes "slots_inv s G" and "m < 256" and "devices s ! (m + 1) = Ref l"
    and "length (G m) + 1 < 2 ^ 31"
    and "stored s m ch \<noteq> None \<or> km (kcalls s) \<and> km (Suc (kcalls s))"
  obtains a s1 G1 b where "getOrCreateNode km (Ref l) ch s = Ok (Ref a, s1)" and "shape s1 G1"
    and "a \<in> set (G1 m)" and "chan (nodes s1) a = ch" and "bufs s1 (Suc a) = Some b"
    and "case stored s m ch of None \<Rightarrow> b = replicate MSG_MAX_LENGTH None
         | Some old \<Rightarrow> old = take (length old) b"
proof -
  have sh: "shape s G" and lens: "lengths_ok s" using assms(1) by (simp_all add: slots_inv_def)
  let ?P = "\<lambda>b. chan (nodes s) b < ch"
  define lo where "lo = takeWhile ?P (G m)"
  define hi where "hi = dropWhile ?P (G m)"
  have G: "G m = lo @ hi" by (simp add: lo_def hi_def)
  have eq: "getOrCreateNode km (Ref l) ch s =
    (if hi \<noteq> [] \<and> chan (nodes s) (hd hi) = ch then Ok (Ref (hd hi), s)
     else Ok (created km l ch lo hi s))"
    unfolding getOrCreateNode_eq [OF sh assms(2,3)] Let_def lo_def hi_def by (rule refl)
  show thesis
  proof (cases "hi \<noteq> [] \<and> chan (nodes s) (hd hi) = ch")
    case True
    then have a: "hd hi \<in> set (G m)" unfolding G by auto
    then have "node_ok s (hd hi)" using shape_node_ok [OF sh shape_member [OF sh assms(2)]] by blast
    then obtain n b where n: "nodes s (hd hi) = Some n" "msg n = Ref (Suc (hd hi))"
        "bufs s (Suc (hd hi)) = Some b" "length b = MSG_MAX_LENGTH"
      by (auto simp: node_ok_def)
    obtain k where k: "msgLength n = Some (int k)" "k \<le> MSG_MAX_LENGTH"
      using lens n(1) unfolding lengths_ok_def by blast
    have "stored s m ch = Some (take k b)"
      using stored_at [OF sh assms(2) a] True n k by (simp add: node_msg_def)
    then show thesis using that [of "hd hi" s G b] eq True sh a n(3,4) k(2) by simp
  next
    case False
    then have lohi: "\<forall>a \<in> set lo. chan (nodes s) a < ch" "\<forall>a \<in> set hi. ch < chan (nodes s) a"
      using ascending_split [OF shape_ascending [OF sh assms(2)], of ch]
      unfolding lo_def hi_def by blast+
    then have "\<forall>a \<in> set (G m). chan (nodes s) a \<noteq> ch" unfolding G by auto
    then have none: "stored s m ch = None" by (rule stored_none [OF sh assms(2)])
    let ?s = "link_in l ch lo hi s"
    note g = grown_link_in [OF sh assms(2,3) G lohi assms(4)]
    have "getOrCreateNode km (Ref l) ch s = Ok (Ref (kcalls s), ?s)"
      using eq False assms(5) none by (auto simp: created_def Let_def)
    moreover have "bufs ?s (Suc (kcalls s)) = Some (replicate MSG_MAX_LENGTH None)"
      by (simp add: link_in_def Let_def)
    moreover have "shape ?s (G(m := lo @ kcalls s # hi))" using g(1) by (simp add: grown_def)
    ultimately show thesis using that g(2) none by simp
  qed
qed

lemma failed_write_node:
  assumes "shape s G" and "m < 256" and "a \<in> set (G m)" and "bufs s (Suc a) = Some b"
    and "len \<le> BUF_LEN" and "write_node km (Ref a) src len s = Ok (r, s')" and "r < 0"
  shows "stored s' m (chan (nodes s) a) = Some (take len b)" and "length (take len b) = len"
proof -
  have "node_ok s a" using shape_node_ok [OF assms(1) shape_member [OF assms(1-3)]] .
  then obtain n where n: "nodes s a = Some n" "msg n = Ref (Suc a)" "length b = MSG_MAX_LENGTH"
    using assms(4) by (auto simp: node_ok_def)
  let ?s = "s\<lparr>nodes := (nodes s)(a \<mapsto> n\<lparr>msgLength := Some (int len)\<rparr>), kcalls := Suc (kcalls s)\<rparr>"
  have s': "s' = ?s"
    using write_node_eq [OF n(1,2) assms(4) n(3) shape_fresh(2) [OF assms(1) le_refl] assms(5)] assms(6,7)
    by (auto simp: Let_def split: if_splits)
  have links: "same_links s ?s" using n by (auto simp: same_links_def)
  have "stored ?s m (chan (nodes s) a) = node_msg ?s a"
    using stored_at [OF shape_same_links [OF assms(1) links] assms(2,3)] same_links_chan [OF links] by blast
  then show "stored s' m (chan (nodes s) a) = Some (take len b)"
    using s' n assms(4) by (simp add: node_msg_def)
  show "length (take len b) = len" using n(3) assms(5) by (simp add: BUF_LEN_def MSG_MAX_LENGTH_def)
qed

text \<open>
  C28: A write that fails is not without effect, in any history: \<open>msgLength\<close> is set before the bytes are
  copied. If a write of \<open>len\<close> bytes fails with \<open>ENOSPC\<close> once the node of the channel is there (it was
  there before, or its two allocations succeed), the channel has a message of \<open>len\<close> bytes
  afterwards, and that is what the next read delivers: uninitialised kernel memory if the channel had
  no message, and otherwise the bytes of the old message cut off, or followed by what was in the
  buffer behind it.
\<close>

theorem failed_write_takes_effect:
  assumes "history km ops s" and "minor f < 256" and "private_data f \<noteq> 0"
    and "0 < len" and "len \<le> BUF_LEN"
    and "device_write km f (Bytes src) len s = Ok (- ENOSPC, s')"
    and "stored s (minor f) (to_int (private_data f)) \<noteq> None \<or> km (kcalls s) \<and> km (Suc (kcalls s))"
  shows "\<exists>new. length new = len \<and> stored s' (minor f) (to_int (private_data f)) = Some new \<and>
    (case stored s (minor f) (to_int (private_data f)) of
       None \<Rightarrow> new = replicate len None
     | Some old \<Rightarrow> take (length old) new = take len old) \<and>
    (km (kcalls s') \<longrightarrow> device_read km f (Room BUF_LEN) BUF_LEN s' =
       Ok (int len, new, s'\<lparr>kcalls := Suc (kcalls s')\<rparr>))"
proof -
  let ?m = "minor f" and ?ch = "to_int (private_data f)"
  obtain G where G: "slots_inv s G" "\<forall>m. length (G m) \<le> length ops" using history_inv [OF assms(1)] .
  have small: "length (G ?m) + 1 < 2 ^ 31"
    using G(2)[rule_format, of ?m] assms(1) by (auto simp: history_def)
  have sh: "shape s G" using G(1) by (simp add: slots_inv_def)
  have "devices s ! (?m + 1) \<noteq> Null"
    using assms(3-6) device_slot_ok [OF sh assms(2)] by (auto simp: device_write_def EINVAL_def ENOSPC_def)
  then obtain l where l: "devices s ! (?m + 1) = Ref l" by (cases rule: device_cases [OF sh assms(2)]) auto
  obtain a s1 G1 b where g: "getOrCreateNode km (Ref l) ?ch s = Ok (Ref a, s1)" "shape s1 G1"
      "a \<in> set (G1 ?m)" "chan (nodes s1) a = ?ch" "bufs s1 (Suc a) = Some b"
      and old: "case stored s ?m ?ch of None \<Rightarrow> b = replicate MSG_MAX_LENGTH None
        | Some old \<Rightarrow> old = take (length old) b"
    using getOrCreateNode_node [OF G(1) assms(2) l small assms(7)] .
  have "write_node km (Ref a) src len s1 = Ok (- ENOSPC, s')"
    using assms(3-6) device_slot_ok [OF sh assms(2)] l g(1) by (simp add: device_write_def)
  note w = failed_write_node [OF g(2) assms(2) g(3,5) assms(5) this, unfolded g(4)]
  have st: "stored s' ?m ?ch = Some (take len b)" and len: "length (take len b) = len"
    using w by (simp_all add: ENOSPC_def)
  obtain G' where G': "slots_inv s' G'" "devices s' = devices s"
    using device_write_effect [OF G(1) assms(2) small, of km "Bytes src" len] assms(6) by force
  have sh': "shape s' G'" using G'(1) by (simp add: slots_inv_def)
  have "G' ?m \<noteq> []" using st stored_none [OF sh' assms(2), of ?ch] by auto
  then have "km (kcalls s') \<longrightarrow> device_read km f (Room BUF_LEN) BUF_LEN s' =
      Ok (int len, take len b, s'\<lparr>kcalls := Suc (kcalls s')\<rparr>)"
    using device_read_eq [OF G'(1) assms(2), of km "Room BUF_LEN" BUF_LEN] st len l G'(2) assms(3,5) by simp
  moreover have "case stored s ?m ?ch of None \<Rightarrow> take len b = replicate len None
     | Some old \<Rightarrow> take (length old) (take len b) = take len old"
  proof (cases "stored s ?m ?ch")
    case None
    then show ?thesis using old assms(5) by (simp add: BUF_LEN_def MSG_MAX_LENGTH_def)
  next
    case (Some x)
    then have "take (length x) b = x" using old by simp
    then have "take (length x) (take len b) = take len x" by (metis take_take min.commute)
    then show ?thesis using Some by simp
  qed
  ultimately show ?thesis using st len by blast
qed

text \<open>On a new channel of the example, and on the channel with the message \<open>AB\<close>.\<close>

lemma written_history:
  "history (\<lambda>_. True) [OpOpen 3, OpWrite (example_file 3 7) (Bytes [65, 66]) 2] written"
  using opened_run written_run by (auto simp: history_def example_file_def intro!: exI [of _ opened])

theorem failed_write_takes_effect_witness:
  "(\<exists>s. device_write (\<lambda>_. True) (example_file 3 9) (Bytes []) 4 written = Ok (- ENOSPC, s) \<and>
      device_read (\<lambda>_. True) (example_file 3 9) (Room BUF_LEN) BUF_LEN s =
        Ok (4, [None, None, None, None], s\<lparr>kcalls := Suc (kcalls s)\<rparr>)) \<and>
   (\<exists>s new. device_write (\<lambda>_. True) (example_file 3 7) (Bytes []) 3 written = Ok (- ENOSPC, s) \<and>
      device_read (\<lambda>_. True) (example_file 3 7) (Room BUF_LEN) BUF_LEN s =
        Ok (3, new, s\<lparr>kcalls := Suc (kcalls s)\<rparr>) \<and> take 2 new = [Some 65, Some 66])"
proof -
  have st: "stored written 3 9 = None" "stored written 3 7 = Some [Some 65, Some 66]"
    by (simp_all add: stored_def device_slot_def findChannelId_def written_def opened_def kernel_init_def
        node_msg_def)
  obtain s where s: "device_write (\<lambda>_. True) (example_file 3 9) (Bytes []) 4 written = Ok (- ENOSPC, s)"
    by (simp add: evaluate_slot written_def create_loop_5 insert_before_def createNode_eq)
  obtain t where t: "device_write (\<lambda>_. True) (example_file 3 7) (Bytes []) 3 written = Ok (- ENOSPC, t)"
    by (simp add: evaluate_slot written_def create_loop_5 insert_before_def createNode_eq)
  have four: "replicate 4 (None :: u8 option) = [None, None, None, None]" by (simp add: numeral_eq_Suc)
  have "\<exists>new. length new = 4 \<and> stored s 3 9 = Some new \<and> new = replicate 4 None \<and>
      device_read (\<lambda>_. True) (example_file 3 9) (Room BUF_LEN) BUF_LEN s =
        Ok (int 4, new, s\<lparr>kcalls := Suc (kcalls s)\<rparr>)"
    using failed_write_takes_effect [OF written_history _ _ _ _ s] st(1)
    by (simp add: example_file_def to_int_def BUF_LEN_def)
  moreover have "\<exists>new. length new = 3 \<and> stored t 3 7 = Some new \<and>
      take (length [Some 65, Some 66 :: u8 option]) new = take 3 [Some 65, Some 66] \<and>
      device_read (\<lambda>_. True) (example_file 3 7) (Room BUF_LEN) BUF_LEN t =
        Ok (int 3, new, t\<lparr>kcalls := Suc (kcalls t)\<rparr>)"
    using failed_write_takes_effect [OF written_history _ _ _ _ t] st(2)
    by (simp add: example_file_def to_int_def BUF_LEN_def)
  ultimately show ?thesis using s t four by (auto simp: numeral_2_eq_2)
qed

end
