(* ===== verification/Work_Queue.thy ===== *)
theory Work_Queue
  imports C_Heap
begin

text \<open>
  The data of the concurrent queue, \<open>hw4/queue.c\<close>, and what its functions do to it while they
  hold the mutex: the linked list of items between \<open>head\<close> and \<open>tail\<close>, the linked list of
  waiting threads between \<open>waitingHead\<close> and \<open>waitingTail\<close>, and the three counters of type
  \<open>size_t\<close>. Items live on the heap; a \<open>WaitingThread\<close> lives on the stack of the thread that
  waits, so its address is the number of that thread. The interleaving of the threads is the
  subject of the theory \<open>Queue_Threads\<close>.
\<close>

section \<open>Data\<close>

record item =
  data :: nat
  qnext :: ptr

record waiting_thread =
  wnext :: ptr
  isWaiting :: bool

record queue =
  items :: "nat \<rightharpoonup> item"
  waiters :: "nat \<rightharpoonup> waiting_thread"
  head :: ptr
  tail :: ptr
  count :: u64
  visitedCount :: u64
  waitingHead :: ptr
  waitingTail :: ptr
  waitingCount :: u64

text \<open>\<open>initQueue\<close> sets the fields of the global \<open>queue\<close>; the heap is not touched.\<close>

definition initQueue :: "queue \<Rightarrow> queue" where
  "initQueue q =
     q\<lparr>head := Null, tail := Null, count := 0, visitedCount := 0,
       waitingHead := Null, waitingTail := Null, waitingCount := 0\<rparr>"

definition update_item :: "ptr \<Rightarrow> (item \<Rightarrow> item) \<Rightarrow> queue \<Rightarrow> queue run" where
  "update_item p f q =
     bindR (deref (items q) p) (\<lambda>n. bindR (addr p) (\<lambda>a. Ok (q\<lparr>items := (items q)(a \<mapsto> f n)\<rparr>)))"

definition update_waiter :: "ptr \<Rightarrow> (waiting_thread \<Rightarrow> waiting_thread) \<Rightarrow> queue \<Rightarrow> queue run" where
  "update_waiter p f q =
     bindR (deref (waiters q) p) (\<lambda>n. bindR (addr p) (\<lambda>a. Ok (q\<lparr>waiters := (waiters q)(a \<mapsto> f n)\<rparr>)))"

section \<open>The functions while they hold the mutex\<close>

text \<open>
  The debugging output reads the datum as an \<open>int\<close>: \<open>rd v\<close> says that the client's pointer \<open>v\<close>
  can be read like this.
\<close>

definition read_int :: "(nat \<Rightarrow> bool) \<Rightarrow> nat \<Rightarrow> unit run" where
  "read_int rd v = (if rd v then Ok () else Fault Dangling)"

text \<open>
  \<open>enqueue\<close> before it takes the mutex: \<open>a\<close> is the address \<open>malloc\<close> returned, 0 for \<open>NULL\<close>,
  which is not checked.
\<close>

definition enqueue_new :: "nat \<Rightarrow> nat \<Rightarrow> queue \<Rightarrow> queue run" where
  "enqueue_new a v q =
     (if a = 0 then Fault NullDeref
      else Ok (q\<lparr>items := (items q)(a \<mapsto> \<lparr>data = v, qnext = Null\<rparr>)\<rparr>))"

text \<open>Waking up the first waiting thread, if any; the thread that is signalled.\<close>

definition wake_first :: "queue \<Rightarrow> (nat option \<times> queue) run" where
  "wake_first q =
     (if waitingHead q \<noteq> Null
      then
        bindR (deref (waiters q) (waitingHead q)) (\<lambda>w.
        bindR (addr (waitingHead q)) (\<lambda>t.
          let q1 = q\<lparr>waitingHead := wnext w\<rparr>;
              q2 = (if waitingHead q1 = Null then q1\<lparr>waitingTail := Null\<rparr> else q1);
              q3 = q2\<lparr>waitingCount := waitingCount q2 - 1\<rparr>
          in bindR (update_waiter (Ref t) (\<lambda>w. w\<lparr>isWaiting := False\<rparr>) q3) (\<lambda>q4.
               Ok (Some t, q4))))
      else Ok (None, q))"

definition enqueue_locked :: "(nat \<Rightarrow> bool) \<Rightarrow> nat \<Rightarrow> nat \<Rightarrow> queue \<Rightarrow> (nat option \<times> queue) run" where
  "enqueue_locked rd a v q =
     bindR (if tail q = Null then Ok (q\<lparr>head := Ref a\<rparr>)
            else update_item (tail q) (\<lambda>n. n\<lparr>qnext := Ref a\<rparr>) q) (\<lambda>q1.
       let q2 = q1\<lparr>tail := Ref a\<rparr>; q3 = q2\<lparr>count := count q2 + 1\<rparr>
       in bindR (read_int rd v) (\<lambda>_. wake_first q3))"

text \<open>\<open>dequeue\<close> on an empty queue: the thread \<open>t\<close> puts itself at the end of the waiting list.\<close>

definition register_waiter :: "nat \<Rightarrow> queue \<Rightarrow> queue run" where
  "register_waiter t q =
     (let q1 = q\<lparr>waiters := (waiters q)(t \<mapsto> \<lparr>wnext = Null, isWaiting = True\<rparr>)\<rparr>
      in bindR (if waitingTail q1 = Null then Ok (q1\<lparr>waitingHead := Ref t\<rparr>)
                else update_waiter (waitingTail q1) (\<lambda>w. w\<lparr>wnext := Ref t\<rparr>) q1) (\<lambda>q2.
         Ok (q2\<lparr>waitingTail := Ref t, waitingCount := waitingCount q2 + 1\<rparr>)))"

text \<open>After the wait; the \<open>WaitingThread\<close> goes out of scope.\<close>

definition after_wait :: "nat \<Rightarrow> queue \<Rightarrow> queue run" where
  "after_wait t q =
     bindR (deref (waiters q) (Ref t)) (\<lambda>w.
       let q1 = (if waitingHead q = Ref t then q\<lparr>waitingHead := wnext w\<rparr> else q);
           q2 = (if waitingTail q1 = Ref t then q1\<lparr>waitingTail := Null\<rparr> else q1)
       in Ok (q2\<lparr>waiters := (waiters q2)(t := None)\<rparr>))"

text \<open>Removing the item at the front, in \<open>dequeue\<close> and \<open>tryDequeue\<close>.\<close>

definition take_first :: "(nat \<Rightarrow> bool) \<Rightarrow> queue \<Rightarrow> (nat \<times> queue) run" where
  "take_first rd q =
     bindR (deref (items q) (head q)) (\<lambda>n.
     bindR (addr (head q)) (\<lambda>a.
       let q1 = q\<lparr>head := qnext n\<rparr>;
           q2 = (if head q1 = Null then q1\<lparr>tail := Null\<rparr> else q1);
           q3 = q2\<lparr>count := count q2 - 1, visitedCount := visitedCount q2 + 1\<rparr>
       in bindR (read_int rd (data n)) (\<lambda>_.
            Ok (data n, q3\<lparr>items := (items q3)(a := None)\<rparr>))))"

definition tryDequeue_locked :: "(nat \<Rightarrow> bool) \<Rightarrow> queue \<Rightarrow> (nat option \<times> queue) run" where
  "tryDequeue_locked rd q =
     (if count q = 0 then Ok (None, q)
      else bindR (take_first rd q) (\<lambda>(v, q'). Ok (Some v, q')))"

text \<open>
  \<open>destroyQueue\<close>: its two loops, the first one cut off after \<open>n\<close> rounds. The nodes of the second
  loop are local variables of the waiting threads, not heap objects, so \<open>free\<close> on them is
  undefined and no round is completed.
\<close>

fun destroy_items :: "nat \<Rightarrow> queue \<Rightarrow> queue run" where
  "destroy_items 0 q = Fault OutOfFuel"
| "destroy_items (Suc n) q =
     (if head q \<noteq> Null
      then bindR (deref (items q) (head q)) (\<lambda>i. bindR (addr (head q)) (\<lambda>a.
             destroy_items n (q\<lparr>head := qnext i, items := (items q)(a := None)\<rparr>)))
      else Ok q)"

definition destroy_waiters :: "queue \<Rightarrow> queue run" where
  "destroy_waiters q =
     (if waitingHead q \<noteq> Null
      then bindR (deref (waiters q) (waitingHead q)) (\<lambda>w. Fault BadFree)
      else Ok q)"

definition destroyQueue :: "nat \<Rightarrow> queue \<Rightarrow> queue run" where
  "destroyQueue n q = bindR (destroy_items n q) destroy_waiters"

definition size_of_queue :: "queue \<Rightarrow> u64" where
  "size_of_queue q = count q"

definition visited :: "queue \<Rightarrow> u64" where
  "visited q = visitedCount q"

definition waiting :: "queue \<Rightarrow> u64" where
  "waiting q = waitingCount q"

section \<open>Representation\<close>

definition last_ptr :: "nat list \<Rightarrow> ptr" where
  "last_ptr as = (if as = [] then Null else Ref (last as))"

text \<open>The queue holds the items at the addresses \<open>as\<close>, in this order.\<close>

definition holds_items :: "queue \<Rightarrow> nat list \<Rightarrow> bool" where
  "holds_items q as \<longleftrightarrow>
     seg qnext (items q) (head q) as Null \<and> tail q = last_ptr as \<and> distinct as \<and>
     count q = of_nat (length as) \<and> length as < 2 ^ 64"

definition value_at :: "queue \<Rightarrow> nat \<Rightarrow> nat" where
  "value_at q a = (case items q a of None \<Rightarrow> 0 | Some n \<Rightarrow> data n)"

definition holds :: "queue \<Rightarrow> nat list \<Rightarrow> bool" where
  "holds q vs \<longleftrightarrow> (\<exists>as. holds_items q as \<and> vs = map (value_at q) as)"

text \<open>The threads \<open>ws\<close> wait, in this order.\<close>

definition waits :: "queue \<Rightarrow> nat list \<Rightarrow> bool" where
  "waits q ws \<longleftrightarrow>
     seg wnext (waiters q) (waitingHead q) ws Null \<and> waitingTail q = last_ptr ws \<and> distinct ws \<and>
     waitingCount q = of_nat (length ws) \<and>
     (\<forall>t \<in> set ws. \<exists>w. waiters q t = Some w \<and> isWaiting w)"

lemma last_ptr_simps [simp]:
  "last_ptr [] = Null" "last_ptr [x] = Ref x" "last_ptr (xs @ [x]) = Ref x" "last_ptr xs = Null \<longleftrightarrow> xs = []"
  by (simp_all add: last_ptr_def)

lemma last_ptr_Cons: "ys \<noteq> [] \<Longrightarrow> last_ptr (x # ys) = last_ptr ys"
  by (simp add: last_ptr_def)

lemma holds_items_init: "holds_items (initQueue q) []"
  by (simp add: holds_items_def initQueue_def)

lemma waits_init: "waits (initQueue q) []"
  by (simp add: waits_def initQueue_def)

lemma count_zero: "holds_items q as \<Longrightarrow> count q = 0 \<longleftrightarrow> as = []"
  by (simp add: holds_items_def word_unat_eq_iff unat_of_nat take_bit_nat_def)

lemma holds_items_same:
  assumes "holds_items q as" and "items q' = items q" and "head q' = head q"
    and "tail q' = tail q" and "count q' = count q"
  shows "holds_items q' as"
  using assms by (simp add: holds_items_def)

lemma waits_same:
  assumes "waits q ws" and "waiters q' = waiters q" and "waitingHead q' = waitingHead q"
    and "waitingTail q' = waitingTail q" and "waitingCount q' = waitingCount q"
  shows "waits q' ws"
  using assms by (simp add: waits_def)

section \<open>What the operations do\<close>

text \<open>Appending an object to a linked list that is given by its first and last pointer.\<close>

lemma seg_snoc:
  assumes "seg nx h p as Null" and "distinct as" and "a \<notin> set as" and "h a = Some n" and "nx n = Null"
  shows "if as = [] then seg nx h (Ref a) [a] Null
    else \<exists>m. h (last as) = Some m \<and>
      (\<forall>m'. nx m' = Ref a \<longrightarrow> seg nx (h(last as \<mapsto> m')) p (as @ [a]) Null)"
proof (cases as rule: rev_cases)
  case Nil
  then show ?thesis using assms(4,5) by simp
next
  case (snoc us u)
  obtain m where m: "h u = Some m" using assms(1) snoc seg_determines_next by blast
  have "seg nx (h(u \<mapsto> m')) p (as @ [a]) Null" if m': "nx m' = Ref a" for m'
  proof -
    have "seg nx (h(u \<mapsto> m')) p (us @ [u]) (Ref a)"
      using assms(1,2) m' snoc by (intro seg_relink) auto
    then show ?thesis using assms(3,4,5) snoc by (auto simp: seg_append)
  qed
  then show ?thesis using m snoc by simp
qed

text \<open>The heap keeps its data and its other objects when the link of one object changes.\<close>

definition link_item :: "nat list \<Rightarrow> nat \<Rightarrow> queue \<Rightarrow> queue" where
  "link_item as a q =
     (let q1 = (if as = [] then q\<lparr>head := Ref a\<rparr>
                else q\<lparr>items := (items q)(last as \<mapsto> (the (items q (last as)))\<lparr>qnext := Ref a\<rparr>)\<rparr>)
      in q1\<lparr>tail := Ref a, count := count q + 1\<rparr>)"

lemma link_item_fields [simp]:
  "waiters (link_item as a q) = waiters q" "waitingHead (link_item as a q) = waitingHead q"
  "waitingTail (link_item as a q) = waitingTail q" "waitingCount (link_item as a q) = waitingCount q"
  "visitedCount (link_item as a q) = visitedCount q"
  by (simp_all add: link_item_def Let_def)

lemma holds_last:
  assumes "holds_items q as" and "as \<noteq> []"
  obtains m where "items q (last as) = Some m"
  using assms seg_dom [of qnext "items q" "head q" as Null] last_in_set [OF assms(2)]
  unfolding holds_items_def by (meson domD subsetD)

lemma link_item_heap:
  assumes "holds_items q as"
  shows "dom (items (link_item as a q)) = dom (items q)"
    and "value_at (link_item as a q) b = value_at q b"
    and "b \<notin> set as \<Longrightarrow> items (link_item as a q) b = items q b"
proof -
  have "as \<noteq> [] \<Longrightarrow> last as \<in> dom (items q)" using holds_last [OF assms] by blast
  then show "dom (items (link_item as a q)) = dom (items q)"
    "value_at (link_item as a q) b = value_at q b"
    "b \<notin> set as \<Longrightarrow> items (link_item as a q) b = items q b"
    by (auto simp: link_item_def Let_def value_at_def)
qed

lemma holds_items_link:
  assumes "holds_items q as" and "a \<notin> set as" and "items q a = Some n" and "qnext n = Null"
    and "length as + 1 < 2 ^ 64"
  shows "holds_items (link_item as a q) (as @ [a])"
proof -
  have q: "seg qnext (items q) (head q) as Null" "distinct as" "count q = of_nat (length as)"
    using assms(1) by (simp_all add: holds_items_def)
  show ?thesis
    using seg_snoc [OF q(1,2) assms(2,3,4)] q assms(2,5)
    by (auto simp: holds_items_def link_item_def Let_def split: if_splits)
qed

lemma wake_first_waits:
  assumes "waits q ws"
  shows "\<exists>q'. wake_first q = Ok (case ws of [] \<Rightarrow> None | t # _ \<Rightarrow> Some t, q') \<and> waits q' (tl ws) \<and>
    items q' = items q \<and> head q' = head q \<and> tail q' = tail q \<and> count q' = count q \<and>
    visitedCount q' = visitedCount q \<and>
    waiters q' = (case ws of [] \<Rightarrow> waiters q
       | t # _ \<Rightarrow> (waiters q)(t \<mapsto> (the (waiters q t))\<lparr>isWaiting := False\<rparr>))"
proof (cases ws)
  case Nil
  then show ?thesis using assms by (auto simp: wake_first_def waits_def)
next
  case (Cons t us)
  then obtain w where w: "waitingHead q = Ref t" "waiters q t = Some w"
      "seg wnext (waiters q) (wnext w) us Null"
    using assms by (auto simp: waits_def)
  have us: "t \<notin> set us" "distinct us" using assms Cons by (auto simp: waits_def)
  have "wnext w = Null \<longleftrightarrow> us = []" using seg_Null [OF w(3)] .
  then show ?thesis
    using assms w us Cons
    by (auto simp: wake_first_def waits_def update_waiter_def Let_def seg_frame last_ptr_Cons)
qed

lemma enqueue_locked_holds:
  assumes "holds_items q as" and "waits q ws" and "a \<notin> set as"
    and "items q a = Some \<lparr>data = v, qnext = Null\<rparr>" and "rd v" and "length as + 1 < 2 ^ 64"
  shows "\<exists>q'. enqueue_locked rd a v q = Ok (case ws of [] \<Rightarrow> None | t # _ \<Rightarrow> Some t, q') \<and>
    holds_items q' (as @ [a]) \<and> waits q' (tl ws) \<and> items q' = items (link_item as a q) \<and>
    visitedCount q' = visitedCount q \<and>
    waiters q' = (case ws of [] \<Rightarrow> waiters q
       | t # _ \<Rightarrow> (waiters q)(t \<mapsto> (the (waiters q t))\<lparr>isWaiting := False\<rparr>))"
proof -
  let ?q = "link_item as a q"
  have "as \<noteq> [] \<Longrightarrow> \<exists>m. items q (last as) = Some m"
    using holds_last [OF assms(1)] by blast
  then have run: "enqueue_locked rd a v q = wake_first ?q"
    using assms(1,5)
    by (cases q) (auto simp: enqueue_locked_def holds_items_def last_ptr_def update_item_def
        read_int_def link_item_def Let_def)
  have "waits ?q ws" using assms(2) by (rule waits_same) simp_all
  from wake_first_waits [OF this, unfolded link_item_fields] obtain q' where q':
      "wake_first ?q = Ok (case ws of [] \<Rightarrow> None | t # _ \<Rightarrow> Some t, q')" "waits q' (tl ws)"
      "items q' = items ?q" "head q' = head ?q" "tail q' = tail ?q" "count q' = count ?q"
      "visitedCount q' = visitedCount q"
      "waiters q' = (case ws of [] \<Rightarrow> waiters q
         | t # _ \<Rightarrow> (waiters q)(t \<mapsto> (the (waiters q t))\<lparr>isWaiting := False\<rparr>))"
    by blast
  have "holds_items q' (as @ [a])"
    using holds_items_link [OF assms(1,3,4) _ assms(6)] q'(3-6) by (auto intro: holds_items_same)
  then show ?thesis using run q' by simp
qed

lemma register_waiter_waits:
  assumes "waits q ws" and "t \<notin> set ws"
  shows "\<exists>q'. register_waiter t q = Ok q' \<and> waits q' (ws @ [t]) \<and>
    items q' = items q \<and> head q' = head q \<and> tail q' = tail q \<and> count q' = count q \<and>
    visitedCount q' = visitedCount q \<and>
    (\<forall>u. map_option isWaiting (waiters q' u) =
       (if u = t then Some True else map_option isWaiting (waiters q u)))"
proof -
  let ?h = "(waiters q)(t \<mapsto> \<lparr>wnext = Null, isWaiting = True\<rparr>)"
  have ws: "seg wnext ?h (waitingHead q) ws Null" "distinct ws"
    using assms by (simp_all add: waits_def seg_frame)
  have sn: "if ws = [] then seg wnext ?h (Ref t) [t] Null
      else \<exists>m. ?h (last ws) = Some m \<and>
        (\<forall>m'. wnext m' = Ref t \<longrightarrow> seg wnext (?h(last ws \<mapsto> m')) (waitingHead q) (ws @ [t]) Null)"
    by (rule seg_snoc [OF ws assms(2), of "\<lparr>wnext = Null, isWaiting = True\<rparr>"]) simp_all
  have all: "\<forall>u \<in> set ws. u \<noteq> t \<and> (\<exists>w. waiters q u = Some w \<and> isWaiting w)"
    using assms by (auto simp: waits_def)
  show ?thesis
  proof (cases "ws = []")
    case True
    then show ?thesis
      using assms sn by (auto simp: register_waiter_def waits_def Let_def)
  next
    case False
    then obtain m where m: "?h (last ws) = Some m"
        "seg wnext (?h(last ws \<mapsto> m\<lparr>wnext := Ref t\<rparr>)) (waitingHead q) (ws @ [t]) Null"
      using sn by auto
    have tl: "waitingTail q = Ref (last ws)" and mem: "last ws \<in> set ws"
      and cnt: "waitingCount q = of_nat (length ws)"
      using assms(1) False by (simp_all add: waits_def last_ptr_def)
    let ?q = "q\<lparr>waiters := ?h(last ws \<mapsto> m\<lparr>wnext := Ref t\<rparr>), waitingTail := Ref t,
      waitingCount := waitingCount q + 1\<rparr>"
    have "register_waiter t q = Ok ?q"
      using tl m(1) by (simp add: register_waiter_def update_waiter_def Let_def)
    moreover have lm: "last ws \<noteq> t" "waiters q (last ws) = Some m" "isWaiting m"
      using all mem m(1) by (auto split: if_splits)
    then have "waits ?q (ws @ [t])"
      using m(2) ws(2) assms(2) all cnt by (simp add: waits_def)
    ultimately show ?thesis using lm by auto
  qed
qed

text \<open>
  A thread that was signalled is no longer in the list, so the code behind the wait that would
  remove it changes nothing.
\<close>

lemma after_wait_eq:
  assumes "waits q ws" and "t \<notin> set ws" and "waiters q t = Some w"
  shows "after_wait t q = Ok (q\<lparr>waiters := (waiters q)(t := None)\<rparr>)"
    and "waits (q\<lparr>waiters := (waiters q)(t := None)\<rparr>) ws"
proof -
  have "waitingHead q \<noteq> Ref t"
    using assms(1,2) by (cases ws) (auto simp: waits_def)
  moreover have "waitingTail q \<noteq> Ref t"
    using assms(1,2) last_in_set [of ws] by (auto simp: waits_def last_ptr_def split: if_splits)
  ultimately show "after_wait t q = Ok (q\<lparr>waiters := (waiters q)(t := None)\<rparr>)"
    using assms(3) by (simp add: after_wait_def)
  show "waits (q\<lparr>waiters := (waiters q)(t := None)\<rparr>) ws"
    using assms(1,2) by (auto simp: waits_def seg_frame)
qed

lemma take_first_holds:
  assumes "holds_items q (a # as)" and "rd (value_at q a)"
  shows "\<exists>q'. take_first rd q = Ok (value_at q a, q') \<and> holds_items q' as \<and>
    items q' = (items q)(a := None) \<and> waiters q' = waiters q \<and> waitingHead q' = waitingHead q \<and>
    waitingTail q' = waitingTail q \<and> waitingCount q' = waitingCount q \<and>
    visitedCount q' = visitedCount q + 1"
proof -
  obtain n where n: "head q = Ref a" "items q a = Some n" "seg qnext (items q) (qnext n) as Null"
    using assms(1) by (auto simp: holds_items_def)
  have as: "a \<notin> set as" "distinct as" using assms(1) by (auto simp: holds_items_def)
  have "qnext n = Null \<longleftrightarrow> as = []" using seg_Null [OF n(3)] .
  then show ?thesis
    using assms n as
    by (auto simp: take_first_def holds_items_def read_int_def value_at_def Let_def seg_frame
        last_ptr_Cons)
qed

section \<open>The queue as an abstract data type\<close>

text \<open>
  The contract the threads rely on: \<open>put x\<close> appends \<open>x\<close>, \<open>get x\<close> removes \<open>x\<close> from the front,
  and the other things that happen to the queue leave its contents alone.
\<close>

locale fifo_queue =
  fixes put get :: "'a \<Rightarrow> 'q \<Rightarrow> 'q \<Rightarrow> bool"
    and other :: "'q \<Rightarrow> 'q \<Rightarrow> bool"
    and rep :: "'q \<Rightarrow> 'a list \<Rightarrow> bool"
  assumes rep_put: "rep q xs \<Longrightarrow> put x q q' \<Longrightarrow> rep q' (xs @ [x])"
    and rep_get: "rep q xs \<Longrightarrow> get x q q' \<Longrightarrow> \<exists>ys. xs = x # ys \<and> rep q' ys"
    and rep_other: "rep q xs \<Longrightarrow> other q q' \<Longrightarrow> rep q' xs"

datatype 'a queue_op = Put 'a | Get 'a | Other

text \<open>A sequence of operations leads from one queue to another.\<close>

fun operations :: "('a \<Rightarrow> 'q \<Rightarrow> 'q \<Rightarrow> bool) \<Rightarrow> ('a \<Rightarrow> 'q \<Rightarrow> 'q \<Rightarrow> bool) \<Rightarrow> ('q \<Rightarrow> 'q \<Rightarrow> bool) \<Rightarrow>
    'a queue_op list \<Rightarrow> 'q \<Rightarrow> 'q \<Rightarrow> bool" where
  "operations put get other [] q q' = (q = q')"
| "operations put get other (Put x # os) q q' =
     (\<exists>r. put x q r \<and> operations put get other os r q')"
| "operations put get other (Get x # os) q q' =
     (\<exists>r. get x q r \<and> operations put get other os r q')"
| "operations put get other (Other # os) q q' =
     (\<exists>r. other q r \<and> operations put get other os r q')"

definition puts :: "'a queue_op list \<Rightarrow> 'a list" where
  "puts os = concat (map (\<lambda>x. case x of Put a \<Rightarrow> [a] | _ \<Rightarrow> []) os)"

definition gets :: "'a queue_op list \<Rightarrow> 'a list" where
  "gets os = concat (map (\<lambda>x. case x of Get a \<Rightarrow> [a] | _ \<Rightarrow> []) os)"

lemma puts_gets_simps [simp]:
  "puts [] = []" "puts (Put x # os) = x # puts os" "puts (Get x # os) = puts os"
  "puts (Other # os) = puts os" "puts (os @ os') = puts os @ puts os'"
  "gets [] = []" "gets (Put x # os) = gets os" "gets (Get x # os) = x # gets os"
  "gets (Other # os) = gets os" "gets (os @ os') = gets os @ gets os'"
  by (simp_all add: puts_def gets_def)

lemma operations_append:
  "operations put get other (os @ os') q q' \<longleftrightarrow>
     (\<exists>r. operations put get other os q r \<and> operations put get other os' r q')"
proof (induction os arbitrary: q)
  case (Cons x os)
  then show ?case by (cases x) auto
qed simp

context fifo_queue
begin

text \<open>First in, first out: what went in is what came out, followed by what is still inside.\<close>

lemma first_in_first_out:
  "rep q xs \<Longrightarrow> operations put get other os q q' \<Longrightarrow>
   \<exists>ys. rep q' ys \<and> xs @ puts os = gets os @ ys"
proof (induction os arbitrary: q xs)
  case Nil
  then show ?case by auto
next
  case (Cons x os)
  show ?case
  proof (cases x)
    case (Put a)
    then obtain r where "put a q r" "operations put get other os r q'" using Cons.prems(2) by auto
    then show ?thesis using Cons.IH [OF rep_put [OF Cons.prems(1)]] Put by fastforce
  next
    case (Get a)
    then obtain r where r: "get a q r" "operations put get other os r q'" using Cons.prems(2) by auto
    obtain ys where "xs = a # ys" "rep r ys" using rep_get [OF Cons.prems(1) r(1)] by blast
    then show ?thesis using Cons.IH [OF _ r(2)] Get by fastforce
  next
    case Other
    then obtain r where "other q r" "operations put get other os r q'" using Cons.prems(2) by auto
    then show ?thesis using Cons.IH [OF rep_other [OF Cons.prems(1)]] Other by fastforce
  qed
qed

end

text \<open>Addresses are non-zero and have 64 bits, so \<open>count\<close> cannot overflow.\<close>

definition in_memory :: "queue \<Rightarrow> bool" where
  "in_memory q \<longleftrightarrow> (\<forall>a \<in> dom (items q). 0 < a \<and> a < 2 ^ 64)"

lemma bounded_length:
  assumes "\<forall>a \<in> set as. 0 < a \<and> a < 2 ^ 64" and "distinct (as :: nat list)"
  shows "length as < 2 ^ 64"
proof -
  have "length as = card (set as)" using assms(2) by (simp add: distinct_card)
  also have "\<dots> \<le> card {1..<2 ^ 64 :: nat}" using assms(1) by (intro card_mono) auto
  finally show ?thesis by simp
qed

definition contains :: "queue \<Rightarrow> nat list \<Rightarrow> bool" where
  "contains q vs \<longleftrightarrow> in_memory q \<and>
     (\<exists>as ws. holds_items q as \<and> waits q ws \<and> vs = map (value_at q) as)"

text \<open>\<open>enqueue\<close> with an item that is on the heap but not in the queue.\<close>

definition put_item :: "nat \<Rightarrow> queue \<Rightarrow> queue \<Rightarrow> bool" where
  "put_item v q q' \<longleftrightarrow>
     (\<exists>a rd w. items q a = Some \<lparr>data = v, qnext = Null\<rparr> \<and>
        (\<forall>as. holds_items q as \<longrightarrow> a \<notin> set as) \<and> enqueue_locked rd a v q = Ok (w, q'))"

definition get_item :: "nat \<Rightarrow> queue \<Rightarrow> queue \<Rightarrow> bool" where
  "get_item v q q' \<longleftrightarrow> (\<exists>rd. take_first rd q = Ok (v, q'))"

text \<open>New items, threads that start and end to wait.\<close>

definition other_step :: "queue \<Rightarrow> queue \<Rightarrow> bool" where
  "other_step q q' \<longleftrightarrow> q' = q \<or>
     (\<exists>a v. 0 < a \<and> a < 2 ^ 64 \<and> items q a = None \<and> enqueue_new a v q = Ok q') \<or>
     (\<exists>t ws. waits q ws \<and> t \<notin> set ws \<and> (register_waiter t q = Ok q' \<or> after_wait t q = Ok q'))"

lemma seg_unique: "seg nx h p as Null \<Longrightarrow> seg nx h p bs Null \<Longrightarrow> as = bs"
proof (induction as arbitrary: p bs)
  case Nil
  then show ?case by (cases bs) auto
next
  case (Cons a as)
  then show ?case by (cases bs) auto
qed

lemma holds_items_unique: "holds_items q as \<Longrightarrow> holds_items q bs \<Longrightarrow> as = bs"
  using seg_unique unfolding holds_items_def by blast

lemma read_int_Ok [simp]: "read_int rd v = Ok u \<longleftrightarrow> rd v"
  by (auto simp: read_int_def)

lemma holds_items_dom: "holds_items q as \<Longrightarrow> set as \<subseteq> dom (items q)"
  using seg_dom unfolding holds_items_def by blast

lemma enqueue_room:
  assumes "in_memory q" and "holds_items q as" and "a \<notin> set as" and "a \<in> dom (items q)"
  shows "length as + 1 < 2 ^ 64"
proof -
  have "length (a # as) < 2 ^ 64"
    using assms holds_items_dom [OF assms(2)]
    by (intro bounded_length) (auto simp: in_memory_def holds_items_def)
  then show ?thesis by simp
qed

interpretation wq: fifo_queue put_item get_item other_step contains
proof unfold_locales
  fix q vs v q'
  assume c: "contains q vs" and "put_item v q q'"
  then obtain a rd w where p: "items q a = Some \<lparr>data = v, qnext = Null\<rparr>"
      "\<forall>as. holds_items q as \<longrightarrow> a \<notin> set as" "enqueue_locked rd a v q = Ok (w, q')"
    by (auto simp: put_item_def)
  obtain as ws where h: "in_memory q" "holds_items q as" "waits q ws" "vs = map (value_at q) as"
    using c by (auto simp: contains_def)
  have a: "a \<notin> set as" using p(2) h(2) by blast
  have "rd v" using p(3) by (auto simp: enqueue_locked_def Let_def)
  then obtain q1 where q1: "enqueue_locked rd a v q = Ok (case ws of [] \<Rightarrow> None | t # _ \<Rightarrow> Some t, q1)"
      "holds_items q1 (as @ [a])" "waits q1 (tl ws)" "items q1 = items (link_item as a q)"
    using enqueue_locked_holds [OF h(2,3) a p(1), of rd] enqueue_room [OF h(1,2) a] p(1) by blast
  have eq: "q1 = q'" using q1(1) p(3) by simp
  have "value_at q1 b = value_at q b" for b
    using link_item_heap(2) [OF h(2), of a b] q1(4) by (simp add: value_at_def)
  then have "map (value_at q1) (as @ [a]) = vs @ [v]"
    using h(4) p(1) by (simp add: value_at_def [of q a])
  moreover have "in_memory q1"
    using h(1) link_item_heap(1) [OF h(2), of a] q1(4) by (simp add: in_memory_def)
  ultimately show "contains q' (vs @ [v])"
    using q1(2,3) eq unfolding contains_def by metis
next
  fix q vs v q'
  assume c: "contains q vs" and g: "get_item v q q'"
  obtain rd where rd: "take_first rd q = Ok (v, q')" using g by (auto simp: get_item_def)
  obtain as ws where h: "in_memory q" "holds_items q as" "waits q ws" "vs = map (value_at q) as"
    using c by (auto simp: contains_def)
  have "as \<noteq> []" using rd h(2) by (auto simp: take_first_def holds_items_def)
  then obtain a as' where as: "as = a # as'" by (cases as) auto
  have "rd (value_at q a)"
    using rd h(2) as by (auto simp: take_first_def holds_items_def value_at_def Let_def)
  then obtain q1 where q1: "take_first rd q = Ok (value_at q a, q1)" "holds_items q1 as'"
      "items q1 = (items q)(a := None)" "waiters q1 = waiters q" "waitingHead q1 = waitingHead q"
      "waitingTail q1 = waitingTail q" "waitingCount q1 = waitingCount q"
    using take_first_holds [of q a as' rd] h(2) as by blast
  have eq: "q1 = q'" "v = value_at q a" using q1(1) rd by simp_all
  have "a \<notin> set as'" using h(2) as by (simp add: holds_items_def)
  then have "map (value_at q1) as' = map (value_at q) as'"
    using q1(3) by (auto simp: value_at_def)
  moreover have "in_memory q1" using h(1) q1(3) by (auto simp: in_memory_def)
  moreover have "waits q1 ws" using h(3) by (rule waits_same) (simp_all add: q1)
  ultimately have "contains q' (map (value_at q) as')"
    using q1(2) eq(1) unfolding contains_def by metis
  then show "\<exists>ys. vs = v # ys \<and> contains q' ys" using h(4) as eq(2) by auto
next
  fix q vs q'
  assume c: "contains q vs" and o: "other_step q q'"
  obtain as ws where h: "in_memory q" "holds_items q as" "waits q ws" "vs = map (value_at q) as"
    using c by (auto simp: contains_def)
  show "contains q' vs"
    using o unfolding other_step_def
  proof (elim disjE exE conjE)
    assume "q' = q" then show ?thesis using c by simp
  next
    fix a v assume a: "0 < a" "a < 2 ^ 64" "items q a = None" "enqueue_new a v q = Ok q'"
    have "a \<notin> set as" using holds_items_dom [OF h(2)] a(3) by auto
    then have "holds_items q' as" "map (value_at q') as = vs"
      using a h(2,4) by (auto simp: enqueue_new_def holds_items_def seg_frame value_at_def)
    moreover have "in_memory q'" using a h(1) by (auto simp: enqueue_new_def in_memory_def)
    moreover have "waits q' ws" using h(3) a by (auto simp: enqueue_new_def intro: waits_same)
    ultimately show ?thesis unfolding contains_def by metis
  next
    fix t us assume t: "waits q us" "t \<notin> set us" "register_waiter t q = Ok q'"
    obtain q1 where q1: "register_waiter t q = Ok q1" "waits q1 (us @ [t])" "items q1 = items q"
        "head q1 = head q" "tail q1 = tail q" "count q1 = count q"
      using register_waiter_waits [OF t(1,2)] by blast
    have eq: "q1 = q'" using q1(1) t(3) by simp
    have "holds_items q1 as" using h(2) by (rule holds_items_same) (simp_all add: q1)
    moreover have "in_memory q1" "value_at q1 = value_at q"
      using h(1) q1(3) by (auto simp: in_memory_def value_at_def)
    ultimately show ?thesis using q1(2) h(4) eq unfolding contains_def by metis
  next
    fix t us assume t: "waits q us" "t \<notin> set us" "after_wait t q = Ok q'"
    have "\<exists>w. waiters q t = Some w" using t(3) by (auto simp: after_wait_def split: option.splits)
    then obtain w where w: "waiters q t = Some w" by blast
    have eq: "q' = q\<lparr>waiters := (waiters q)(t := None)\<rparr>" "waits q' us"
      using after_wait_eq [OF t(1,2) w] t(3) by simp_all
    have "holds_items q' as" using h(2) by (rule holds_items_same) (simp_all add: eq(1))
    moreover have "in_memory q'" "value_at q' = value_at q"
      using h(1) by (auto simp: in_memory_def value_at_def eq(1))
    ultimately show ?thesis using eq(2) h(4) unfolding contains_def by metis
  qed
qed

end
