(* ===== verification/Queue_Threads.thy ===== *)
theory Queue_Threads
  imports Work_Queue
begin

text \<open>
  The threads that use the concurrent queue of \<open>hw4/queue.c\<close>. A thread is where it is in one of
  the functions; its steps are the calls to \<open>mtx_lock\<close>, \<open>mtx_unlock\<close>, \<open>cnd_wait\<close> and
  the code between them, which runs while the mutex is held. \<open>cnd_wait\<close> may wake up without a
  signal, \<open>malloc\<close> may return any free address. The theorems are about every interleaving.
\<close>

section \<open>Threads\<close>

text \<open>
  \<open>EnqLock a v\<close>: in \<open>enqueue\<close>, before \<open>mtx_lock\<close>, with the new item at \<open>a\<close>. \<open>EnqBody\<close>: holding
  the mutex. \<open>DeqLoop\<close>: at the test of \<open>queue.count == 0\<close>. \<open>DeqCheck\<close>: at the test of
  \<open>isWaiting\<close>. \<open>DeqSleep\<close>: in \<open>cnd_wait\<close>. \<open>DeqRelock\<close>: woken up there, without the mutex.
\<close>

datatype pc =
  Idle
| EnqLock nat nat | EnqBody nat nat | EnqUnlock
| DeqLock | DeqLoop | DeqCheck | DeqSleep | DeqRelock | DeqUnlock nat
| TryLock | TryBody | TryUnlock "nat option"

record sys =
  qu :: queue
  mutex :: "nat option"
  pcs :: "nat \<Rightarrow> pc"

definition sys_init :: sys where
  "sys_init =
     \<lparr>qu = initQueue \<lparr>items = Map.empty, waiters = Map.empty, head = Null, tail = Null, count = 0,
              visitedCount = 0, waitingHead = Null, waitingTail = Null, waitingCount = 0\<rparr>,
      mutex = None, pcs = (\<lambda>_. Idle)\<rparr>"

text \<open>\<open>cnd_signal\<close> on the condition variable of a waiting thread.\<close>

definition signal :: "nat option \<Rightarrow> (nat \<Rightarrow> pc) \<Rightarrow> nat \<Rightarrow> pc" where
  "signal w p =
     (case w of None \<Rightarrow> p | Some u \<Rightarrow> if p u = DeqSleep then p(u := DeqRelock) else p)"

definition goto :: "nat \<Rightarrow> pc \<Rightarrow> sys \<Rightarrow> sys" where
  "goto t p s = s\<lparr>pcs := (pcs s)(t := p)\<rparr>"

definition try_event :: "nat option \<Rightarrow> nat queue_op" where
  "try_event r = (case r of None \<Rightarrow> Other | Some v \<Rightarrow> Get v)"

inductive step :: "(nat \<Rightarrow> bool) \<Rightarrow> sys \<Rightarrow> nat queue_op \<Rightarrow> sys \<Rightarrow> bool" for rd where
  call_enqueue: "pcs s t = Idle \<Longrightarrow> a < 2 ^ 64 \<Longrightarrow> items (qu s) a = None \<Longrightarrow>
    enqueue_new a v (qu s) = Ok q \<Longrightarrow> step rd s Other (goto t (EnqLock a v) (s\<lparr>qu := q\<rparr>))"
| lock_enqueue: "pcs s t = EnqLock a v \<Longrightarrow> mutex s = None \<Longrightarrow>
    step rd s Other (goto t (EnqBody a v) (s\<lparr>mutex := Some t\<rparr>))"
| do_enqueue: "pcs s t = EnqBody a v \<Longrightarrow> enqueue_locked rd a v (qu s) = Ok (w, q) \<Longrightarrow>
    step rd s (Put v) (s\<lparr>qu := q, pcs := signal w ((pcs s)(t := EnqUnlock))\<rparr>)"
| unlock_enqueue: "pcs s t = EnqUnlock \<Longrightarrow> step rd s Other (goto t Idle (s\<lparr>mutex := None\<rparr>))"
| call_dequeue: "pcs s t = Idle \<Longrightarrow> step rd s Other (goto t DeqLock s)"
| lock_dequeue: "pcs s t = DeqLock \<Longrightarrow> mutex s = None \<Longrightarrow>
    step rd s Other (goto t DeqLoop (s\<lparr>mutex := Some t\<rparr>))"
| loop_wait: "pcs s t = DeqLoop \<Longrightarrow> count (qu s) = 0 \<Longrightarrow> register_waiter t (qu s) = Ok q \<Longrightarrow>
    step rd s Other (goto t DeqCheck (s\<lparr>qu := q\<rparr>))"
| check_wait: "pcs s t = DeqCheck \<Longrightarrow> waiters (qu s) t = Some w \<Longrightarrow> isWaiting w \<Longrightarrow>
    step rd s Other (goto t DeqSleep (s\<lparr>mutex := None\<rparr>))"
| wake_up: "pcs s t = DeqSleep \<Longrightarrow> step rd s Other (goto t DeqRelock s)"
| relock: "pcs s t = DeqRelock \<Longrightarrow> mutex s = None \<Longrightarrow>
    step rd s Other (goto t DeqCheck (s\<lparr>mutex := Some t\<rparr>))"
| check_done: "pcs s t = DeqCheck \<Longrightarrow> waiters (qu s) t = Some w \<Longrightarrow> \<not> isWaiting w \<Longrightarrow>
    after_wait t (qu s) = Ok q \<Longrightarrow> step rd s Other (goto t DeqLoop (s\<lparr>qu := q\<rparr>))"
| loop_take: "pcs s t = DeqLoop \<Longrightarrow> count (qu s) \<noteq> 0 \<Longrightarrow> take_first rd (qu s) = Ok (v, q) \<Longrightarrow>
    step rd s (Get v) (goto t (DeqUnlock v) (s\<lparr>qu := q\<rparr>))"
| unlock_dequeue: "pcs s t = DeqUnlock v \<Longrightarrow> step rd s Other (goto t Idle (s\<lparr>mutex := None\<rparr>))"
| call_try: "pcs s t = Idle \<Longrightarrow> step rd s Other (goto t TryLock s)"
| lock_try: "pcs s t = TryLock \<Longrightarrow> mutex s = None \<Longrightarrow>
    step rd s Other (goto t TryBody (s\<lparr>mutex := Some t\<rparr>))"
| do_try: "pcs s t = TryBody \<Longrightarrow> tryDequeue_locked rd (qu s) = Ok (r, q) \<Longrightarrow>
    step rd s (try_event r) (goto t (TryUnlock r) (s\<lparr>qu := q\<rparr>))"
| unlock_try: "pcs s t = TryUnlock r \<Longrightarrow> step rd s Other (goto t Idle (s\<lparr>mutex := None\<rparr>))"

text \<open>Only \<open>enqueue\<close> puts an item in, and it has read the datum.\<close>

inductive_cases put_stepE: "step rd s (Put v) s'"

lemma put_stepD: "step rd s (Put v) s' \<Longrightarrow> rd v"
  by (erule put_stepE)
    (auto simp: enqueue_locked_def Let_def read_int_def try_event_def split: option.splits if_splits)

text \<open>Reachable states, with the history of what went in and out.\<close>

inductive reach :: "(nat \<Rightarrow> bool) \<Rightarrow> sys \<Rightarrow> nat queue_op list \<Rightarrow> bool" for rd where
  reach_init: "reach rd sys_init []"
| reach_step: "reach rd s es \<Longrightarrow> step rd s e s' \<Longrightarrow> reach rd s' (es @ [e])"

section \<open>The invariant\<close>

fun in_section :: "pc \<Rightarrow> bool" where
  "in_section (EnqBody a v) = True"
| "in_section EnqUnlock = True"
| "in_section DeqLoop = True"
| "in_section DeqCheck = True"
| "in_section (DeqUnlock v) = True"
| "in_section TryBody = True"
| "in_section (TryUnlock r) = True"
| "in_section _ = False"

fun pending :: "pc \<Rightarrow> (nat \<times> nat) option" where
  "pending (EnqLock a v) = Some (a, v)"
| "pending (EnqBody a v) = Some (a, v)"
| "pending _ = None"

definition in_wait :: "pc \<Rightarrow> bool" where
  "in_wait p \<longleftrightarrow> p = DeqSleep \<or> p = DeqRelock \<or> p = DeqCheck"

text \<open>A thread on its way to take an item: it will look at the queue before it sleeps again.\<close>

definition active :: "nat list \<Rightarrow> (nat \<Rightarrow> pc) \<Rightarrow> nat \<Rightarrow> bool" where
  "active ws p t \<longleftrightarrow> p t = DeqLock \<or> p t = DeqLoop \<or> in_wait (p t) \<and> t \<notin> set ws"

definition queue_inv :: "sys \<Rightarrow> nat list \<Rightarrow> nat list \<Rightarrow> bool" where
  "queue_inv s as ws \<longleftrightarrow> in_memory (qu s) \<and> holds_items (qu s) as \<and> waits (qu s) ws"

definition pend_inv :: "sys \<Rightarrow> nat list \<Rightarrow> bool" where
  "pend_inv s as \<longleftrightarrow>
     (\<forall>t a v. pending (pcs s t) = Some (a, v) \<longrightarrow>
        a \<notin> set as \<and> items (qu s) a = Some \<lparr>data = v, qnext = Null\<rparr> \<and>
        (\<forall>u b w. u \<noteq> t \<longrightarrow> pending (pcs s u) = Some (b, w) \<longrightarrow> b \<noteq> a))"

definition mutex_inv :: "sys \<Rightarrow> bool" where
  "mutex_inv s \<longleftrightarrow> (\<forall>t. in_section (pcs s t) \<longleftrightarrow> mutex s = Some t)"

definition wait_inv :: "sys \<Rightarrow> nat list \<Rightarrow> bool" where
  "wait_inv s ws \<longleftrightarrow>
     (\<forall>t. map_option isWaiting (waiters (qu s) t) =
            (if in_wait (pcs s t) then Some (t \<in> set ws) else None) \<and>
          (t \<in> set ws \<longrightarrow> in_wait (pcs s t)) \<and> (pcs s t = DeqSleep \<longrightarrow> t \<in> set ws))"

definition wake_inv :: "sys \<Rightarrow> nat list \<Rightarrow> nat list \<Rightarrow> bool" where
  "wake_inv s as ws \<longleftrightarrow>
     finite {t. pcs s t \<noteq> Idle} \<and>
     (ws \<noteq> [] \<longrightarrow> length as \<le> card {t. active ws (pcs s) t})"

definition sys_inv :: "sys \<Rightarrow> nat list \<Rightarrow> nat list \<Rightarrow> bool" where
  "sys_inv s as ws \<longleftrightarrow>
     queue_inv s as ws \<and> pend_inv s as \<and> mutex_inv s \<and> wait_inv s ws \<and> wake_inv s as ws"

lemma goto_fields [simp]:
  "qu (goto t p s) = qu s" "mutex (goto t p s) = mutex s" "pcs (goto t p s) = (pcs s)(t := p)"
  by (simp_all add: goto_def)

lemma sys_inv_init: "sys_inv sys_init [] []"
proof -
  have "in_memory (qu sys_init)" by (simp add: sys_init_def in_memory_def initQueue_def)
  moreover have "holds_items (qu sys_init) []" "waits (qu sys_init) []"
    by (simp_all add: sys_init_def holds_items_init waits_init)
  ultimately show ?thesis
    by (simp add: sys_inv_def queue_inv_def pend_inv_def mutex_inv_def wait_inv_def wake_inv_def)
      (simp add: sys_init_def initQueue_def in_wait_def)
qed

lemma active_finite:
  assumes "finite {t. p t \<noteq> Idle}" shows "finite {t. active ws p t}"
  using assms by (rule finite_subset [rotated]) (auto simp: active_def in_wait_def)

lemma pend_inv_mono:
  assumes "pend_inv s as" and "\<And>u x. pending (pcs s' u) = Some x \<Longrightarrow> pending (pcs s u) = Some x"
    and "\<And>u a v. pending (pcs s' u) = Some (a, v) \<Longrightarrow> a \<notin> set as \<Longrightarrow>
      items (qu s) a = Some \<lparr>data = v, qnext = Null\<rparr> \<Longrightarrow>
      a \<notin> set as' \<and> items (qu s') a = Some \<lparr>data = v, qnext = Null\<rparr>"
  shows "pend_inv s' as'"
  unfolding pend_inv_def
proof (intro allI impI conjI)
  fix t a v assume p: "pending (pcs s' t) = Some (a, v)"
  then have "pending (pcs s t) = Some (a, v)" by (rule assms(2))
  then have "a \<notin> set as" "items (qu s) a = Some \<lparr>data = v, qnext = Null\<rparr>"
    using assms(1) unfolding pend_inv_def by blast+
  then show "a \<notin> set as'" "items (qu s') a = Some \<lparr>data = v, qnext = Null\<rparr>"
    using assms(3) [OF p] by blast+
next
  fix t a v u b w
  assume "pending (pcs s' t) = Some (a, v)" "u \<noteq> t" "pending (pcs s' u) = Some (b, w)"
  then show "b \<noteq> a" using assms(1,2) unfolding pend_inv_def by blast
qed

text \<open>Steps that move one thread and perhaps the mutex, but not the queue.\<close>

lemma sys_inv_move:
  assumes "sys_inv s as ws" and "qu s' = qu s" and "pcs s' = (pcs s)(t := p)"
    and "pending p = pending (pcs s t) \<or> pending p = None"
    and "in_section p \<longleftrightarrow> mutex s' = Some t"
    and "mutex s' = mutex s \<or> mutex s \<in> {None, Some t} \<and> mutex s' \<in> {None, Some t}"
    and "in_wait p = in_wait (pcs s t)" and "p = DeqSleep \<longrightarrow> t \<in> set ws"
    and "active ws (pcs s) t \<longrightarrow> active ws ((pcs s)(t := p)) t"
  shows "sys_inv s' as ws"
proof -
  have inv: "queue_inv s as ws" "pend_inv s as" "mutex_inv s" "wait_inv s ws" "wake_inv s as ws"
    using assms(1) by (simp_all add: sys_inv_def)
  have "queue_inv s' as ws" using inv(1) by (simp add: queue_inv_def assms(2))
  moreover have "pend_inv s' as"
    using inv(2) by (rule pend_inv_mono) (use assms(2-4) in \<open>auto split: if_splits\<close>)
  moreover have "mutex_inv s'"
    unfolding mutex_inv_def
  proof
    fix u
    show "in_section (pcs s' u) \<longleftrightarrow> mutex s' = Some u"
    proof (cases "u = t")
      case True
      then show ?thesis using assms(3,5) by simp
    next
      case False
      have "in_section (pcs s u) \<longleftrightarrow> mutex s = Some u" using inv(3) by (simp add: mutex_inv_def)
      then show ?thesis using False assms(3,6) by auto
    qed
  qed
  moreover have "wait_inv s' ws"
    unfolding wait_inv_def
  proof
    fix u
    show "map_option isWaiting (waiters (qu s') u) =
          (if in_wait (pcs s' u) then Some (u \<in> set ws) else None) \<and>
        (u \<in> set ws \<longrightarrow> in_wait (pcs s' u)) \<and> (pcs s' u = DeqSleep \<longrightarrow> u \<in> set ws)"
      using inv(4)[unfolded wait_inv_def, rule_format, of u] assms(2,3,7,8) by (cases "u = t") auto
  qed
  moreover have "wake_inv s' as ws"
  proof -
    have fin: "finite {u. pcs s u \<noteq> Idle}" using inv(5) by (simp add: wake_inv_def)
    have "{u. pcs s' u \<noteq> Idle} \<subseteq> insert t {u. pcs s u \<noteq> Idle}" using assms(3) by auto
    then have fin': "finite {u. pcs s' u \<noteq> Idle}" using fin by (meson finite.insertI finite_subset)
    have "{u. active ws (pcs s) u} \<subseteq> {u. active ws (pcs s') u}"
      using assms(3,9) by (auto simp: active_def)
    then have "card {u. active ws (pcs s) u} \<le> card {u. active ws (pcs s') u}"
      by (rule card_mono [OF active_finite [OF fin']])
    then show ?thesis using inv(5) fin' by (auto simp: wake_inv_def)
  qed
  ultimately show ?thesis by (simp add: sys_inv_def)
qed

section \<open>Every step keeps the invariant\<close>

lemma mutex_unique:
  assumes "sys_inv s as ws" and "in_section (pcs s t)"
  shows "mutex s = Some t" and "u \<noteq> t \<Longrightarrow> \<not> in_section (pcs s u)"
  using assms by (auto simp: sys_inv_def mutex_inv_def)

lemma waiting_flag:
  assumes "sys_inv s as ws" and "waiters (qu s) t = Some w" and "in_wait (pcs s t)"
  shows "isWaiting w \<longleftrightarrow> t \<in> set ws"
  using assms unfolding sys_inv_def wait_inv_def by (metis option.inject option.map(2))

lemma finite_goto:
  assumes "finite {u. pcs s u \<noteq> Idle}" shows "finite {u. ((pcs s)(t := p)) u \<noteq> Idle}"
proof -
  have "{u. ((pcs s)(t := p)) u \<noteq> Idle} \<subseteq> insert t {u. pcs s u \<noteq> Idle}" by auto
  then show ?thesis using assms by (meson finite.insertI finite_subset)
qed

lemma inv_call_enqueue:
  assumes "sys_inv s as ws" and "pcs s t = Idle" and "a < 2 ^ 64" and "items (qu s) a = None"
    and "enqueue_new a v (qu s) = Ok q"
  shows "sys_inv (goto t (EnqLock a v) (s\<lparr>qu := q\<rparr>)) as ws"
proof -
  let ?s = "goto t (EnqLock a v) (s\<lparr>qu := q\<rparr>)"
  have inv: "queue_inv s as ws" "pend_inv s as" "mutex_inv s" "wait_inv s ws" "wake_inv s as ws"
    using assms(1) by (simp_all add: sys_inv_def)
  have a: "a \<noteq> 0" and q: "q = (qu s)\<lparr>items := (items (qu s))(a \<mapsto> \<lparr>data = v, qnext = Null\<rparr>)\<rparr>"
    using assms(5) by (auto simp: enqueue_new_def split: if_splits)
  have "a \<notin> set as"
    using inv(1) holds_items_dom assms(4) by (auto simp: queue_inv_def)
  then have "queue_inv ?s as ws"
    using inv(1) a assms(3) by (auto simp: queue_inv_def q in_memory_def holds_items_def waits_def seg_frame)
  moreover have "pend_inv ?s as"
    unfolding pend_inv_def
  proof (intro allI impI conjI)
    fix u b w assume p: "pending (pcs ?s u) = Some (b, w)"
    have old: "pending (pcs s u) = Some (b, w) \<and> b \<noteq> a" if "u \<noteq> t"
      using p that inv(2) assms(4) unfolding pend_inv_def by fastforce
    show "b \<notin> set as"
      using p old inv(2) \<open>a \<notin> set as\<close> unfolding pend_inv_def by (cases "u = t") auto
    show "items (qu ?s) b = Some \<lparr>data = w, qnext = Null\<rparr>"
      using p old inv(2) unfolding pend_inv_def q by (cases "u = t") auto
    fix u' c x assume u': "u' \<noteq> u" "pending (pcs ?s u') = Some (c, x)"
    have old': "pending (pcs s u') = Some (c, x) \<and> c \<noteq> a" if "u' \<noteq> t"
      using u' that inv(2) assms(4) unfolding pend_inv_def by fastforce
    show "c \<noteq> b"
    proof (cases "u = t \<or> u' = t")
      case True
      then show ?thesis using p u' old old' by (cases "u = t") auto
    next
      case False
      then show ?thesis using old old' u'(1) inv(2) unfolding pend_inv_def by blast
    qed
  qed
  moreover have "mutex s \<noteq> Some t"
    using inv(3)[unfolded mutex_inv_def, rule_format, of t] assms(2) by simp
  then have "mutex_inv ?s" using inv(3) by (auto simp: mutex_inv_def)
  moreover have "wait_inv ?s ws"
    using inv(4) assms(2) by (auto simp: wait_inv_def q in_wait_def)
  moreover have "wake_inv ?s as ws"
  proof -
    have "active ws (pcs ?s) = active ws (pcs s)"
      using assms(2) by (auto simp: active_def in_wait_def fun_eq_iff)
    then show ?thesis using inv(5) finite_goto [of s t "EnqLock a v"] by (simp add: wake_inv_def)
  qed
  ultimately show ?thesis by (simp add: sys_inv_def)
qed

lemma inv_do_enqueue:
  assumes "sys_inv s as ws" and "pcs s t = EnqBody a v"
    and "enqueue_locked rd a v (qu s) = Ok (w, q)"
  shows "sys_inv (s\<lparr>qu := q, pcs := signal w ((pcs s)(t := EnqUnlock))\<rparr>) (as @ [a]) (tl ws)"
    and "w = (case ws of [] \<Rightarrow> None | u # _ \<Rightarrow> Some u)"
proof -
  let ?p = "signal w ((pcs s)(t := EnqUnlock))"
  let ?s = "s\<lparr>qu := q, pcs := ?p\<rparr>"
  have inv: "queue_inv s as ws" "pend_inv s as" "mutex_inv s" "wait_inv s ws" "wake_inv s as ws"
    using assms(1) by (simp_all add: sys_inv_def)
  have h: "in_memory (qu s)" "holds_items (qu s) as" "waits (qu s) ws"
    using inv(1) by (simp_all add: queue_inv_def)
  have pa: "a \<notin> set as" "items (qu s) a = Some \<lparr>data = v, qnext = Null\<rparr>"
    using inv(2) assms(2) unfolding pend_inv_def by (metis pending.simps(2))+
  have "rd v" using assms(3) by (auto simp: enqueue_locked_def Let_def)
  then obtain q1 where q1: "enqueue_locked rd a v (qu s) = Ok (case ws of [] \<Rightarrow> None | t # _ \<Rightarrow> Some t, q1)"
      "holds_items q1 (as @ [a])" "waits q1 (tl ws)" "items q1 = items (link_item as a (qu s))"
      "waiters q1 = (case ws of [] \<Rightarrow> waiters (qu s)
       | t # _ \<Rightarrow> (waiters (qu s))(t \<mapsto> (the (waiters (qu s) t))\<lparr>isWaiting := False\<rparr>))"
    using enqueue_locked_holds [OF h(2,3) pa, of rd] enqueue_room [OF h(1,2) pa(1)] pa(2) by blast
  have w: "w = (case ws of [] \<Rightarrow> None | u # _ \<Rightarrow> Some u)" and q: "q = q1"
    using q1(1) assms(3) by simp_all
  show "w = (case ws of [] \<Rightarrow> None | u # _ \<Rightarrow> Some u)" by (rule w)
  have p_other: "?p u = ((pcs s)(t := EnqUnlock)) u \<or>
      ws \<noteq> [] \<and> u = hd ws \<and> pcs s u = DeqSleep \<and> ?p u = DeqRelock \<and> u \<noteq> t" for u
    by (auto simp: w signal_def split: list.split)
  have inws: "in_wait (pcs s u)" if "u \<in> set ws" for u
    using inv(4) that by (auto simp: wait_inv_def)
  have t: "t \<notin> set ws" using inws [of t] assms(2) by (auto simp: in_wait_def)
  have p_t: "?p t = EnqUnlock" using p_other [of t] by auto
  have p_in_wait: "in_wait (?p u) = in_wait (pcs s u)" for u
    using p_other [of u] assms(2) by (cases "u = t") (auto simp: in_wait_def)
  have "queue_inv ?s (as @ [a]) (tl ws)"
    using h(1) q1(2-4) link_item_heap(1) [OF h(2), of a] by (simp add: queue_inv_def q in_memory_def)
  moreover have "pend_inv ?s (as @ [a])"
    using inv(2)
  proof (rule pend_inv_mono)
    fix u x assume p: "pending (pcs ?s u) = Some x"
    then show "pending (pcs s u) = Some x" using p_other [of u] by (cases "u = t") auto
  next
    fix u b y
    assume b: "pending (pcs ?s u) = Some (b, y)" "b \<notin> set as"
      "items (qu s) b = Some \<lparr>data = y, qnext = Null\<rparr>"
    have "u \<noteq> t" using b(1) p_t by auto
    then have "pending (pcs s u) = Some (b, y)" using b(1) p_other [of u] by auto
    then have "b \<noteq> a" using inv(2) assms(2) \<open>u \<noteq> t\<close> unfolding pend_inv_def
      by (metis pending.simps(2))
    then show "b \<notin> set (as @ [a]) \<and> items (qu ?s) b = Some \<lparr>data = y, qnext = Null\<rparr>"
      using b(2,3) link_item_heap(3) [OF h(2) b(2), of a] q1(4) by (simp add: q)
  qed
  moreover have "mutex_inv ?s"
    unfolding mutex_inv_def
  proof
    fix u
    have "in_section (?p u) = in_section (pcs s u)"
      using p_other [of u] assms(2) by (cases "u = t") auto
    then show "in_section (pcs ?s u) \<longleftrightarrow> mutex ?s = Some u" using inv(3) by (simp add: mutex_inv_def)
  qed
  moreover have "wait_inv ?s (tl ws)"
    unfolding wait_inv_def
  proof
    fix u
    have W: "map_option isWaiting (waiters (qu s) u) =
        (if in_wait (pcs s u) then Some (u \<in> set ws) else None)"
        "pcs s u = DeqSleep \<longrightarrow> u \<in> set ws"
      using inv(4) by (auto simp: wait_inv_def)
    have dist: "distinct ws" using h(3) by (simp add: waits_def)
    show "map_option isWaiting (waiters (qu ?s) u) =
          (if in_wait (pcs ?s u) then Some (u \<in> set (tl ws)) else None) \<and>
        (u \<in> set (tl ws) \<longrightarrow> in_wait (pcs ?s u)) \<and> (pcs ?s u = DeqSleep \<longrightarrow> u \<in> set (tl ws))"
    proof (cases ws)
      case Nil
      then show ?thesis using W p_in_wait [of u] p_other [of u] q1(5) assms(2)
        by (cases "u = t") (auto simp: q)
    next
      case (Cons x xs)
      have iw: "in_wait (?p u) = in_wait (pcs s u)" by (rule p_in_wait)
      show ?thesis
      proof (cases "u = x")
        case True
        then have "u \<notin> set xs" "in_wait (pcs s u)" using dist Cons inws [of u] by auto
        moreover have "?p u \<noteq> DeqSleep"
          using True Cons t by (auto simp: w signal_def)
        ultimately show ?thesis using True Cons q1(5) iw by (simp add: q)
      next
        case False
        have "?p u = DeqSleep \<longrightarrow> u \<in> set ws"
          using p_other [of u] W(2) assms(2) by (cases "u = t") auto
        then show ?thesis using False Cons q1(5) iw W inws [of u] by (auto simp: q)
      qed
    qed
  qed
  moreover have "wake_inv ?s (as @ [a]) (tl ws)"
  proof -
    have "{u. ?p u \<noteq> Idle} \<subseteq> insert t {u. pcs s u \<noteq> Idle}"
    proof
      fix u assume "u \<in> {u. ?p u \<noteq> Idle}"
      then show "u \<in> insert t {u. pcs s u \<noteq> Idle}" using p_other [of u] by (cases "u = t") auto
    qed
    moreover have "finite (insert t {u. pcs s u \<noteq> Idle})" using inv(5) by (simp add: wake_inv_def)
    ultimately have fin: "finite {u. ?p u \<noteq> Idle}" by (rule finite_subset)
    have "length (as @ [a]) \<le> card {u. active (tl ws) ?p u}" if ne: "tl ws \<noteq> []"
    proof -
      obtain x xs where ws: "ws = x # xs" using ne by (cases ws) auto
      have x: "\<not> active ws (pcs s) x" "x \<notin> set xs"
        using inws [of x] h(3) ws by (auto simp: active_def in_wait_def waits_def)
      have "insert x {u. active ws (pcs s) u} \<subseteq> {u. active (tl ws) ?p u}"
      proof
        fix u assume u: "u \<in> insert x {u. active ws (pcs s) u}"
        show "u \<in> {u. active (tl ws) ?p u}"
        proof (cases "u = x")
          case True
          then show ?thesis using x(2) ws p_in_wait [of x] inws [of x] by (simp add: active_def)
        next
          case False
          then have "active ws (pcs s) u" using u by simp
          moreover have "u \<noteq> t" using calculation assms(2) by (auto simp: active_def in_wait_def)
          moreover have "?p u = pcs s u" using p_other [of u] False ws \<open>u \<noteq> t\<close> by auto
          ultimately show ?thesis using ws by (auto simp: active_def)
        qed
      qed
      then have "card (insert x {u. active ws (pcs s) u}) \<le> card {u. active (tl ws) ?p u}"
        by (rule card_mono [OF active_finite [OF fin]])
      moreover have "finite {u. active ws (pcs s) u}"
        using inv(5) by (intro active_finite) (simp add: wake_inv_def)
      ultimately show ?thesis using inv(5) x(1) ws by (simp add: wake_inv_def)
    qed
    then show ?thesis using fin by (simp add: wake_inv_def)
  qed
  ultimately show "sys_inv ?s (as @ [a]) (tl ws)" by (simp add: sys_inv_def)
qed

lemma inv_loop_wait:
  assumes "sys_inv s as ws" and "pcs s t = DeqLoop" and "count (qu s) = 0"
    and "register_waiter t (qu s) = Ok q"
  shows "sys_inv (goto t DeqCheck (s\<lparr>qu := q\<rparr>)) as (ws @ [t])" and "t \<notin> set ws"
proof -
  let ?s = "goto t DeqCheck (s\<lparr>qu := q\<rparr>)"
  have inv: "queue_inv s as ws" "pend_inv s as" "mutex_inv s" "wait_inv s ws" "wake_inv s as ws"
    using assms(1) by (simp_all add: sys_inv_def)
  have h: "in_memory (qu s)" "holds_items (qu s) as" "waits (qu s) ws"
    using inv(1) by (simp_all add: queue_inv_def)
  have as: "as = []" using count_zero [OF h(2)] assms(3) by simp
  show t: "t \<notin> set ws"
    using inv(4)[unfolded wait_inv_def, rule_format, of t] assms(2) by (auto simp: in_wait_def)
  obtain q1 where q1: "register_waiter t (qu s) = Ok q1" "waits q1 (ws @ [t])"
      "items q1 = items (qu s)" "head q1 = head (qu s)" "tail q1 = tail (qu s)"
      "count q1 = count (qu s)"
      "\<And>u. map_option isWaiting (waiters q1 u) =
         (if u = t then Some True else map_option isWaiting (waiters (qu s) u))"
    using register_waiter_waits [OF h(3) t] by blast
  have q: "q = q1" using q1(1) assms(4) by simp
  have "holds_items q1 as" using h(2) by (rule holds_items_same) (simp_all add: q1)
  then have "queue_inv ?s as (ws @ [t])"
    using h(1) q1(2,3) by (simp add: queue_inv_def q in_memory_def)
  moreover have "pend_inv ?s as"
    using inv(2) by (rule pend_inv_mono) (auto simp: q q1(3) split: if_splits)
  moreover have "mutex_inv ?s"
    using inv(3) mutex_unique(1) [OF assms(1), of t] assms(2) by (auto simp: mutex_inv_def)
  moreover have "wait_inv ?s (ws @ [t])"
    unfolding wait_inv_def
  proof
    fix u
    show "map_option isWaiting (waiters (qu ?s) u) =
          (if in_wait (pcs ?s u) then Some (u \<in> set (ws @ [t])) else None) \<and>
        (u \<in> set (ws @ [t]) \<longrightarrow> in_wait (pcs ?s u)) \<and>
        (pcs ?s u = DeqSleep \<longrightarrow> u \<in> set (ws @ [t]))"
      using inv(4)[unfolded wait_inv_def, rule_format, of u] q1(7) [of u]
      by (cases "u = t") (auto simp: q in_wait_def)
  qed
  moreover have "wake_inv ?s as (ws @ [t])"
    using inv(5) finite_goto [of s t DeqCheck] by (simp add: wake_inv_def as)
  ultimately show "sys_inv ?s as (ws @ [t])" by (simp add: sys_inv_def)
qed

lemma inv_check_done:
  assumes "sys_inv s as ws" and "pcs s t = DeqCheck" and "waiters (qu s) t = Some w"
    and "\<not> isWaiting w" and "after_wait t (qu s) = Ok q"
  shows "sys_inv (goto t DeqLoop (s\<lparr>qu := q\<rparr>)) as ws" and "t \<notin> set ws"
    and "q = (qu s)\<lparr>waiters := (waiters (qu s))(t := None)\<rparr>"
proof -
  let ?s = "goto t DeqLoop (s\<lparr>qu := q\<rparr>)"
  have inv: "queue_inv s as ws" "pend_inv s as" "mutex_inv s" "wait_inv s ws" "wake_inv s as ws"
    using assms(1) by (simp_all add: sys_inv_def)
  have h: "in_memory (qu s)" "holds_items (qu s) as" "waits (qu s) ws"
    using inv(1) by (simp_all add: queue_inv_def)
  show t: "t \<notin> set ws"
    using waiting_flag [OF assms(1,3)] assms(2,4) by (simp add: in_wait_def)
  show q: "q = (qu s)\<lparr>waiters := (waiters (qu s))(t := None)\<rparr>"
    using after_wait_eq(1) [OF h(3) t assms(3)] assms(5) by simp
  have "queue_inv ?s as ws"
    using h after_wait_eq(2) [OF h(3) t assms(3)]
    by (simp add: queue_inv_def q in_memory_def holds_items_def)
  moreover have "pend_inv ?s as"
    using inv(2) by (rule pend_inv_mono) (auto simp: q split: if_splits)
  moreover have "mutex_inv ?s"
    using inv(3) mutex_unique(1) [OF assms(1), of t] assms(2) by (auto simp: mutex_inv_def)
  moreover have "wait_inv ?s ws"
    unfolding wait_inv_def
  proof
    fix u
    show "map_option isWaiting (waiters (qu ?s) u) =
          (if in_wait (pcs ?s u) then Some (u \<in> set ws) else None) \<and>
        (u \<in> set ws \<longrightarrow> in_wait (pcs ?s u)) \<and> (pcs ?s u = DeqSleep \<longrightarrow> u \<in> set ws)"
      using inv(4)[unfolded wait_inv_def, rule_format, of u] t
      by (cases "u = t") (auto simp: q in_wait_def)
  qed
  moreover have "wake_inv ?s as ws"
  proof -
    have "active ws (pcs ?s) = active ws (pcs s)"
      using assms(2) t by (auto simp: active_def in_wait_def fun_eq_iff)
    then show ?thesis using inv(5) finite_goto [of s t DeqLoop] by (simp add: wake_inv_def)
  qed
  ultimately show "sys_inv ?s as ws" by (simp add: sys_inv_def)
qed

text \<open>Taking an item, in \<open>dequeue\<close> and in \<open>tryDequeue\<close>.\<close>

lemma inv_take:
  assumes "sys_inv s as ws" and "pcs s t = DeqLoop \<or> pcs s t = TryBody"
    and "take_first rd (qu s) = Ok (v, q)" and "in_section p" and "pending p = None"
    and "\<not> in_wait p"
  shows "\<exists>a as'. as = a # as' \<and> v = value_at (qu s) a \<and>
    sys_inv (goto t p (s\<lparr>qu := q\<rparr>)) as' ws \<and> visitedCount q = visitedCount (qu s) + 1"
proof -
  let ?s = "goto t p (s\<lparr>qu := q\<rparr>)"
  have inv: "queue_inv s as ws" "pend_inv s as" "mutex_inv s" "wait_inv s ws" "wake_inv s as ws"
    using assms(1) by (simp_all add: sys_inv_def)
  have h: "in_memory (qu s)" "holds_items (qu s) as" "waits (qu s) ws"
    using inv(1) by (simp_all add: queue_inv_def)
  have "as \<noteq> []" using assms(3) h(2) by (auto simp: take_first_def holds_items_def)
  then obtain a as' where as: "as = a # as'" by (cases as) auto
  have "rd (value_at (qu s) a)"
    using assms(3) h(2) as by (auto simp: take_first_def holds_items_def value_at_def Let_def)
  then obtain q1 where q1: "take_first rd (qu s) = Ok (value_at (qu s) a, q1)"
      "holds_items q1 as'" "items q1 = (items (qu s))(a := None)" "waiters q1 = waiters (qu s)"
      "waitingHead q1 = waitingHead (qu s)" "waitingTail q1 = waitingTail (qu s)"
      "waitingCount q1 = waitingCount (qu s)" "visitedCount q1 = visitedCount (qu s) + 1"
    using take_first_holds [of "qu s" a as' rd] h(2) as by blast
  have q: "q = q1" "v = value_at (qu s) a" using q1(1) assms(3) by simp_all
  have pt: "pending (pcs s t) = None" "\<not> in_wait (pcs s t)" "in_section (pcs s t)"
    using assms(2) by (auto simp: in_wait_def)
  have "waits q1 ws" using h(3) by (rule waits_same) (simp_all add: q1)
  then have "queue_inv ?s as' ws"
    using h(1) q1(2,3) by (auto simp: queue_inv_def q in_memory_def)
  moreover have "pend_inv ?s as'"
    using inv(2) by (rule pend_inv_mono) (use assms(5) in \<open>auto simp: q q1(3) as split: if_splits\<close>)
  moreover have "mutex_inv ?s"
    using inv(3) mutex_unique(1) [OF assms(1) pt(3)] assms(4) by (auto simp: mutex_inv_def)
  moreover have "wait_inv ?s ws"
    unfolding wait_inv_def
  proof
    fix u
    show "map_option isWaiting (waiters (qu ?s) u) =
          (if in_wait (pcs ?s u) then Some (u \<in> set ws) else None) \<and>
        (u \<in> set ws \<longrightarrow> in_wait (pcs ?s u)) \<and> (pcs ?s u = DeqSleep \<longrightarrow> u \<in> set ws)"
      using inv(4)[unfolded wait_inv_def, rule_format, of u] pt(2) assms(6)
      by (cases "u = t") (auto simp: q q1(4) in_wait_def)
  qed
  moreover have "wake_inv ?s as' ws"
  proof -
    have fin: "finite {u. active ws (pcs s) u}"
      using inv(5) by (intro active_finite) (simp add: wake_inv_def)
    have fin': "finite {u. pcs ?s u \<noteq> Idle}"
      using inv(5) finite_goto [of s t p] by (simp add: wake_inv_def)
    have "{u. active ws (pcs s) u} \<subseteq> insert t {u. active ws (pcs ?s) u}"
      by (auto simp: active_def)
    then have "card {u. active ws (pcs s) u} \<le> card (insert t {u. active ws (pcs ?s) u})"
      by (rule card_mono [OF finite.insertI [OF active_finite [OF fin']]])
    also have "\<dots> \<le> Suc (card {u. active ws (pcs ?s) u})" by (rule card_insert_le_m1) simp_all
    finally have "card {u. active ws (pcs s) u} \<le> Suc (card {u. active ws (pcs ?s) u})" .
    then show ?thesis using inv(5) fin' as by (auto simp: wake_inv_def)
  qed
  ultimately have "sys_inv ?s as' ws" by (simp add: sys_inv_def)
  then show ?thesis using as q q1(8) by blast
qed

text \<open>A step, its effect on the invariant and what it is for the queue.\<close>

lemma step_inv:
  assumes "step rd s e s'" and "sys_inv s as ws"
  shows "\<exists>as' ws'. sys_inv s' as' ws' \<and>
    operations put_item get_item other_step [e] (qu s) (qu s') \<and>
    visitedCount (qu s') = visitedCount (qu s) + of_nat (length (gets [e]))"
proof -
  note move = sys_inv_move [OF assms(2)]
  have h: "in_memory (qu s)" "holds_items (qu s) as" "waits (qu s) ws"
    using assms(2) by (simp_all add: sys_inv_def queue_inv_def)
  have mx: "in_section (pcs s t) \<longleftrightarrow> mutex s = Some t" for t
    using assms(2) by (simp add: sys_inv_def mutex_inv_def)
  have sl: "pcs s t = DeqSleep \<Longrightarrow> t \<in> set ws" for t
    using assms(2) by (simp add: sys_inv_def wait_inv_def)
  have same: "other_step q q" for q by (simp add: other_step_def)
  have still: ?thesis if "sys_inv s' as ws" "qu s' = qu s" "e = Other"
    using that same by (intro exI [of _ as] exI [of _ ws]) simp
  show ?thesis
    using assms(1)
  proof cases
    case (call_enqueue t a v q)
    have "0 < a" using call_enqueue(6) by (auto simp: enqueue_new_def split: if_splits)
    then have "other_step (qu s) q" using call_enqueue by (auto simp: other_step_def)
    moreover have "visitedCount q = visitedCount (qu s)"
      using call_enqueue(6) by (auto simp: enqueue_new_def split: if_splits)
    ultimately show ?thesis
      using inv_call_enqueue [OF assms(2) call_enqueue(3-6)] call_enqueue(1,2) by auto
  next
    case (lock_enqueue t a v)
    then show ?thesis using mx [of t]
      by (intro still) (auto intro!: move [where t = t] simp: in_wait_def active_def)
  next
    case (do_enqueue t a v w q)
    have p: "a \<notin> set as" "items (qu s) a = Some \<lparr>data = v, qnext = Null\<rparr>"
      using assms(2) do_enqueue(3) unfolding sys_inv_def pend_inv_def by (metis pending.simps(2))+
    then have "put_item v (qu s) q"
      using do_enqueue(4) holds_items_unique [OF h(2)] unfolding put_item_def by blast
    moreover have "visitedCount q = visitedCount (qu s)"
    proof -
      have "rd v" using do_enqueue(4) by (auto simp: enqueue_locked_def Let_def)
      then show ?thesis
        using enqueue_locked_holds [OF h(2,3) p, of rd] enqueue_room [OF h(1,2) p(1)] p(2)
          do_enqueue(4) by fastforce
    qed
    ultimately show ?thesis
      using inv_do_enqueue(1) [OF assms(2) do_enqueue(3,4)] do_enqueue(1,2) by auto
  next
    case (unlock_enqueue t)
    then show ?thesis using mx [of t]
      by (intro still) (auto intro!: move [where t = t] simp: in_wait_def active_def)
  next
    case (call_dequeue t)
    then show ?thesis using mx [of t]
      by (intro still) (auto intro!: move [where t = t] simp: in_wait_def active_def)
  next
    case (lock_dequeue t)
    then show ?thesis using mx [of t]
      by (intro still) (auto intro!: move [where t = t] simp: in_wait_def active_def)
  next
    case (loop_wait t q)
    note r = inv_loop_wait [OF assms(2) loop_wait(3-5)]
    have "other_step (qu s) q" using loop_wait(5) h(3) r(2) by (auto simp: other_step_def)
    moreover have "visitedCount q = visitedCount (qu s)"
      using register_waiter_waits [OF h(3) r(2)] loop_wait(5) by auto
    ultimately show ?thesis using r(1) loop_wait(1,2) by auto
  next
    case (check_wait t w)
    have "t \<in> set ws"
      using waiting_flag [OF assms(2) check_wait(4)] check_wait(3,5) by (simp add: in_wait_def)
    then show ?thesis using mx [of t] check_wait
      by (intro still) (auto intro!: move [where t = t] simp: in_wait_def active_def)
  next
    case (wake_up t)
    then show ?thesis using mx [of t] sl [of t]
      by (intro still) (auto intro!: move [where t = t] simp: in_wait_def active_def)
  next
    case (relock t)
    then show ?thesis using mx [of t]
      by (intro still) (auto intro!: move [where t = t] simp: in_wait_def active_def)
  next
    case (check_done t w q)
    note r = inv_check_done [OF assms(2) check_done(3-6)]
    have "other_step (qu s) q" using check_done(6) h(3) r(2) by (auto simp: other_step_def)
    then show ?thesis using r check_done(1,2) by auto
  next
    case (loop_take t v q)
    have "get_item v (qu s) q" using loop_take(5) by (auto simp: get_item_def)
    then show ?thesis
      using inv_take [OF assms(2) _ loop_take(5), of t "DeqUnlock v"] loop_take(1-3)
      by (auto simp: in_wait_def)
  next
    case (unlock_dequeue t v)
    then show ?thesis using mx [of t]
      by (intro still) (auto intro!: move [where t = t] simp: in_wait_def active_def)
  next
    case (call_try t)
    then show ?thesis using mx [of t]
      by (intro still) (auto intro!: move [where t = t] simp: in_wait_def active_def)
  next
    case (lock_try t)
    then show ?thesis using mx [of t]
      by (intro still) (auto intro!: move [where t = t] simp: in_wait_def active_def)
  next
    case (do_try t r q)
    show ?thesis
    proof (cases "count (qu s) = 0")
      case True
      then have rq: "r = None" "q = qu s" using do_try(4) by (simp_all add: tryDequeue_locked_def)
      have "sys_inv s' as ws"
        unfolding do_try(2) rq using do_try(3) mx [of t]
        by (auto intro!: move [where t = t] simp: in_wait_def active_def)
      then show ?thesis using do_try(1,2) rq by (intro still) (simp_all add: try_event_def)
    next
      case False
      then obtain v where v: "take_first rd (qu s) = Ok (v, q)" "r = Some v"
        using do_try(4) by (auto simp: tryDequeue_locked_def)
      have "get_item v (qu s) q" using v(1) by (auto simp: get_item_def)
      then show ?thesis
        using inv_take [OF assms(2) _ v(1), of t "TryUnlock r"] do_try(1-3) v(2)
        by (auto simp: in_wait_def try_event_def)
    qed
  next
    case (unlock_try t r)
    then show ?thesis using mx [of t]
      by (intro still) (auto intro!: move [where t = t] simp: in_wait_def active_def)
  qed
qed

lemma reach_inv:
  "reach rd s es \<Longrightarrow> \<exists>as ws. sys_inv s as ws \<and>
     operations put_item get_item other_step es (qu sys_init) (qu s) \<and>
     visitedCount (qu s) = of_nat (length (gets es))"
proof (induction rule: reach.induct)
  case reach_init
  then show ?case using sys_inv_init by (auto simp: sys_init_def initQueue_def)
next
  case (reach_step s es e s')
  then obtain as ws where inv: "sys_inv s as ws"
      "operations put_item get_item other_step es (qu sys_init) (qu s)"
      "visitedCount (qu s) = of_nat (length (gets es))"
    by blast
  obtain as' ws' where "sys_inv s' as' ws'"
      "operations put_item get_item other_step [e] (qu s) (qu s')"
      "visitedCount (qu s') = visitedCount (qu s) + of_nat (length (gets [e]))"
    using step_inv [OF reach_step(2) inv(1)] by blast
  then show ?case
    using inv(2,3) by (auto simp: operations_append add.commute simp del: operations.simps)
qed

end
