(* ===== verification/Queue_Runs.thy ===== *)
theory Queue_Runs
  imports Queue_Threads
begin

text \<open>
  What the concurrent queue of \<open>hw4/queue.c\<close> promises to the threads that use it: first in,
  first out; exact counters; mutual exclusion; nothing undefined; no deadlock and no lost wake-up.
  The step relation comes with an executable form, in which a scheduler picks the thread that
  moves: it says which thread is blocked where, and the concrete runs below are evaluated with it.
\<close>

section \<open>A scheduler\<close>

text \<open>
  The next step of a thread inside a call: \<open>None\<close> if it has to wait for the mutex or for a signal,
  a fault if the code does something undefined.
\<close>

definition advance :: "(nat \<Rightarrow> bool) \<Rightarrow> nat \<Rightarrow> sys \<Rightarrow> (nat queue_op \<times> sys) run option" where
  "advance rd t s =
     (let locked = (\<lambda>p. if mutex s = None then Some (Ok (Other, goto t p (s\<lparr>mutex := Some t\<rparr>))) else None);
          unlocked = Some (Ok (Other, goto t Idle (s\<lparr>mutex := None\<rparr>)))
      in case pcs s t of
        Idle \<Rightarrow> None
      | EnqLock a v \<Rightarrow> locked (EnqBody a v)
      | EnqBody a v \<Rightarrow> Some (bindR (enqueue_locked rd a v (qu s)) (\<lambda>(w, q).
          Ok (Put v, s\<lparr>qu := q, pcs := signal w ((pcs s)(t := EnqUnlock))\<rparr>)))
      | EnqUnlock \<Rightarrow> unlocked
      | DeqLock \<Rightarrow> locked DeqLoop
      | DeqLoop \<Rightarrow> Some
          (if count (qu s) = 0
           then bindR (register_waiter t (qu s)) (\<lambda>q. Ok (Other, goto t DeqCheck (s\<lparr>qu := q\<rparr>)))
           else bindR (take_first rd (qu s)) (\<lambda>(v, q). Ok (Get v, goto t (DeqUnlock v) (s\<lparr>qu := q\<rparr>))))
      | DeqCheck \<Rightarrow> Some (bindR (deref (waiters (qu s)) (Ref t)) (\<lambda>w.
          if isWaiting w then Ok (Other, goto t DeqSleep (s\<lparr>mutex := None\<rparr>))
          else bindR (after_wait t (qu s)) (\<lambda>q. Ok (Other, goto t DeqLoop (s\<lparr>qu := q\<rparr>)))))
      | DeqSleep \<Rightarrow> None
      | DeqRelock \<Rightarrow> locked DeqCheck
      | DeqUnlock v \<Rightarrow> unlocked
      | TryLock \<Rightarrow> locked TryBody
      | TryBody \<Rightarrow> Some (bindR (tryDequeue_locked rd (qu s)) (\<lambda>(r, q).
          Ok (try_event r, goto t (TryUnlock r) (s\<lparr>qu := q\<rparr>))))
      | TryUnlock r \<Rightarrow> unlocked)"

lemma advance_step:
  assumes "advance rd t s = Some (Ok (e, s'))"
  shows "step rd s e s'"
proof (cases "pcs s t")
  case (EnqBody a v)
  then show ?thesis using assms
    by (auto simp: advance_def Let_def intro: step.do_enqueue)
next
  case DeqLoop
  then show ?thesis using assms
    by (auto simp: advance_def Let_def split: if_splits intro: step.loop_wait step.loop_take)
next
  case DeqCheck
  then obtain w where w: "waiters (qu s) t = Some w"
    using assms by (auto simp: advance_def Let_def split: option.splits)
  show ?thesis
  proof (cases "isWaiting w")
    case True
    then show ?thesis using assms DeqCheck w step.check_wait [OF DeqCheck w]
      by (simp add: advance_def Let_def)
  next
    case False
    then show ?thesis using assms DeqCheck w step.check_done [OF DeqCheck w]
      by (auto simp: advance_def Let_def)
  qed
next
  case TryBody
  then show ?thesis using assms
    by (auto simp: advance_def Let_def intro: step.do_try)
qed (use assms in \<open>auto simp: advance_def Let_def split: if_splits
      intro: step.intros(2,4,6,10,13,15,17)\<close>)

datatype action = CallEnqueue nat nat | CallDequeue | CallTry | WakeUp | Go

definition act :: "(nat \<Rightarrow> bool) \<Rightarrow> nat \<times> action \<Rightarrow> sys \<Rightarrow> (nat queue_op \<times> sys) option" where
  "act rd = (\<lambda>(t, x) s. case x of
     CallEnqueue a v \<Rightarrow>
       (if pcs s t = Idle \<and> a < 2 ^ 64 \<and> items (qu s) a = None
        then case enqueue_new a v (qu s) of
          Ok q \<Rightarrow> Some (Other, goto t (EnqLock a v) (s\<lparr>qu := q\<rparr>)) | _ \<Rightarrow> None
        else None)
   | CallDequeue \<Rightarrow> if pcs s t = Idle then Some (Other, goto t DeqLock s) else None
   | CallTry \<Rightarrow> if pcs s t = Idle then Some (Other, goto t TryLock s) else None
   | WakeUp \<Rightarrow> if pcs s t = DeqSleep then Some (Other, goto t DeqRelock s) else None
   | Go \<Rightarrow> (case advance rd t s of Some (Ok r) \<Rightarrow> Some r | _ \<Rightarrow> None))"

fun acts :: "(nat \<Rightarrow> bool) \<Rightarrow> (nat \<times> action) list \<Rightarrow> sys \<Rightarrow> (nat queue_op list \<times> sys) option" where
  "acts rd [] s = Some ([], s)"
| "acts rd (x # xs) s =
     (case act rd x s of None \<Rightarrow> None
      | Some (e, s1) \<Rightarrow> (case acts rd xs s1 of None \<Rightarrow> None | Some (es, s2) \<Rightarrow> Some (e # es, s2)))"

lemma act_step: "act rd x s = Some (e, s') \<Longrightarrow> step rd s e s'"
  by (cases x; cases "snd x")
    (auto simp: act_def split: if_splits run.splits option.splits
      intro: step.intros(1,5,9,14) advance_step)

lemma acts_reach:
  "reach rd s es \<Longrightarrow> acts rd xs s = Some (es', s') \<Longrightarrow> reach rd s' (es @ es')"
proof (induction xs arbitrary: s es es')
  case (Cons x xs)
  obtain e s1 where x: "act rd x s = Some (e, s1)"
    using Cons.prems(2) by (cases "act rd x s") auto
  then obtain es2 where xs: "acts rd xs s1 = Some (es2, s')" "es' = e # es2"
    using Cons.prems(2) by (auto split: option.splits)
  have "reach rd s1 (es @ [e])" using Cons.prems(1) act_step [OF x] by (rule reach.reach_step)
  then show ?case using Cons.IH [OF _ xs(1)] xs(2) by fastforce
qed simp

lemmas acts_reach_init = acts_reach [OF reach.reach_init, simplified]

lemma advance_act: "advance rd t s = Some (Ok r) \<Longrightarrow> \<exists>x. act rd x s = Some r"
  by (intro exI [of _ "(t, Go)"]) (simp add: act_def)

lemma step_act:
  assumes "step rd s e s'"
  shows "\<exists>x. act rd x s = Some (e, s')"
  using assms
proof cases
  case (call_enqueue t a v q)
  then show ?thesis by (intro exI [of _ "(t, CallEnqueue a v)"]) (simp add: act_def)
next
  case (call_dequeue t)
  then show ?thesis by (intro exI [of _ "(t, CallDequeue)"]) (simp add: act_def)
next
  case (call_try t)
  then show ?thesis by (intro exI [of _ "(t, CallTry)"]) (simp add: act_def)
next
  case (wake_up t)
  then show ?thesis by (intro exI [of _ "(t, WakeUp)"]) (simp add: act_def)
next
  case (lock_enqueue t a v)
  then show ?thesis by (intro advance_act [of rd t]) (simp add: advance_def Let_def)
next
  case (do_enqueue t a v w q)
  then show ?thesis by (intro advance_act [of rd t]) (simp add: advance_def Let_def)
next
  case (unlock_enqueue t)
  then show ?thesis by (intro advance_act [of rd t]) (simp add: advance_def Let_def)
next
  case (lock_dequeue t)
  then show ?thesis by (intro advance_act [of rd t]) (simp add: advance_def Let_def)
next
  case (loop_wait t q)
  then show ?thesis by (intro advance_act [of rd t]) (simp add: advance_def Let_def)
next
  case (check_wait t w)
  then show ?thesis by (intro advance_act [of rd t]) (simp add: advance_def Let_def)
next
  case (relock t)
  then show ?thesis by (intro advance_act [of rd t]) (simp add: advance_def Let_def)
next
  case (check_done t w q)
  then show ?thesis by (intro advance_act [of rd t]) (simp add: advance_def Let_def)
next
  case (loop_take t v q)
  then show ?thesis by (intro advance_act [of rd t]) (simp add: advance_def Let_def)
next
  case (unlock_dequeue t v)
  then show ?thesis by (intro advance_act [of rd t]) (simp add: advance_def Let_def)
next
  case (lock_try t)
  then show ?thesis by (intro advance_act [of rd t]) (simp add: advance_def Let_def)
next
  case (do_try t r q)
  then show ?thesis by (intro advance_act [of rd t]) (simp add: advance_def Let_def)
next
  case (unlock_try t r)
  then show ?thesis by (intro advance_act [of rd t]) (simp add: advance_def Let_def)
qed

section \<open>Memory safety and progress\<close>

lemma goes_in_readable: "reach rd s es \<Longrightarrow> v \<in> set (puts es) \<Longrightarrow> rd v"
proof (induction rule: reach.induct)
  case (reach_step s es e s')
  have "e = Put v \<Longrightarrow> rd v" using reach_step.hyps(2) put_stepD by blast
  then show ?case using reach_step by (cases e) auto
qed simp

lemma contains_unique: "contains q vs \<Longrightarrow> contains q vs' \<Longrightarrow> vs = vs'"
  unfolding contains_def using holds_items_unique by metis

lemma sys_inv_contains: "sys_inv s as ws \<Longrightarrow> contains (qu s) (map (value_at (qu s)) as)"
  unfolding sys_inv_def queue_inv_def contains_def by blast

lemma init_contains: "contains (qu sys_init) []"
  using sys_inv_contains [OF sys_inv_init] by simp

lemma reach_fifo:
  assumes "reach rd s es" and "sys_inv s as ws"
  shows "puts es = gets es @ map (value_at (qu s)) as"
proof -
  obtain bs us where "sys_inv s bs us"
      "operations put_item get_item other_step es (qu sys_init) (qu s)"
    using reach_inv [OF assms(1)] by blast
  then obtain ys where "contains (qu s) ys" "puts es = gets es @ ys"
    using wq.first_in_first_out [OF init_contains] by auto
  then show ?thesis using contains_unique sys_inv_contains [OF assms(2)] by metis
qed

lemma queued_readable:
  assumes "reach rd s es" and "sys_inv s as ws" and "a \<in> set as"
  shows "rd (value_at (qu s) a)"
  using goes_in_readable [OF assms(1)] reach_fifo [OF assms(1,2)] assms(3) by simp

lemma take_runs:
  assumes "sys_inv s as ws" and "\<forall>a \<in> set as. rd (value_at (qu s) a)" and "count (qu s) \<noteq> 0"
  shows "\<exists>r. take_first rd (qu s) = Ok r"
proof -
  have h: "holds_items (qu s) as" using assms(1) by (simp add: sys_inv_def queue_inv_def)
  then obtain a as' where as: "as = a # as'" using count_zero [OF h] assms(3) by (cases as) auto
  then have "rd (value_at (qu s) a)" using assms(2) by simp
  then show ?thesis using take_first_holds [of "qu s" a as' rd] h as by blast
qed

text \<open>No step does anything undefined while the integers of the queue can be read.\<close>

lemma advance_runs:
  assumes inv: "sys_inv s as ws" and rd: "\<forall>a \<in> set as. rd (value_at (qu s) a)"
    and body: "\<forall>u a v. pcs s u = EnqBody a v \<longrightarrow> rd v"
  shows "advance rd t s = None \<or> (\<exists>e s'. advance rd t s = Some (Ok (e, s')))"
proof -
  have h: "in_memory (qu s)" "holds_items (qu s) as" "waits (qu s) ws"
    using inv by (simp_all add: sys_inv_def queue_inv_def)
  have W: "map_option isWaiting (waiters (qu s) t) =
      (if in_wait (pcs s t) then Some (t \<in> set ws) else None)" "t \<in> set ws \<longrightarrow> in_wait (pcs s t)"
    using inv unfolding sys_inv_def wait_inv_def by blast+
  show ?thesis
  proof (cases "pcs s t")
    case (EnqBody a v)
    have p: "a \<notin> set as" "items (qu s) a = Some \<lparr>data = v, qnext = Null\<rparr>"
      using inv EnqBody unfolding sys_inv_def pend_inv_def by (metis pending.simps(2))+
    have "\<exists>r. enqueue_locked rd a v (qu s) = Ok r"
      using enqueue_locked_holds [OF h(2,3) p, of rd] enqueue_room [OF h(1,2) p(1)] p(2)
        body EnqBody by blast
    then show ?thesis using EnqBody by (auto simp: advance_def)
  next
    case DeqLoop
    have "t \<notin> set ws" using W(2) DeqLoop by (auto simp: in_wait_def)
    then have "\<exists>q. register_waiter t (qu s) = Ok q" using register_waiter_waits [OF h(3)] by blast
    then show ?thesis using take_runs [OF inv rd] DeqLoop by (auto simp: advance_def)
  next
    case DeqCheck
    obtain w where w: "waiters (qu s) t = Some w" "isWaiting w \<longleftrightarrow> t \<in> set ws"
      using W(1) DeqCheck by (auto simp: in_wait_def)
    have "\<exists>q. after_wait t (qu s) = Ok q" if "t \<notin> set ws"
      using after_wait_eq(1) [OF h(3) that w(1)] by simp
    then show ?thesis using w DeqCheck by (auto simp: advance_def)
  next
    case TryBody
    then show ?thesis
      using take_runs [OF inv rd] by (auto simp: advance_def tryDequeue_locked_def)
  qed (auto simp: advance_def Let_def)
qed

text \<open>
  C11: Nothing undefined happens in the queue, in any interleaving: as long as every thread that is
  in \<open>enqueue\<close> passes a pointer at which an \<open>int\<close> can be read, the next piece of code of any
  thread either has to wait or completes without a bad access; neither the items nor the
  \<open>WaitingThread\<close> records on the stacks of other threads are used after their end.
\<close>

theorem calls_never_fault:
  assumes "reach rd s es" and "\<forall>u a v. pcs s u = EnqBody a v \<longrightarrow> rd v"
  shows "advance rd t s = None \<or> (\<exists>e s'. advance rd t s = Some (Ok (e, s')))"
proof -
  obtain as ws where inv: "sys_inv s as ws" using reach_inv [OF assms(1)] by blast
  show ?thesis using advance_runs [OF inv] queued_readable [OF assms(1) inv] assms(2) by blast
qed

text \<open>What a step does, and whether it can be made, does not depend on which integers are alive.\<close>

lemma step_mono:
  assumes "step rd s e s'"
  shows "step (\<lambda>_. True) s e s'"
  using assms
proof cases
  case (do_enqueue t a v w q)
  then have "enqueue_locked (\<lambda>_. True) a v (qu s) = Ok (w, q)"
    by (auto simp: enqueue_locked_def Let_def)
  then show ?thesis using do_enqueue by (auto intro: step.do_enqueue)
next
  case (loop_take t v q)
  then have "take_first (\<lambda>_. True) (qu s) = Ok (v, q)" by (auto simp: take_first_def Let_def)
  then show ?thesis using loop_take by (auto intro: step.loop_take)
next
  case (do_try t r q)
  then have "tryDequeue_locked (\<lambda>_. True) (qu s) = Ok (r, q)"
    by (auto simp: tryDequeue_locked_def take_first_def Let_def split: if_splits)
  then show ?thesis using do_try by (auto intro: step.do_try)
qed (auto intro: step.intros)

lemma advance_None: "advance rd t s = None \<longleftrightarrow> advance rd' t s = None"
  by (cases "pcs s t") (simp_all add: advance_def Let_def)

lemma stuck_state:
  assumes "reach rd s es" and "\<forall>t. advance rd t s = None"
  shows "mutex s = None \<and> (\<forall>t. pcs s t = Idle \<or> pcs s t = DeqSleep) \<and>
    ((\<exists>t. pcs s t = DeqSleep) \<longrightarrow> contains (qu s) [])"
proof -
  obtain as ws where inv: "sys_inv s as ws" using reach_inv [OF assms(1)] by blast
  have free: "mutex s = None"
  proof (rule ccontr)
    assume "mutex s \<noteq> None"
    then obtain t where "in_section (pcs s t)"
      using inv by (auto simp: sys_inv_def mutex_inv_def)
    then have "advance rd t s \<noteq> None" by (cases "pcs s t") (simp_all add: advance_def Let_def)
    then show False using assms(2) by simp
  qed
  have rest: "pcs s t = Idle \<or> pcs s t = DeqSleep" for t
  proof -
    have "advance rd t s = None" using assms(2) by simp
    then show ?thesis using free by (cases "pcs s t") (simp_all add: advance_def Let_def)
  qed
  have "contains (qu s) []" if t: "pcs s t = DeqSleep" for t
  proof -
    have sl: "u \<in> set ws" if u: "pcs s u = DeqSleep" for u
      using inv u by (simp add: sys_inv_def wait_inv_def)
    have "\<not> active ws (pcs s) u" for u
      using rest [of u] sl [of u] by (auto simp: active_def in_wait_def)
    then have "length as \<le> card {u. False}"
      using inv sl [OF t] by (auto simp: sys_inv_def wake_inv_def)
    then show ?thesis using sys_inv_contains [OF inv] by simp
  qed
  then show ?thesis using free rest by blast
qed

text \<open>
  C2: No deadlock and no lost wake-up: when no thread that is in a call can move, then nobody holds
  the mutex, every call has returned except calls of \<open>dequeue\<close> that sleep, and if there is such a
  sleeper then the queue is empty. So a thread never sleeps on while an item is there for it and
  nobody is on the way to take it.
\<close>

theorem no_deadlock:
  assumes "reach rd s es" and "\<forall>t. advance rd t s = None"
  shows "mutex s = None \<and> (\<forall>t. pcs s t = Idle \<or> pcs s t = DeqSleep) \<and>
    ((\<exists>t. pcs s t = DeqSleep) \<longrightarrow> contains (qu s) [])"
  using assms by (rule stuck_state)

text \<open>
  C6: The queue is first in, first out over every interleaving of \<open>enqueue\<close>, \<open>dequeue\<close> and
  \<open>tryDequeue\<close> by any number of threads: the items enqueued so far, in order, are the items
  handed out so far, in order, followed by what the queue now contains. So no item is lost,
  duplicated or overtaken.
\<close>

theorem fifo_order:
  assumes "reach rd s es"
  shows "\<exists>vs. contains (qu s) vs \<and> puts es = gets es @ vs"
proof -
  obtain as ws where inv: "sys_inv s as ws" using reach_inv [OF assms] by blast
  show ?thesis using sys_inv_contains [OF inv] reach_fifo [OF assms inv] by blast
qed

text \<open>
  At most one thread is in a critical section, and it is the one that holds the mutex.
\<close>

theorem mutual_exclusion:
  assumes "reach rd s es"
  shows "in_section (pcs s t) \<longleftrightarrow> mutex s = Some t"
  using reach_inv [OF assms] by (auto simp: sys_inv_def mutex_inv_def)

lemma counters_state:
  assumes "reach rd s es"
  shows "unat (size_of_queue (qu s)) = length (puts es) - length (gets es) \<and>
    visited (qu s) = of_nat (length (gets es)) \<and>
    waiting (qu s) = of_nat (card {t. \<exists>w. waiters (qu s) t = Some w \<and> isWaiting w})"
proof -
  obtain as ws where inv: "sys_inv s as ws" and v: "visitedCount (qu s) = of_nat (length (gets es))"
    using reach_inv [OF assms] by blast
  have h: "holds_items (qu s) as" "waits (qu s) ws" using inv by (simp_all add: sys_inv_def queue_inv_def)
  have "length (puts es) - length (gets es) = length as" using reach_fifo [OF assms inv] by simp
  moreover have "unat (count (qu s)) = length as"
    using h(1) by (simp add: holds_items_def unat_of_nat take_bit_nat_def)
  moreover have "{t. \<exists>w. waiters (qu s) t = Some w \<and> isWaiting w} = set ws"
  proof -
    have "(\<exists>w. waiters (qu s) t = Some w \<and> isWaiting w) \<longleftrightarrow> t \<in> set ws" for t
    proof -
      have "map_option isWaiting (waiters (qu s) t) =
          (if in_wait (pcs s t) then Some (t \<in> set ws) else None)" "t \<in> set ws \<longrightarrow> in_wait (pcs s t)"
        using inv unfolding sys_inv_def wait_inv_def by blast+
      then show ?thesis by (cases "waiters (qu s) t") (auto split: if_splits)
    qed
    then show ?thesis by blast
  qed
  then have "waiting (qu s) = of_nat (card {t. \<exists>w. waiters (qu s) t = Some w \<and> isWaiting w})"
    using h(2) by (simp add: waiting_def waits_def distinct_card)
  ultimately show ?thesis using v by (simp add: size_of_queue_def visited_def)
qed

text \<open>
  C35: The counters are exact between any two steps: \<open>size\<close> is the number of items in the queue,
  \<open>visited\<close> the number of items handed out so far (modulo \<open>2^64\<close>), \<open>waiting\<close> the number of threads
  that wait in \<open>dequeue\<close> and have not been signalled.
\<close>

theorem counters_exact:
  assumes "reach rd s es"
  shows "unat (size_of_queue (qu s)) = length (puts es) - length (gets es) \<and>
    visited (qu s) = of_nat (length (gets es)) \<and>
    waiting (qu s) = of_nat (card {t. \<exists>w. waiters (qu s) t = Some w \<and> isWaiting w})"
  using assms by (rule counters_state)

section \<open>The order in which threads are served\<close>

lemma waits_unique:
  assumes "waits q ws" and "waits q us"
  shows "ws = us"
  using assms seg_unique unfolding waits_def by blast

text \<open>
  C34: The waiting list is first in, first out as well: in any step it stays as it is, or a thread
  that found the queue empty in \<open>dequeue\<close> goes to its end, or an \<open>enqueue\<close> removes the thread that
  has been in it for longest, which then no longer sleeps; an \<open>enqueue\<close> while somebody waits
  always wakes somebody up.
\<close>

theorem waiting_list_order:
  assumes "reach rd s es" and "waits (qu s) ws" and "step rd s e s'"
  shows "\<exists>ws'. waits (qu s') ws' \<and>
    (ws' = ws \<and> (\<forall>v. e = Put v \<longrightarrow> ws = []) \<or>
     (\<exists>t. pcs s t = DeqLoop \<and> count (qu s) = 0 \<and> ws' = ws @ [t] \<and> e = Other) \<or>
     (\<exists>u v. ws = u # ws' \<and> pcs s' u \<noteq> DeqSleep \<and> e = Put v))"
proof -
  obtain as us where inv0: "sys_inv s as us" using reach_inv [OF assms(1)] by blast
  then have "us = ws" using waits_unique [OF _ assms(2)] by (simp add: sys_inv_def queue_inv_def)
  then have inv: "sys_inv s as ws" using inv0 by simp
  have h: "holds_items (qu s) as" "waits (qu s) ws"
    using inv by (simp_all add: sys_inv_def queue_inv_def)
  have still: ?thesis if "qu s' = qu s" "\<forall>v. e \<noteq> Put v"
    using that assms(2) by auto
  have kept: ?thesis if "waits (qu s') ws" "\<forall>v. e \<noteq> Put v"
    using that by auto
  have taken: "waits q ws" if tk: "take_first rd (qu s) = Ok (v, q)" for v q
    using waits_same [OF h(2)] tk
    by (auto simp: take_first_def Let_def)
  show ?thesis
    using assms(3)
  proof cases
    case (call_enqueue t a v q)
    then show ?thesis using waits_same [OF h(2), of q]
      by (intro kept) (auto simp: enqueue_new_def split: if_splits)
  next
    case (do_enqueue t a v w q)
    note r = inv_do_enqueue [OF inv do_enqueue(3,4)]
    have "waits (qu s') (tl ws)"
      using r(1) do_enqueue(2) by (simp add: sys_inv_def queue_inv_def)
    moreover have "pcs s' u \<noteq> DeqSleep" if "ws = u # xs" for u xs
      using that r(2) do_enqueue(2) by (simp add: signal_def)
    ultimately show ?thesis using do_enqueue(1) by (cases ws) auto
  next
    case (loop_wait t q)
    note r = inv_loop_wait [OF inv loop_wait(3-5)]
    have "waits (qu s') (ws @ [t])"
      using r(1) loop_wait(2) by (simp add: sys_inv_def queue_inv_def)
    then show ?thesis using loop_wait by blast
  next
    case (check_done t w q)
    note r = inv_check_done [OF inv check_done(3-6)]
    have "waits (qu s') ws"
      using r(1) check_done(2) by (simp add: sys_inv_def queue_inv_def)
    then show ?thesis using check_done(1) by (intro kept) auto
  next
    case (loop_take t v q)
    then show ?thesis using taken [OF loop_take(5)] by (intro kept) auto
  next
    case (do_try t r q)
    have "waits q ws"
      using do_try(4) h(2) taken by (auto simp: tryDequeue_locked_def split: if_splits)
    then show ?thesis using do_try(1,2)
      by (intro kept) (auto simp: try_event_def split: option.splits)
  qed (use still in auto)
qed

definition barging_run :: "(nat \<times> action) list" where
  "barging_run =
     [(1, CallDequeue), (1, Go), (1, Go), (1, Go), (3, CallDequeue), (3, Go), (3, Go), (3, Go),
      (2, CallEnqueue 16 7), (2, Go), (2, Go), (2, Go),
      (4, CallTry), (4, Go), (4, Go), (4, Go),
      (1, Go), (1, Go), (1, Go), (1, Go),
      (2, CallEnqueue 32 8), (2, Go), (2, Go), (2, Go),
      (3, Go), (3, Go), (3, Go)]"

lemmas evaluate =
  act_def advance_def sys_init_def initQueue_def enqueue_new_def goto_def enqueue_locked_def
  wake_first_def update_waiter_def update_item_def read_int_def register_waiter_def after_wait_def
  take_first_def tryDequeue_locked_def try_event_def signal_def Let_def

lemma barging_run_ends:
  "\<exists>s es. acts (\<lambda>_. True) barging_run sys_init = Some (es, s) \<and> puts es = [7, 8] \<and>
     gets es = [7, 8] \<and> pcs s 3 = DeqUnlock 8 \<and> pcs s 1 = DeqSleep"
  by (simp add: barging_run_def evaluate)

lemma barging_state:
  obtains s es where "acts (\<lambda>_. True) barging_run sys_init = Some (es, s)" "reach (\<lambda>_. True) s es"
    "puts es = [7, 8]" "gets es = [7, 8]" "pcs s 3 = DeqUnlock 8" "pcs s 1 = DeqSleep"
  using barging_run_ends acts_reach_init by metis

text \<open>
  Waking up in order does not mean being served in order. Thread 1 sleeps in \<open>dequeue\<close> before
  thread 3 does; 2 enqueues an item, which wakes 1 up, but 4 takes it with \<open>tryDequeue\<close> before 1 has
  the mutex again. Thread 1 then goes to the end of the waiting list, behind 3, and 3 gets the
  next item.
\<close>
theorem served_out_of_order:
  "\<exists>s es. acts (\<lambda>_. True) barging_run sys_init = Some (es, s) \<and> reach (\<lambda>_. True) s es \<and>
     gets es = [7, 8] \<and> pcs s 3 = DeqUnlock 8 \<and> pcs s 1 = DeqSleep"
  using barging_state by metis

section \<open>Witnesses\<close>

theorem fifo_order_witness:
  "\<exists>s es vs. acts (\<lambda>_. True) barging_run sys_init = Some (es, s) \<and> contains (qu s) vs \<and>
     [7, 8] = gets es @ vs"
proof -
  obtain s es where s: "acts (\<lambda>_. True) barging_run sys_init = Some (es, s)"
      "reach (\<lambda>_. True) s es" "puts es = [7, 8]"
    using barging_state by metis
  then show ?thesis using fifo_order [OF s(2)] by metis
qed

theorem mutual_exclusion_witness:
  "\<exists>s es. acts (\<lambda>_. True) barging_run sys_init = Some (es, s) \<and> mutex s = Some 3"
proof -
  obtain s es where s: "acts (\<lambda>_. True) barging_run sys_init = Some (es, s)"
      "reach (\<lambda>_. True) s es" "pcs s 3 = DeqUnlock 8"
    using barging_state by metis
  then show ?thesis using mutual_exclusion [OF s(2), of 3] by auto
qed

theorem counters_exact_witness:
  "\<exists>s es. acts (\<lambda>_. True) barging_run sys_init = Some (es, s) \<and> unat (size_of_queue (qu s)) = 0 \<and>
     visited (qu s) = 2"
proof -
  obtain s es where s: "acts (\<lambda>_. True) barging_run sys_init = Some (es, s)"
      "reach (\<lambda>_. True) s es" "puts es = [7, 8]" "gets es = [7, 8]"
    using barging_state by metis
  then show ?thesis using counters_exact [OF s(2)] by auto
qed

theorem calls_never_fault_witness:
  "\<exists>s es. acts (\<lambda>_. True) barging_run sys_init = Some (es, s) \<and>
     (advance (\<lambda>_. True) 3 s = None \<or> (\<exists>e s'. advance (\<lambda>_. True) 3 s = Some (Ok (e, s'))))"
proof -
  obtain s es where s: "acts (\<lambda>_. True) barging_run sys_init = Some (es, s)"
      "reach (\<lambda>_. True) s es"
    using barging_state by metis
  then show ?thesis using calls_never_fault [OF s(2)] by blast
qed

text \<open>One thread that sleeps: nobody can move.\<close>

definition lone_sleeper :: "(nat \<times> action) list" where
  "lone_sleeper = [(1, CallDequeue), (1, Go), (1, Go), (1, Go)]"

lemma lone_sleeper_ends:
  "\<exists>s es. acts (\<lambda>_. True) lone_sleeper sys_init = Some (es, s) \<and> pcs s 1 = DeqSleep \<and>
     (\<forall>t. advance (\<lambda>_. True) t s = None)"
  by (simp add: lone_sleeper_def evaluate)

theorem no_deadlock_witness:
  "\<exists>s es. acts (\<lambda>_. True) lone_sleeper sys_init = Some (es, s) \<and> pcs s 1 = DeqSleep \<and>
     mutex s = None \<and> contains (qu s) []"
proof -
  obtain s es where s: "acts (\<lambda>_. True) lone_sleeper sys_init = Some (es, s)" "pcs s 1 = DeqSleep"
      "\<forall>t. advance (\<lambda>_. True) t s = None"
    using lone_sleeper_ends by metis
  show ?thesis
    using no_deadlock [OF acts_reach_init [OF s(1)] s(3)] s(1,2) by blast
qed

theorem waiting_list_order_witness:
  "\<exists>s es s'. acts (\<lambda>_. True) (take 2 lone_sleeper) sys_init = Some (es, s) \<and>
     step (\<lambda>_. True) s Other s' \<and> (\<exists>ws'. waits (qu s') ws' \<and> ws' \<in> {[], [1]})"
proof -
  have "\<exists>s es s'. acts (\<lambda>_. True) (take 2 lone_sleeper) sys_init = Some (es, s) \<and>
      pcs s = (\<lambda>_. Idle)(1 := DeqLoop) \<and> waits (qu s) [] \<and>
      advance (\<lambda>_. True) 1 s = Some (Ok (Other, s'))"
    by (simp add: lone_sleeper_def evaluate waits_def)
  then obtain s es s' where s: "acts (\<lambda>_. True) (take 2 lone_sleeper) sys_init = Some (es, s)"
      "pcs s = (\<lambda>_. Idle)(1 := DeqLoop)" "waits (qu s) []"
      "advance (\<lambda>_. True) 1 s = Some (Ok (Other, s'))"
    by blast
  have st: "step (\<lambda>_. True) s Other s'" using advance_step [OF s(4)] .
  obtain ws' where ws': "waits (qu s') ws'" "ws' = [] \<or> (\<exists>t. pcs s t = DeqLoop \<and> ws' = [t])"
    using waiting_list_order [OF acts_reach_init [OF s(1)] s(3) st] by auto
  then have "ws' \<in> {[], [1]}" using s(2) by (auto split: if_splits)
  then show ?thesis using s(1) st ws'(1) by blast
qed

end
