(* ===== verification/Queue_End.thy ===== *)
theory Queue_End
  imports Queue_Runs
begin

text \<open>
  The heap of the concurrent queue of \<open>hw4/queue.c\<close>: which items exist at any time, what
  \<open>destroyQueue\<close> frees, and what it does while a thread sleeps in \<open>dequeue\<close>.
\<close>

section \<open>Which items exist\<close>

text \<open>The items of threads that have called \<open>malloc\<close> and not yet linked the item.\<close>

definition pend_addrs :: "(nat \<Rightarrow> pc) \<Rightarrow> nat set" where
  "pend_addrs p = {a. \<exists>t v. pending (p t) = Some (a, v)}"

definition no_leak :: "sys \<Rightarrow> nat list \<Rightarrow> bool" where
  "no_leak s as \<longleftrightarrow> dom (items (qu s)) = set as \<union> pend_addrs (pcs s)"

lemma pend_addrs_move: "pending p' = pending (p t) \<Longrightarrow> pend_addrs (p(t := p')) = pend_addrs p"
  by (simp add: pend_addrs_def fun_upd_apply) (metis (full_types))

lemma pend_addrs_signal: "pend_addrs (signal w p) = pend_addrs p"
  by (cases w) (auto simp: signal_def intro!: pend_addrs_move)

lemma pend_addrs_new:
  "p t = Idle \<Longrightarrow> pend_addrs (p(t := EnqLock a v)) = insert a (pend_addrs p)"
  by (auto simp: pend_addrs_def fun_upd_apply split: if_splits) (metis option.distinct(1) pending.simps(3))+

lemma pend_addrs_linked:
  assumes "pend_inv s as" and "pcs s t = EnqBody a v" and "pending p = None"
  shows "pend_addrs (pcs s) = insert a (pend_addrs ((pcs s)(t := p)))"
    and "a \<notin> pend_addrs ((pcs s)(t := p))"
proof -
  have other: "b \<noteq> a" if "u \<noteq> t" "pending (pcs s u) = Some (b, w)" for u b w
    using that assms(1,2) unfolding pend_inv_def by (metis pending.simps(2))
  show "pend_addrs (pcs s) = insert a (pend_addrs ((pcs s)(t := p)))"
  proof (intro set_eqI iffI)
    fix b assume "b \<in> pend_addrs (pcs s)"
    then obtain u w where "pending (pcs s u) = Some (b, w)" by (auto simp: pend_addrs_def)
    then have u: "pending (pcs s u) = Some (b, w)" .
    show "b \<in> insert a (pend_addrs ((pcs s)(t := p)))"
    proof (cases "u = t")
      case True
      then show ?thesis using u assms(2) by simp
    next
      case False
      then have "pending (((pcs s)(t := p)) u) = Some (b, w)" using u by simp
      then show ?thesis unfolding pend_addrs_def by blast
    qed
  next
    fix b assume "b \<in> insert a (pend_addrs ((pcs s)(t := p)))"
    then consider "b = a" | u w where "u \<noteq> t" "pending (pcs s u) = Some (b, w)"
      using assms(3) by (auto simp: pend_addrs_def split: if_splits)
    then show "b \<in> pend_addrs (pcs s)"
    proof cases
      case 1
      then have "pending (pcs s t) = Some (b, v)" using assms(2) by simp
      then show ?thesis unfolding pend_addrs_def by blast
    next
      case 2
      then show ?thesis unfolding pend_addrs_def by blast
    qed
  qed
  show "a \<notin> pend_addrs ((pcs s)(t := p))"
    using other assms(3) by (auto simp: pend_addrs_def split: if_splits)
qed

lemma no_leak_goto:
  assumes "no_leak s as" and "dom (items (qu s')) = dom (items (qu s))" and "pcs s' = pcs s"
    and "pending p = pending (pcs s t)"
  shows "no_leak (goto t p s') as"
  using assms by (simp add: no_leak_def pend_addrs_move)

lemma sys_inv_unique:
  assumes "sys_inv s as ws" and "sys_inv s' as' ws'" and "holds_items (qu s') as \<or> qu s' = qu s"
  shows "as' = as"
  using assms holds_items_unique unfolding sys_inv_def queue_inv_def by metis

lemma take_first_items:
  assumes "sys_inv s as ws" and "take_first rd (qu s) = Ok (v, q)"
  shows "\<exists>a as'. as = a # as' \<and> items q = (items (qu s))(a := None) \<and> holds_items q as'"
proof -
  have h: "holds_items (qu s) as" using assms(1) by (simp add: sys_inv_def queue_inv_def)
  have "as \<noteq> []" using assms(2) h by (auto simp: take_first_def holds_items_def)
  then obtain a as' where as: "as = a # as'" by (cases as) auto
  have "rd (value_at (qu s) a)"
    using assms(2) h as by (auto simp: take_first_def holds_items_def value_at_def Let_def)
  then show ?thesis using take_first_holds [of "qu s" a as' rd] h as assms(2) by auto
qed

lemma no_leak_take:
  assumes "sys_inv s as ws" and "no_leak s as" and "take_first rd (qu s) = Ok (v, q)"
    and "sys_inv (goto t p (s\<lparr>qu := q\<rparr>)) as' ws'" and "pending p = pending (pcs s t)"
  shows "no_leak (goto t p (s\<lparr>qu := q\<rparr>)) as'"
proof -
  obtain a bs where bs: "as = a # bs" "items q = (items (qu s))(a := None)" "holds_items q bs"
    using take_first_items [OF assms(1,3)] by blast
  have "as' = bs"
    using assms(4) bs(3) holds_items_unique by (auto simp: sys_inv_def queue_inv_def)
  moreover have "a \<notin> pend_addrs (pcs s)"
    using assms(1) bs(1) by (auto simp: pend_addrs_def sys_inv_def pend_inv_def)
  moreover have "a \<notin> set bs" using assms(1) bs(1) by (simp add: sys_inv_def queue_inv_def holds_items_def)
  ultimately show ?thesis
    using assms(2) bs(1,2) pend_addrs_move [of p "pcs s" t, OF assms(5)] by (auto simp: no_leak_def)
qed

lemma step_no_leak:
  assumes "step rd s e s'" and "sys_inv s as ws" and "sys_inv s' as' ws'" and "no_leak s as"
  shows "no_leak s' as'"
proof -
  have h: "in_memory (qu s)" "holds_items (qu s) as" "waits (qu s) ws"
    using assms(2) by (simp_all add: sys_inv_def queue_inv_def)
  have still: ?thesis if "qu s' = qu s" "pend_addrs (pcs s') = pend_addrs (pcs s)"
    using that assms(4) sys_inv_unique [OF assms(2,3)] by (simp add: no_leak_def)
  show ?thesis
    using assms(1)
  proof cases
    case (call_enqueue t a v q)
    have q: "q = (qu s)\<lparr>items := (items (qu s))(a \<mapsto> \<lparr>data = v, qnext = Null\<rparr>)\<rparr>"
      using call_enqueue(6) by (auto simp: enqueue_new_def split: if_splits)
    have "sys_inv s' as ws" using inv_call_enqueue [OF assms(2) call_enqueue(3-6)] call_enqueue(2) by simp
    then have "as' = as" using assms(3) holds_items_unique unfolding sys_inv_def queue_inv_def by blast
    then show ?thesis
      using assms(4) call_enqueue(2) q pend_addrs_new [of "pcs s" t a v, OF call_enqueue(3)]
      by (auto simp: no_leak_def)
  next
    case (do_enqueue t a v w q)
    note r = inv_do_enqueue [OF assms(2) do_enqueue(3,4)]
    have p: "a \<notin> set as" "items (qu s) a = Some \<lparr>data = v, qnext = Null\<rparr>" "pend_inv s as"
      using assms(2) do_enqueue(3) unfolding sys_inv_def pend_inv_def by (metis pending.simps(2))+
    have "rd v" using do_enqueue(4) by (auto simp: enqueue_locked_def Let_def)
    then have "items q = items (link_item as a (qu s))"
      using enqueue_locked_holds [OF h(2,3) p(1,2), of rd] enqueue_room [OF h(1,2) p(1)] p(2)
        do_enqueue(4) by auto
    moreover have "as' = as @ [a]"
      using r(1) assms(3) do_enqueue(2) holds_items_unique unfolding sys_inv_def queue_inv_def by blast
    moreover note pend_addrs_linked [OF p(3) do_enqueue(3), of EnqUnlock]
    ultimately show ?thesis
      using assms(4) do_enqueue(2) link_item_heap(1) [OF h(2), of a]
      by (simp add: no_leak_def pend_addrs_signal)
  next
    case (loop_wait t q)
    obtain q1 where q1: "register_waiter t (qu s) = Ok q1" "items q1 = items (qu s)" "holds_items q1 as"
      using register_waiter_waits [OF h(3) inv_loop_wait(2) [OF assms(2) loop_wait(3-5)]]
        holds_items_same [OF h(2)] by blast
    then have "as' = as" using sys_inv_unique [OF assms(2,3)] loop_wait(2,5) by simp
    then show ?thesis
      using assms(4) q1 loop_wait by (auto simp: intro!: no_leak_goto)
  next
    case (check_done t w q)
    note r = inv_check_done [OF assms(2) check_done(3-6)]
    have "as' = as"
      using r(1) assms(3) check_done(2) holds_items_unique unfolding sys_inv_def queue_inv_def by blast
    then show ?thesis using assms(4) r(3) check_done(2,3) by (auto intro!: no_leak_goto)
  next
    case (loop_take t v q)
    then show ?thesis using no_leak_take [OF assms(2,4) loop_take(5)] assms(3) by simp
  next
    case (do_try t r q)
    show ?thesis
    proof (cases "count (qu s) = 0")
      case True
      then have "q = qu s" using do_try(4) by (simp add: tryDequeue_locked_def)
      then show ?thesis using do_try by (intro still) (simp_all add: pend_addrs_move)
    next
      case False
      then obtain v where v: "take_first rd (qu s) = Ok (v, q)"
        using do_try(4) by (auto simp: tryDequeue_locked_def)
      show ?thesis using no_leak_take [OF assms(2,4) v] assms(3) do_try(2,3) by simp
    qed
  qed (use still in \<open>auto simp: pend_addrs_move\<close>)
qed

lemma reach_no_leak:
  assumes "reach rd s es" and "sys_inv s as ws"
  shows "no_leak s as"
  using assms
proof (induction arbitrary: as ws rule: reach.induct)
  case reach_init
  have "items (qu sys_init) = Map.empty" "pend_addrs (pcs sys_init) = {}"
    by (simp_all add: sys_init_def initQueue_def pend_addrs_def)
  moreover have "as = []"
    using reach_init sys_inv_init holds_items_unique unfolding sys_inv_def queue_inv_def by blast
  ultimately show ?case by (simp add: no_leak_def)
next
  case (reach_step s es e s')
  obtain bs us where inv: "sys_inv s bs us" using reach_inv [OF reach_step.hyps(1)] by blast
  show ?case
    using step_no_leak [OF reach_step.hyps(2) inv reach_step.prems reach_step.IH [OF inv]] .
qed

text \<open>
  C12: The data structure is well formed in every reachable state, between any two steps of any threads:
  \<open>head\<close> leads through distinct items to \<open>tail\<close>; the items on the heap are these and those which a
  thread in \<open>enqueue\<close> has not linked yet, which are others; \<open>waitingHead\<close> leads through distinct
  records to \<open>waitingTail\<close>; a record exists for exactly the threads inside the wait of \<open>dequeue\<close>, and
  the list has all of those that sleep and no thread outside.
\<close>

theorem heap_well_formed:
  assumes "reach rd s es"
  shows "\<exists>as ws. seg qnext (items (qu s)) (head (qu s)) as Null \<and> tail (qu s) = last_ptr as \<and>
    distinct as \<and> dom (items (qu s)) = set as \<union> pend_addrs (pcs s) \<and> set as \<inter> pend_addrs (pcs s) = {} \<and>
    seg wnext (waiters (qu s)) (waitingHead (qu s)) ws Null \<and> waitingTail (qu s) = last_ptr ws \<and>
    distinct ws \<and> dom (waiters (qu s)) = {t. in_wait (pcs s t)} \<and>
    {t. pcs s t = DeqSleep} \<subseteq> set ws \<and> set ws \<subseteq> {t. in_wait (pcs s t)}"
proof -
  obtain as ws where inv: "sys_inv s as ws" using reach_inv [OF assms] by blast
  have lists: "holds_items (qu s) as" "waits (qu s) ws"
    using inv by (simp_all add: sys_inv_def queue_inv_def)
  have "dom (items (qu s)) = set as \<union> pend_addrs (pcs s)"
    using reach_no_leak [OF assms inv] by (simp add: no_leak_def)
  moreover have "set as \<inter> pend_addrs (pcs s) = {}"
    using inv unfolding sys_inv_def pend_inv_def pend_addrs_def by blast
  moreover have w: "map_option isWaiting (waiters (qu s) t) =
        (if in_wait (pcs s t) then Some (t \<in> set ws) else None)"
      "t \<in> set ws \<Longrightarrow> in_wait (pcs s t)" "pcs s t = DeqSleep \<Longrightarrow> t \<in> set ws" for t
    using inv by (simp_all add: sys_inv_def wait_inv_def)
  have "waiters (qu s) t \<noteq> None \<longleftrightarrow> in_wait (pcs s t)" for t
    using w(1) [of t] by (cases "waiters (qu s) t") (auto split: if_splits)
  then have "dom (waiters (qu s)) = {t. in_wait (pcs s t)}" by (simp add: dom_def)
  ultimately show ?thesis
    using lists w(2,3) unfolding holds_items_def waits_def by blast
qed

section \<open>destroyQueue\<close>

lemma destroy_items_frees:
  "seg qnext (items q) (head q) as Null \<Longrightarrow> distinct as \<Longrightarrow> length as < n \<Longrightarrow>
   destroy_items n q = Ok (q\<lparr>head := Null, items := items q |` (- set as)\<rparr>)"
proof (induction n arbitrary: q as)
  case (Suc n)
  show ?case
  proof (cases as)
    case Nil
    then show ?thesis using Suc.prems by simp
  next
    case (Cons a as')
    then obtain i where i: "head q = Ref a" "items q a = Some i" "seg qnext (items q) (qnext i) as' Null"
      using Suc.prems(1) by auto
    let ?q = "q\<lparr>head := qnext i, items := (items q)(a := None)\<rparr>"
    have as': "a \<notin> set as'" "distinct as'" "length as' < n" using Suc.prems(2,3) Cons by simp_all
    have "seg qnext (items ?q) (head ?q) as' Null" using i(3) as'(1) by (simp add: seg_frame)
    then have "destroy_items n ?q = Ok (?q\<lparr>head := Null, items := items ?q |` (- set as')\<rparr>)"
      using as'(2,3) by (rule Suc.IH)
    moreover have "((items q)(a := None)) |` (- set as') = items q |` (- set as)"
      using Cons by (auto simp: restrict_map_def fun_eq_iff)
    ultimately show ?thesis using i by simp
  qed
qed simp

lemma destroyQueue_eq:
  assumes "reach rd s es" and "sys_inv s as ws" and "length (puts es) - length (gets es) < n"
  shows "destroyQueue n (qu s) =
    (if ws = [] then Ok ((qu s)\<lparr>head := Null, items := items (qu s) |` (- set as)\<rparr>) else Fault BadFree)"
proof -
  have h: "holds_items (qu s) as" "waits (qu s) ws" using assms(2) by (simp_all add: sys_inv_def queue_inv_def)
  have "length as < n" using reach_fifo [OF assms(1,2)] assms(3) by simp
  then have "destroy_items n (qu s) = Ok ((qu s)\<lparr>head := Null, items := items (qu s) |` (- set as)\<rparr>)"
    using h(1) by (intro destroy_items_frees) (simp_all add: holds_items_def)
  then show ?thesis
    using h(2) by (cases ws) (auto simp: destroyQueue_def destroy_waiters_def waits_def)
qed

lemma destroy_all_idle:
  assumes "reach rd s es" and "\<forall>t. pcs s t = Idle" and "length (puts es) - length (gets es) < n"
  shows "\<exists>q'. destroyQueue n (qu s) = Ok q' \<and> items q' = Map.empty \<and> head q' = Null"
proof -
  obtain as ws where inv: "sys_inv s as ws" using reach_inv [OF assms(1)] by blast
  have "t \<notin> set ws" for t
    using inv assms(2) by (auto simp: sys_inv_def wait_inv_def in_wait_def)
  then have "ws = []" by (cases ws) auto
  moreover have "dom (items (qu s)) = set as"
    using reach_no_leak [OF assms(1) inv] assms(2) by (simp add: no_leak_def pend_addrs_def)
  then have "items (qu s) |` (- set as) = Map.empty"
    by (auto simp: restrict_map_def fun_eq_iff dom_def)
  ultimately show ?thesis using destroyQueue_eq [OF assms(1) inv assms(3)] by simp
qed

text \<open>
  C24: \<open>destroyQueue\<close> frees every item: when all calls have returned, it completes, after as many
  rounds as items are left, and no item is on the heap any more. So over a whole session no item
  leaks, in any interleaving.
\<close>

theorem destroy_frees_everything:
  assumes "reach rd s es" and "\<forall>t. pcs s t = Idle" and "length (puts es) - length (gets es) < n"
  shows "\<exists>q'. destroyQueue n (qu s) = Ok q' \<and> items q' = Map.empty \<and> head q' = Null"
  using assms by (rule destroy_all_idle)

text \<open>
  C37: With a thread asleep in \<open>dequeue\<close>, \<open>destroyQueue\<close> is undefined: it calls \<open>free\<close> on the
  \<open>WaitingThread\<close> of that thread, which is a local variable of \<open>dequeue\<close>.
\<close>

theorem destroy_frees_stack:
  assumes "reach rd s es" and "pcs s t = DeqSleep" and "length (puts es) - length (gets es) < n"
  shows "destroyQueue n (qu s) = Fault BadFree"
proof -
  obtain as ws where inv: "sys_inv s as ws" using reach_inv [OF assms(1)] by blast
  have "t \<in> set ws" using inv assms(2) by (simp add: sys_inv_def wait_inv_def)
  then show ?thesis using destroyQueue_eq [OF assms(1) inv assms(3)] by auto
qed

text \<open>Two items are left in the queue when all calls have returned.\<close>

definition two_left :: "(nat \<times> action) list" where
  "two_left =
     [(1, CallEnqueue 16 7), (1, Go), (1, Go), (1, Go), (2, CallEnqueue 32 8), (2, Go), (2, Go), (2, Go)]"

lemma two_left_ends:
  "\<exists>s es. acts (\<lambda>_. True) two_left sys_init = Some (es, s) \<and> puts es = [7, 8] \<and> gets es = [] \<and>
     (\<forall>t. pcs s t = Idle)"
  by (simp add: two_left_def evaluate)

theorem heap_well_formed_witness:
  "\<exists>s es as. acts (\<lambda>_. True) two_left sys_init = Some (es, s) \<and>
     seg qnext (items (qu s)) (head (qu s)) as Null \<and> dom (items (qu s)) = set as"
proof -
  obtain s es where s: "acts (\<lambda>_. True) two_left sys_init = Some (es, s)" "\<forall>t. pcs s t = Idle"
    using two_left_ends by metis
  then have "pend_addrs (pcs s) = {}" by (simp add: pend_addrs_def)
  then show ?thesis using heap_well_formed [OF acts_reach_init [OF s(1)]] s(1) by auto
qed

theorem destroy_frees_everything_witness:
  "\<exists>s es q'. acts (\<lambda>_. True) two_left sys_init = Some (es, s) \<and> destroyQueue 3 (qu s) = Ok q' \<and>
     items q' = Map.empty"
proof -
  obtain s es where s: "acts (\<lambda>_. True) two_left sys_init = Some (es, s)" "puts es = [7, 8]"
      "gets es = []" "\<forall>t. pcs s t = Idle"
    using two_left_ends by metis
  then show ?thesis
    using destroy_frees_everything [OF acts_reach_init [OF s(1)] s(4), of 3] by auto
qed

theorem destroy_frees_stack_witness:
  "\<exists>s es. acts (\<lambda>_. True) lone_sleeper sys_init = Some (es, s) \<and>
     destroyQueue 1 (qu s) = Fault BadFree"
proof -
  have "\<exists>s es. acts (\<lambda>_. True) lone_sleeper sys_init = Some (es, s) \<and> pcs s 1 = DeqSleep \<and> puts es = []"
    by (simp add: lone_sleeper_def evaluate)
  then obtain s es where s: "acts (\<lambda>_. True) lone_sleeper sys_init = Some (es, s)"
      "pcs s 1 = DeqSleep" "puts es = []"
    by blast
  then show ?thesis
    using destroy_frees_stack [OF acts_reach_init [OF s(1)] s(2), of 1] by auto
qed

end
