(* ===== verification/Queue_Clients.thy ===== *)
theory Queue_Clients
  imports Queue_End
begin

text \<open>
  Programs that use the concurrent queue: every thread has a list of calls that it makes one after
  the other, and all threads run together on the step relation of \<open>Queue_Threads\<close>. The programs are
  the thread functions of the tests \<open>hw4/test_queue.c\<close> and \<open>hw4/test2.c\<close>. What goes through the queue
  are pointers to integers: a producer allocates one, stores a number and enqueues the pointer, a
  consumer reads it and frees it. The queue reads the integers too, for its debugging output, and
  that is only defined as long as they are alive.
\<close>

section \<open>Threads with programs\<close>

text \<open>
  \<open>Malloc\<close>: the integer comes from \<open>malloc\<close>; \<open>Local\<close>: it is a variable of \<open>main\<close>. What a consumer
  does with the pointer it gets: read the integer, free it, or both. \<open>Enq st v\<close> makes an integer,
  stores \<open>v\<close> in it and calls \<open>enqueue\<close>; \<open>TryLoop\<close> is \<open>while (!tryDequeue(\<dots>))\<close>.
\<close>

datatype storage = Malloc | Local

datatype usage = PrintFree | Free | Print

datatype client_call = Enq storage nat | Deq usage | TryLoop usage

text \<open>
  \<open>cells\<close>: the integers that are alive, by address. \<open>held\<close>: the pointer a thread has got from the queue
  and not used yet, \<open>how\<close>: what it will do with it. \<open>taken\<close> is a history: which thread found which
  number.
\<close>

record clients =
  sy :: sys
  todo :: "nat \<Rightarrow> client_call list"
  cells :: "nat \<Rightarrow> (storage \<times> nat) option"
  held :: "nat \<Rightarrow> nat option"
  how :: "nat \<Rightarrow> usage"
  taken :: "(nat \<times> nat) list"

definition clients_init :: "(nat \<Rightarrow> client_call list) \<Rightarrow> clients" where
  "clients_init prog =
     \<lparr>sy = sys_init, todo = prog, cells = (\<lambda>_. None), held = (\<lambda>_. None), how = (\<lambda>_. Print),
      taken = []\<rparr>"

abbreviation readable :: "nat \<Rightarrow> bool" where
  "readable \<equiv> \<lambda>_. True"

definition live :: "clients \<Rightarrow> nat \<Rightarrow> bool" where
  "live c p \<longleftrightarrow> cells c p \<noteq> None"

text \<open>The pointer with which a call is about to return.\<close>

fun returned :: "pc \<Rightarrow> nat option" where
  "returned (DeqUnlock p) = Some p"
| "returned (TryUnlock r) = r"
| "returned _ = None"

definition handed :: "clients \<Rightarrow> nat \<Rightarrow> nat \<Rightarrow> nat option" where
  "handed c t = (case returned (pcs (sy c) t) of None \<Rightarrow> held c | Some p \<Rightarrow> (held c)(t \<mapsto> p))"

inductive client_step :: "clients \<Rightarrow> nat queue_op list \<Rightarrow> clients \<Rightarrow> bool" where
  start_enqueue: "todo c t = Enq st v # cs \<Longrightarrow> held c t = None \<Longrightarrow> cells c p = None \<Longrightarrow>
    act (live c) (t, CallEnqueue a p) (sy c) = Some (e, s) \<Longrightarrow>
    client_step c [e] (c\<lparr>sy := s, todo := (todo c)(t := cs), cells := (cells c)(p \<mapsto> (st, v))\<rparr>)"
| start_dequeue: "todo c t = Deq u # cs \<Longrightarrow> held c t = None \<Longrightarrow>
    act (live c) (t, CallDequeue) (sy c) = Some (e, s) \<Longrightarrow>
    client_step c [e] (c\<lparr>sy := s, todo := (todo c)(t := cs), how := (how c)(t := u)\<rparr>)"
| start_try: "todo c t = TryLoop u # cs \<Longrightarrow> held c t = None \<Longrightarrow>
    act (live c) (t, CallTry) (sy c) = Some (e, s) \<Longrightarrow>
    client_step c [e] (c\<lparr>sy := s, how := (how c)(t := u)\<rparr>)"
| go_on: "act (live c) (t, Go) (sy c) = Some (e, s) \<Longrightarrow>
    client_step c [e] (c\<lparr>sy := s, todo := (if pcs (sy c) t = TryBody \<and> e \<noteq> Other
      then (todo c)(t := tl (todo c t)) else todo c), held := handed c t\<rparr>)"
| spurious: "act (live c) (t, WakeUp) (sy c) = Some (e, s) \<Longrightarrow> client_step c [e] (c\<lparr>sy := s\<rparr>)"
| use_item: "held c t = Some p \<Longrightarrow> cells c p = Some (st, v) \<Longrightarrow> how c t = Print \<or> st = Malloc \<Longrightarrow>
    client_step c [] (c\<lparr>cells := (if how c t = Print then cells c else (cells c)(p := None)),
      held := (held c)(t := None), taken := taken c @ [(t, v)]\<rparr>)"

inductive client_reach :: "(nat \<Rightarrow> client_call list) \<Rightarrow> clients \<Rightarrow> nat queue_op list \<Rightarrow> bool" for prog where
  client_init: "client_reach prog (clients_init prog) []"
| client_next: "client_reach prog c es \<Longrightarrow> client_step c d c' \<Longrightarrow> client_reach prog c' (es @ d)"

text \<open>
  A thread that cannot go on: it waits for the mutex or for a signal, or it has finished. A thread that
  would do something undefined: in the queue, or with the pointer it holds, which it may not read or
  free if the integer is not alive, nor free if the integer is a variable.
\<close>

definition blocked :: "clients \<Rightarrow> nat \<Rightarrow> bool" where
  "blocked c t \<longleftrightarrow>
     advance (live c) t (sy c) = None \<and> held c t = None \<and> (pcs (sy c) t = Idle \<longrightarrow> todo c t = [])"

definition goes_wrong :: "clients \<Rightarrow> nat \<Rightarrow> bool" where
  "goes_wrong c t \<longleftrightarrow>
     (\<exists>f. advance (live c) t (sy c) = Some (Fault f)) \<or> (\<exists>n. advance (live c) t (sy c) = Some (Exit n)) \<or>
     (case held c t of None \<Rightarrow> False
      | Some p \<Rightarrow> (case cells c p of None \<Rightarrow> True | Some (st, v) \<Rightarrow> how c t \<noteq> Print \<and> st = Local))"

text \<open>
  \<open>wakes\<close>: the step is a wake-up without a signal, as \<open>cnd_wait\<close> may have them. \<open>quiet c c'\<close>: the threads
  can get from \<open>c\<close> to \<open>c'\<close> without any.
\<close>

definition wakes :: "clients \<Rightarrow> nat queue_op list \<Rightarrow> clients \<Rightarrow> bool" where
  "wakes c d c' \<longleftrightarrow> d = [Other] \<and> (\<exists>t. pcs (sy c) t = DeqSleep \<and> pcs (sy c') t = DeqRelock)"

definition calm :: "clients \<Rightarrow> clients \<Rightarrow> bool" where
  "calm c c' \<longleftrightarrow> (\<exists>d. client_step c d c' \<and> \<not> wakes c d c')"

definition quiet :: "clients \<Rightarrow> clients \<Rightarrow> bool" where
  "quiet = rtranclp calm"

definition finished :: "clients \<Rightarrow> nat \<Rightarrow> bool" where
  "finished c t \<longleftrightarrow> pcs (sy c) t = Idle \<and> todo c t = [] \<and> held c t = None"

lemma quiet_refl: "quiet c c"
  by (simp add: quiet_def)

lemma quiet_next: "client_step c d c1 \<Longrightarrow> \<not> wakes c d c1 \<Longrightarrow> quiet c1 c2 \<Longrightarrow> quiet c c2"
  unfolding quiet_def calm_def by (blast intro: converse_rtranclp_into_rtranclp)

section \<open>Keeping account\<close>

fun is_enq :: "client_call \<Rightarrow> bool" where
  "is_enq (Enq st v) = True"
| "is_enq _ = False"

fun enqs :: "client_call list \<Rightarrow> nat" where
  "enqs [] = 0"
| "enqs (Enq st v # cs) = Suc (enqs cs)"
| "enqs (_ # cs) = enqs cs"

fun deqs :: "client_call list \<Rightarrow> nat" where
  "deqs [] = 0"
| "deqs (Enq st v # cs) = deqs cs"
| "deqs (_ # cs) = Suc (deqs cs)"

lemma calls_append [simp]:
  "enqs (cs @ ds) = enqs cs + enqs ds" "deqs (cs @ ds) = deqs cs + deqs ds"
  by (induction cs rule: enqs.induct) auto

definition in_dequeue :: "pc \<Rightarrow> bool" where
  "in_dequeue p \<longleftrightarrow> p = DeqLock \<or> p = DeqLoop \<or> in_wait p"

text \<open>The calls of a thread whose item has not gone in, or not come out, yet.\<close>

definition enq_left :: "clients \<Rightarrow> nat \<Rightarrow> nat" where
  "enq_left c t = enqs (todo c t) + of_bool (pending (pcs (sy c) t) \<noteq> None)"

definition deq_left :: "clients \<Rightarrow> nat \<Rightarrow> nat" where
  "deq_left c t = deqs (todo c t) + of_bool (in_dequeue (pcs (sy c) t))"

definition progress_inv :: "(nat \<Rightarrow> client_call list) \<Rightarrow> clients \<Rightarrow> bool" where
  "progress_inv prog c \<longleftrightarrow>
     (\<forall>t. (\<exists>ds. prog t = ds @ todo c t) \<and>
        (in_dequeue (pcs (sy c) t) \<longrightarrow> (\<exists>ds u. prog t = ds @ Deq u # todo c t)) \<and>
        (pcs (sy c) t \<in> {TryLock, TryBody} \<longrightarrow> (\<exists>u cs. todo c t = TryLoop u # cs)) \<and>
        (prog t = [] \<longrightarrow> pcs (sy c) t = Idle))"

text \<open>One step: what it does to the account of each thread.\<close>

lemma act_call:
  "act rd (t, CallEnqueue a v) s = Some (e, s') \<Longrightarrow>
     pcs s t = Idle \<and> e = Other \<and> pcs s' = (pcs s)(t := EnqLock a v)"
  "act rd (t, CallDequeue) s = Some (e, s') \<Longrightarrow>
     pcs s t = Idle \<and> e = Other \<and> pcs s' = (pcs s)(t := DeqLock)"
  "act rd (t, CallTry) s = Some (e, s') \<Longrightarrow>
     pcs s t = Idle \<and> e = Other \<and> pcs s' = (pcs s)(t := TryLock)"
  "act rd (t, WakeUp) s = Some (e, s') \<Longrightarrow>
     pcs s t = DeqSleep \<and> e = Other \<and> pcs s' = (pcs s)(t := DeqRelock)"
  by (auto simp: act_def split: if_splits run.splits)

text \<open>A step inside a call moves its thread; an \<open>enqueue\<close> may also wake up a sleeper.\<close>

lemma act_go:
  assumes "act rd (t, Go) s = Some (e, s')"
  shows "\<exists>p w. pcs s' = signal w ((pcs s)(t := p)) \<and> (p \<noteq> DeqSleep \<or> w = None) \<and>
    pcs s t \<noteq> Idle \<and> pcs s t \<noteq> DeqSleep \<and>
    (case e of
       Put v \<Rightarrow> (\<exists>a. pcs s t = EnqBody a v) \<and> p = EnqUnlock
     | Get v \<Rightarrow> pcs s t = DeqLoop \<and> p = DeqUnlock v \<or> pcs s t = TryBody \<and> p = TryUnlock (Some v)
     | Other \<Rightarrow> w = None \<and> pending p = pending (pcs s t) \<and> in_dequeue p = in_dequeue (pcs s t) \<and>
         (p \<in> {TryLock, TryBody} \<longrightarrow> pcs s t = TryLock))"
proof -
  have a: "advance rd t s = Some (Ok (e, s'))"
    using assms by (auto simp: act_def split: option.splits run.splits)
  show ?thesis
  proof (cases "pcs s t")
    case (EnqBody b v)
    then obtain w where "pcs s' = signal w ((pcs s)(t := EnqUnlock))" "e = Put v"
      using a by (auto simp: advance_def)
    then show ?thesis using EnqBody by (intro exI [of _ EnqUnlock] exI [of _ w]) auto
  next
    case TryBody
    then obtain r where "pcs s' = signal None ((pcs s)(t := TryUnlock r))" "e = try_event r"
      using a by (auto simp: advance_def signal_def)
    then show ?thesis using TryBody
      by (intro exI [of _ "TryUnlock r"] exI [of _ None])
        (auto simp: try_event_def in_dequeue_def in_wait_def split: option.splits)
  next
    case DeqLoop
    show ?thesis
    proof (cases "count (qu s) = 0")
      case True
      then have "pcs s' = signal None ((pcs s)(t := DeqCheck))" "e = Other"
        using a DeqLoop by (auto simp: advance_def signal_def)
      then show ?thesis using DeqLoop
        by (intro exI [of _ DeqCheck] exI [of _ None]) (auto simp: in_dequeue_def in_wait_def)
    next
      case False
      then obtain v where "pcs s' = signal None ((pcs s)(t := DeqUnlock v))" "e = Get v"
        using a DeqLoop by (auto simp: advance_def signal_def)
      then show ?thesis using DeqLoop by (intro exI [of _ "DeqUnlock v"] exI [of _ None]) auto
    qed
  next
    case DeqCheck
    then obtain p where "pcs s' = signal None ((pcs s)(t := p))" "e = Other" "p = DeqSleep \<or> p = DeqLoop"
      using a by (auto simp: advance_def signal_def split: option.splits if_splits)
    then show ?thesis using DeqCheck
      by (intro exI [of _ p] exI [of _ None]) (auto simp: in_dequeue_def in_wait_def)
  qed (use a in \<open>auto simp: advance_def Let_def signal_def in_dequeue_def in_wait_def
        split: if_splits intro!: exI [of _ None]\<close>)
qed

lemma signal_pc [simp]:
  "pending (signal w f u) = pending (f u)" "in_dequeue (signal w f u) = in_dequeue (f u)"
  "signal w f u = TryLock \<longleftrightarrow> f u = TryLock" "signal w f u = TryBody \<longleftrightarrow> f u = TryBody"
  "signal w f u = Idle \<longleftrightarrow> f u = Idle"
  by (cases w; auto simp: signal_def in_dequeue_def in_wait_def)+

lemma go_no_wake:
  assumes "act rd (t, Go) (sy c) = Some (e, s)" and "sy c' = s" shows "\<not> wakes c [e] c'"
proof
  assume r: "wakes c [e] c'"
  obtain p where "pcs s = (pcs (sy c))(t := p)" "pcs (sy c) t \<noteq> DeqSleep"
    using act_go [OF assms(1)] r by (auto simp: wakes_def signal_def)
  then show False using r assms(2) by (auto simp: wakes_def split: if_splits)
qed

definition accounts :: "clients \<Rightarrow> nat queue_op list \<Rightarrow> clients \<Rightarrow> nat \<Rightarrow> bool" where
  "accounts c d c' t \<longleftrightarrow>
     (\<forall>u. enq_left c u = enq_left c' u + (if u = t then length (puts d) else 0) \<and>
          deq_left c u = deq_left c' u + (if u = t then length (gets d) else 0))"

text \<open>A step moves one thread: it is enough to look at that thread.\<close>

lemma client_moved:
  assumes inv: "progress_inv prog c" and t: "prog t \<noteq> []"
    and moved: "pcs (sy c') = signal w ((pcs (sy c))(t := p))"
    and rest: "\<And>u. u \<noteq> t \<Longrightarrow> todo c' u = todo c u"
    and tail: "\<exists>ds. prog t = ds @ todo c' t"
    and dq: "in_dequeue p \<Longrightarrow> \<exists>ds u. prog t = ds @ Deq u # todo c' t"
    and tr: "p = TryLock \<or> p = TryBody \<Longrightarrow> \<exists>u cs. todo c' t = TryLoop u # cs"
    and eq: "enq_left c t = enqs (todo c' t) + of_bool (pending p \<noteq> None) + length (puts d)"
    and dl: "deq_left c t = deqs (todo c' t) + of_bool (in_dequeue p) + length (gets d)"
  shows "progress_inv prog c' \<and>
    (d = [] \<and> sy c' = sy c \<and> todo c' = todo c \<or> (\<exists>t. prog t \<noteq> [] \<and> accounts c d c' t))"
proof -
  let ?p = "\<lambda>u. if u = t then p else pcs (sy c) u"
  have pc: "pending (pcs (sy c') u) = pending (?p u)" "in_dequeue (pcs (sy c') u) = in_dequeue (?p u)"
      "pcs (sy c') u = TryLock \<longleftrightarrow> ?p u = TryLock" "pcs (sy c') u = TryBody \<longleftrightarrow> ?p u = TryBody"
      "pcs (sy c') u = Idle \<longleftrightarrow> ?p u = Idle" for u
    by (simp_all add: moved)
  have "progress_inv prog c'"
    unfolding progress_inv_def
  proof
    fix u
    show "(\<exists>ds. prog u = ds @ todo c' u) \<and>
        (in_dequeue (pcs (sy c') u) \<longrightarrow> (\<exists>ds h. prog u = ds @ Deq h # todo c' u)) \<and>
        (pcs (sy c') u \<in> {TryLock, TryBody} \<longrightarrow> (\<exists>h cs. todo c' u = TryLoop h # cs)) \<and>
        (prog u = [] \<longrightarrow> pcs (sy c') u = Idle)"
    proof (cases "u = t")
      case True
      then show ?thesis using tail dq tr t pc [of t] by simp
    next
      case False
      then show ?thesis
        using inv[unfolded progress_inv_def, rule_format, of u] rest [OF False] pc [of u] by simp
    qed
  qed
  moreover have "accounts c d c' t"
    unfolding accounts_def
  proof
    fix u
    show "enq_left c u = enq_left c' u + (if u = t then length (puts d) else 0) \<and>
        deq_left c u = deq_left c' u + (if u = t then length (gets d) else 0)"
    proof (cases "u = t")
      case True
      then show ?thesis using eq dl pc(1,2) [of t] by (simp add: enq_left_def [of c'] deq_left_def [of c'])
    next
      case False
      then show ?thesis using rest [OF False] pc(1,2) [of u] by (simp add: enq_left_def deq_left_def)
    qed
  qed
  ultimately show ?thesis using t by blast
qed

lemma client_step_inv:
  assumes "client_step c d c'" and "progress_inv prog c"
  shows "progress_inv prog c' \<and>
    (d = [] \<and> sy c' = sy c \<and> todo c' = todo c \<or> (\<exists>t. prog t \<noteq> [] \<and> accounts c d c' t))"
proof -
  have inv: "\<exists>ds. prog u = ds @ todo c u"
      "in_dequeue (pcs (sy c) u) \<Longrightarrow> \<exists>ds h. prog u = ds @ Deq h # todo c u"
      "pcs (sy c) u = TryLock \<or> pcs (sy c) u = TryBody \<Longrightarrow> \<exists>h cs. todo c u = TryLoop h # cs"
      "prog u = [] \<Longrightarrow> pcs (sy c) u = Idle" for u
    using assms(2) unfolding progress_inv_def by blast+
  note moved = client_moved [OF assms(2)]
  note left = enq_left_def deq_left_def in_dequeue_def in_wait_def
  show ?thesis
    using assms(1)
  proof cases
    case (start_enqueue t st v cs p a e s)
    note r = act_call(1) [OF start_enqueue(6)]
    obtain ds where ds: "prog t = ds @ Enq st v # cs" using inv(1) [of t] start_enqueue(3) by auto
    then have "\<exists>ds. prog t = ds @ cs" by (intro exI [of _ "ds @ [Enq st v]"]) simp
    then show ?thesis
      using r ds start_enqueue(1-3)
      by (intro moved [of t _ None "EnqLock a p"]) (simp_all add: signal_def left)
  next
    case (start_dequeue t u cs e s)
    note r = act_call(2) [OF start_dequeue(5)]
    obtain ds where ds: "prog t = ds @ Deq u # cs" using inv(1) [of t] start_dequeue(3) by auto
    then have "\<exists>ds. prog t = ds @ cs" by (intro exI [of _ "ds @ [Deq u]"]) simp
    then show ?thesis
      using r ds start_dequeue(1-3)
      by (intro moved [of t _ None DeqLock]) (auto simp: signal_def left)
  next
    case (start_try t u cs e s)
    note r = act_call(3) [OF start_try(5)]
    obtain ds where ds: "prog t = ds @ TryLoop u # cs" using inv(1) [of t] start_try(3) by auto
    then show ?thesis
      using r start_try(1-3)
      by (intro moved [of t _ None TryLock]) (simp_all add: signal_def left)
  next
    case (spurious t e s)
    note r = act_call(4) [OF spurious(3)]
    have "prog t \<noteq> []" using inv(4) [of t] r by auto
    moreover have "\<exists>ds h. prog t = ds @ Deq h # todo c t"
      using inv(2) [of t] r by (simp add: in_dequeue_def in_wait_def)
    ultimately show ?thesis
      using r spurious(1,2) inv(1) [of t]
      by (intro moved [of t _ None DeqRelock]) (simp_all add: signal_def left)
  next
    case (use_item t p st v)
    then show ?thesis
      using assms(2) by (simp add: progress_inv_def accounts_def enq_left_def deq_left_def)
  next
    case (go_on t e s)
    obtain p w where r: "pcs s = signal w ((pcs (sy c))(t := p))"
        "pcs (sy c) t \<noteq> Idle"
        "case e of Put v \<Rightarrow> (\<exists>a. pcs (sy c) t = EnqBody a v) \<and> p = EnqUnlock
         | Get v \<Rightarrow> pcs (sy c) t = DeqLoop \<and> p = DeqUnlock v \<or> pcs (sy c) t = TryBody \<and> p = TryUnlock (Some v)
         | Other \<Rightarrow> w = None \<and> pending p = pending (pcs (sy c) t) \<and> in_dequeue p = in_dequeue (pcs (sy c) t) \<and>
             (p \<in> {TryLock, TryBody} \<longrightarrow> pcs (sy c) t = TryLock)"
      using act_go [OF go_on(3)] by blast
    have t: "prog t \<noteq> []" using inv(4) [of t] r(2) by auto
    have sy: "pcs (sy c') = signal w ((pcs (sy c))(t := p))" by (simp add: go_on(2) r(1))
    show ?thesis
    proof (cases e)
      case (Put v)
      then obtain a where "pcs (sy c) t = EnqBody a v" "p = EnqUnlock" using r(3) by auto
      moreover have "todo c' = todo c" using calculation(1) by (simp add: go_on(2))
      ultimately show ?thesis using go_on(1) Put inv(1) [of t]
        by (intro moved [OF t sy]) (simp_all add: left)
    next
      case Other
      then have "pending p = pending (pcs (sy c) t)" "in_dequeue p = in_dequeue (pcs (sy c) t)"
          "p = TryLock \<or> p = TryBody \<Longrightarrow> pcs (sy c) t = TryLock" "todo c' = todo c"
        using r(3) by (auto simp: go_on(2))
      then show ?thesis using go_on(1) Other inv(1-3) [of t]
        by (intro moved [OF t sy]) (simp_all add: enq_left_def deq_left_def)
    next
      case (Get v)
      then consider "pcs (sy c) t = DeqLoop" "p = DeqUnlock v" | "pcs (sy c) t = TryBody" "p = TryUnlock (Some v)"
        using r(3) by auto
      then show ?thesis
      proof cases
        case 1
        then have "todo c' = todo c" by (simp add: go_on(2))
        then show ?thesis using go_on(1) 1 Get inv(1) [of t]
          by (intro moved [OF t sy]) (simp_all add: left)
      next
        case 2
        obtain h cs where cs: "todo c t = TryLoop h # cs" using inv(3) [of t] 2(1) by blast
        then obtain ds where "prog t = (ds @ [TryLoop h]) @ cs" using inv(1) [of t] by auto
        then have "\<exists>ds. prog t = ds @ cs" by blast
        moreover have "todo c' = (todo c)(t := cs)" using 2(1) Get cs by (simp add: go_on(2))
        ultimately show ?thesis using go_on(1) 2 Get cs
          by (intro moved [OF t sy]) (simp_all add: left)
      qed
    qed
  qed
qed

definition users :: "(nat \<Rightarrow> client_call list) \<Rightarrow> nat set" where
  "users prog = {t. prog t \<noteq> []}"

lemma accounts_sum:
  assumes "finite T" and "t \<in> T" and "\<forall>u. f u = f' u + (if u = t then k else (0::nat))"
  shows "sum f T = sum f' T + k"
proof -
  have "sum f T = (\<Sum>u\<in>T. f' u) + (\<Sum>u\<in>T. if u = t then k else 0)"
    using assms(3) by (simp add: sum.distrib)
  also have "(\<Sum>u\<in>T. if u = t then k else 0) = k" using assms(1,2) by simp
  finally show ?thesis .
qed

lemma client_step_reach:
  assumes "client_step c d c'" and "reach readable (sy c) es"
  shows "reach readable (sy c') (es @ d)"
  using assms by cases (auto intro: reach.reach_step step_mono [OF act_step])

lemma client_reach_inv:
  assumes "client_reach prog c es" and "finite (users prog)"
  shows "reach readable (sy c) es \<and> progress_inv prog c \<and>
    (\<Sum>t\<in>users prog. enqs (prog t)) = (\<Sum>t\<in>users prog. enq_left c t) + length (puts es) \<and>
    (\<Sum>t\<in>users prog. deqs (prog t)) = (\<Sum>t\<in>users prog. deq_left c t) + length (gets es)"
  using assms(1)
proof (induction rule: client_reach.induct)
  case client_init
  have "pcs sys_init t = Idle" for t by (simp add: sys_init_def)
  then show ?case
    by (simp add: clients_init_def reach.reach_init progress_inv_def enq_left_def deq_left_def in_dequeue_def in_wait_def)
next
  case (client_next c es d c')
  have st: "reach readable (sy c') (es @ d)"
    using client_next.hyps(2) by (rule client_step_reach) (simp add: client_next.IH)
  have inv: "progress_inv prog c'"
    using client_step_inv [OF client_next.hyps(2)] client_next.IH by blast
  show ?case
  proof (cases "d = [] \<and> sy c' = sy c \<and> todo c' = todo c")
    case True
    then show ?thesis using client_next.IH inv by (simp add: enq_left_def deq_left_def)
  next
    case False
    then obtain t where t: "prog t \<noteq> []" "accounts c d c' t"
      using client_step_inv [OF client_next.hyps(2)] client_next.IH by blast
    have mem: "t \<in> users prog" using t(1) by (simp add: users_def)
    have "(\<Sum>u\<in>users prog. enq_left c u) = (\<Sum>u\<in>users prog. enq_left c' u) + length (puts d)"
      using t(2) by (intro accounts_sum [OF assms(2) mem]) (simp add: accounts_def)
    moreover have "(\<Sum>u\<in>users prog. deq_left c u) = (\<Sum>u\<in>users prog. deq_left c' u) + length (gets d)"
      using t(2) by (intro accounts_sum [OF assms(2) mem]) (simp add: accounts_def)
    ultimately show ?thesis
      using client_next.IH st inv
      by (simp add: add.assoc)
  qed
qed

text \<open>
  A program of threads that should come to its end: after a call of its own that takes an item no
  thread still has more items to put in than to take out, and the threads together put in as many as
  they take out.
\<close>

definition balanced :: "(nat \<Rightarrow> client_call list) \<Rightarrow> bool" where
  "balanced prog \<longleftrightarrow> finite (users prog) \<and>
     (\<forall>t ds x cs. prog t = ds @ x # cs \<longrightarrow> \<not> is_enq x \<longrightarrow> enqs cs \<le> deqs cs) \<and>
     (\<Sum>t\<in>users prog. deqs (prog t)) \<le> (\<Sum>t\<in>users prog. enqs (prog t))"

lemma balanced_after: "balanced prog \<Longrightarrow> prog t = ds @ x # cs \<Longrightarrow> \<not> is_enq x \<Longrightarrow> enqs cs \<le> deqs cs"
  unfolding balanced_def by blast

lemma takes_calls: "\<not> is_enq x \<Longrightarrow> enqs (x # cs) = enqs cs \<and> deqs (x # cs) = Suc (deqs cs)"
  by (cases x) simp_all

text \<open>When all wait for items and there is none, nobody is there any more.\<close>

lemma nothing_left:
  assumes "client_reach prog c es" and "balanced prog"
    and at: "\<forall>u. pcs (sy c) u = Idle \<or> pcs (sy c) u = DeqSleep"
    and takers: "\<forall>u x cs. pcs (sy c) u = Idle \<longrightarrow> todo c u = x # cs \<longrightarrow> \<not> is_enq x"
    and empty: "contains (qu (sy c)) []"
  shows "pcs (sy c) t = Idle \<and> todo c t = []"
proof (rule ccontr)
  assume busy: "\<not> ?thesis"
  have fin: "finite (users prog)" using assms(2) by (simp add: balanced_def)
  have inv: "reach readable (sy c) es" "progress_inv prog c"
      "(\<Sum>t\<in>users prog. enqs (prog t)) = (\<Sum>t\<in>users prog. enq_left c t) + length (puts es)"
      "(\<Sum>t\<in>users prog. deqs (prog t)) = (\<Sum>t\<in>users prog. deq_left c t) + length (gets es)"
    using client_reach_inv [OF assms(1) fin] by blast+
  obtain as ws where as: "sys_inv (sy c) as ws" using reach_inv [OF inv(1)] by blast
  have "map (value_at (qu (sy c))) as = []"
    using empty contains_unique sys_inv_contains [OF as] by metis
  then have same: "puts es = gets es" using reach_fifo [OF inv(1) as] by simp
  have left: "enq_left c u \<le> deq_left c u \<and>
      (\<not> (pcs (sy c) u = Idle \<and> todo c u = []) \<longrightarrow> enq_left c u < deq_left c u)" for u
  proof (cases "pcs (sy c) u = DeqSleep")
    case True
    then obtain ds h where "prog u = ds @ Deq h # todo c u"
      using inv(2) unfolding progress_inv_def in_dequeue_def in_wait_def by blast
    then have "enqs (todo c u) \<le> deqs (todo c u)" by (rule balanced_after [OF assms(2)]) simp
    then show ?thesis using True by (simp add: enq_left_def deq_left_def in_dequeue_def in_wait_def)
  next
    case False
    then have idle: "pcs (sy c) u = Idle" using at by blast
    show ?thesis
    proof (cases "todo c u")
      case Nil
      then show ?thesis using idle by (simp add: enq_left_def)
    next
      case (Cons x cs)
      then have x: "\<not> is_enq x" using takers idle by blast
      obtain ds where "prog u = ds @ x # cs" using inv(2) Cons unfolding progress_inv_def by metis
      then have "enqs cs \<le> deqs cs" using x by (rule balanced_after [OF assms(2)])
      then show ?thesis using idle Cons takes_calls [OF x, of cs] by (simp add: enq_left_def deq_left_def)
    qed
  qed
  have "t \<in> users prog" using inv(2) busy by (auto simp: users_def progress_inv_def)
  then have "(\<Sum>u\<in>users prog. enq_left c u) < (\<Sum>u\<in>users prog. deq_left c u)"
    using left busy by (intro sum_strict_mono_ex1 [OF fin]) auto
  then show False using inv(3,4) same assms(2) by (simp add: balanced_def)
qed

lemma no_sleeper_left:
  assumes "client_reach prog c es" and "balanced prog" and "\<forall>t. blocked c t"
  shows "pcs (sy c) t \<noteq> DeqSleep"
proof
  assume sl: "pcs (sy c) t = DeqSleep"
  have fin: "finite (users prog)" using assms(2) by (simp add: balanced_def)
  have r: "reach readable (sy c) es" using client_reach_inv [OF assms(1) fin] by blast
  have "\<forall>u. advance readable u (sy c) = None"
    using assms(3) advance_None [of "live c" _ "sy c" readable] by (simp add: blocked_def)
  note stuck = stuck_state [OF r this]
  have "\<forall>u x cs. pcs (sy c) u = Idle \<longrightarrow> todo c u = x # cs \<longrightarrow> \<not> is_enq x"
    using assms(3) by (simp add: blocked_def)
  then have "pcs (sy c) t = Idle" using nothing_left [OF assms(1,2)] stuck sl by blast
  then show False using sl by simp
qed

lemma clients_end:
  assumes "client_reach prog c es" and "balanced prog" and "\<forall>t. blocked c t"
  shows "(\<forall>t. pcs (sy c) t = Idle \<and> todo c t = []) \<and> reach readable (sy c) es \<and>
    length (puts es) = (\<Sum>t\<in>users prog. enqs (prog t)) \<and>
    length (gets es) = (\<Sum>t\<in>users prog. deqs (prog t))"
proof -
  have fin: "finite (users prog)" using assms(2) by (simp add: balanced_def)
  note inv = client_reach_inv [OF assms(1) fin]
  have "\<forall>u. advance readable u (sy c) = None"
    using assms(3) advance_None [of "live c" _ "sy c" readable] by (simp add: blocked_def)
  then have idle: "pcs (sy c) t = Idle" for t
    using stuck_state [of readable "sy c" es] inv no_sleeper_left [OF assms, of t] by blast
  moreover have over: "todo c t = []" for t using idle [of t] assms(3) by (simp add: blocked_def)
  ultimately have "enq_left c t = 0 \<and> deq_left c t = 0" for t
    by (simp add: enq_left_def deq_left_def in_dequeue_def in_wait_def)
  then show ?thesis using inv by (simp add: idle over)
qed

end
