(* ===== verification/Queue_Cells.thy ===== *)
theory Queue_Cells
  imports Queue_Clients
begin

text \<open>
  Who owns the integers that go through the concurrent queue. The programs of \<open>Queue_Clients\<close> are
  refined from a small machine, the \<open>books\<close>: a thread makes an integer, hands it to the line, takes
  the first of the line, uses it up. On the books it is easy to see that every integer has one owner,
  that it is alive as long as it has one, and that no number is lost or doubled; the refinement
  carries this over to every interleaving of the programs.
\<close>

section \<open>The books\<close>

text \<open>
  \<open>to_make\<close>: the numbers each thread is still going to enqueue. \<open>own\<close>: the integer that belongs to a
  thread. \<open>line\<close>: the integers in the queue. \<open>got\<close>: the numbers found so far, with their finder.
\<close>

record books =
  to_make :: "nat \<Rightarrow> nat list"
  own :: "nat \<Rightarrow> nat option"
  line :: "nat list"
  cell :: "nat \<Rightarrow> (storage \<times> nat) option"
  got :: "(nat \<times> nat) list"

inductive books_step :: "nat set \<Rightarrow> books \<Rightarrow> books \<Rightarrow> bool" for T where
  make: "t \<in> T \<Longrightarrow> to_make b t = v # vs \<Longrightarrow> own b t = None \<Longrightarrow> cell b p = None \<Longrightarrow>
    books_step T b (b\<lparr>to_make := (to_make b)(t := vs), own := (own b)(t \<mapsto> p),
      cell := (cell b)(p \<mapsto> (st, v))\<rparr>)"
| hand_in: "t \<in> T \<Longrightarrow> own b t = Some p \<Longrightarrow>
    books_step T b (b\<lparr>own := (own b)(t := None), line := line b @ [p]\<rparr>)"
| take: "t \<in> T \<Longrightarrow> own b t = None \<Longrightarrow> line b = p # ps \<Longrightarrow>
    books_step T b (b\<lparr>own := (own b)(t \<mapsto> p), line := ps\<rparr>)"
| use_up: "t \<in> T \<Longrightarrow> own b t = Some p \<Longrightarrow> cell b p = Some (st, v) \<Longrightarrow>
    books_step T b (b\<lparr>own := (own b)(t := None),
      cell := (if st = Malloc then (cell b)(p := None) else cell b), got := got b @ [(t, v)]\<rparr>)"

definition books_inv :: "books \<Rightarrow> bool" where
  "books_inv b \<longleftrightarrow>
     distinct (line b) \<and> (\<forall>p \<in> set (line b). cell b p \<noteq> None) \<and>
     (\<forall>t p. own b t = Some p \<longrightarrow>
        cell b p \<noteq> None \<and> p \<notin> set (line b) \<and> (\<forall>u. own b u = Some p \<longrightarrow> u = t)) \<and>
     (\<forall>p v. cell b p = Some (Malloc, v) \<longrightarrow> p \<in> set (line b) \<or> (\<exists>t. own b t = Some p))"

lemma books_step_inv:
  assumes "books_step T b b'" and "books_inv b"
  shows "books_inv b'"
proof -
  have inv: "distinct (line b)" "\<And>p. p \<in> set (line b) \<Longrightarrow> cell b p \<noteq> None"
      "\<And>t p. own b t = Some p \<Longrightarrow> cell b p \<noteq> None \<and> p \<notin> set (line b)"
      "\<And>t u p. own b t = Some p \<Longrightarrow> own b u = Some p \<Longrightarrow> u = t"
      "\<And>p v. cell b p = Some (Malloc, v) \<Longrightarrow> p \<in> set (line b) \<or> (\<exists>t. own b t = Some p)"
    using assms(2) unfolding books_inv_def by blast+
  show ?thesis
    using assms(1)
  proof cases
    case (make t v vs p st)
    then show ?thesis
      unfolding books_inv_def using inv(1) inv(2-4) [of _] inv(5)
      by (auto split: if_splits) (metis option.distinct(1))+
  next
    case (hand_in t p)
    have "q \<in> set (line b @ [p]) \<or> (\<exists>u. ((own b)(t := None)) u = Some q)"
      if q: "cell b q = Some (Malloc, v)" for q v
    proof (cases "own b t = Some q")
      case True
      then show ?thesis using hand_in(3) by simp
    next
      case False
      then show ?thesis using inv(5) [OF q] by (metis Un_iff fun_upd_other set_append)
    qed
    moreover have "q \<noteq> p" if "q \<in> set (line b)" for q using inv(3) [OF hand_in(3)] that by auto
    moreover have "u = t" if "own b u = Some p" for u using inv(4) [OF hand_in(3) that] .
    ultimately show ?thesis
      unfolding books_inv_def hand_in(1) using inv(1) inv(2) inv(3) [OF hand_in(3)] inv(3,4)
      by (simp add: fun_upd_def) blast
  next
    case (take t p ps)
    have "q \<in> set ps \<or> (\<exists>u. ((own b)(t \<mapsto> p)) u = Some q)" if q: "cell b q = Some (Malloc, v)" for q v
    proof (cases "q = p \<or> q \<in> set ps")
      case False
      then obtain u where "own b u = Some q" using inv(5) [OF q] take(4) by auto
      then show ?thesis using take(3) by (intro disjI2 exI [of _ u]) auto
    qed auto
    moreover have "own b u \<noteq> Some p" for u using inv(3) [of u p] take(4) by auto
    ultimately show ?thesis
      unfolding books_inv_def using take inv(1-4) by (auto split: if_splits)
  next
    case (use_up t p st v)
    have keep: "q \<in> set (line b) \<or> (\<exists>u. u \<noteq> t \<and> own b u = Some q)"
      if q: "cell b q = Some (Malloc, n)" "q \<noteq> p \<or> st \<noteq> Malloc" for q n
    proof (cases "q = p")
      case True
      then show ?thesis using q use_up(4) by simp
    next
      case False
      then show ?thesis using inv(5) [OF q(1)] use_up(3) by (metis option.inject)
    qed
    show ?thesis
      unfolding books_inv_def use_up(1) using use_up(2-4) inv(1-4) by (auto split: if_splits) (metis keep)+
  qed
qed

text \<open>How often the number \<open>x\<close> is there: to be made, with a thread, in the line, or found.\<close>

definition with_thread :: "nat \<Rightarrow> books \<Rightarrow> nat \<Rightarrow> nat" where
  "with_thread x b t = count_list (to_make b t) x +
     of_bool (\<exists>p st. own b t = Some p \<and> cell b p = Some (st, x))"

definition in_line :: "nat \<Rightarrow> books \<Rightarrow> nat" where
  "in_line x b = length (filter (\<lambda>p. \<exists>st. cell b p = Some (st, x)) (line b))"

definition copies :: "nat set \<Rightarrow> nat \<Rightarrow> books \<Rightarrow> nat" where
  "copies T x b = (\<Sum>t\<in>T. with_thread x b t) + in_line x b + count_list (map snd (got b)) x"

lemma copies_eq:
  assumes "finite T" and "t \<in> T"
    and "\<And>u. u \<noteq> t \<Longrightarrow> with_thread x b' u = with_thread x b u"
    and "with_thread x b' t + in_line x b' + count_list (map snd (got b')) x =
      with_thread x b t + in_line x b + count_list (map snd (got b)) x"
  shows "copies T x b' = copies T x b"
proof -
  have "(\<Sum>u\<in>T - {t}. with_thread x b' u) = (\<Sum>u\<in>T - {t}. with_thread x b u)"
    using assms(3) by (intro sum.cong) auto
  then show ?thesis
    using assms(4) unfolding copies_def sum.remove [OF assms(1,2)] by simp
qed

lemma books_step_copies:
  assumes "books_step T b b'" and "books_inv b" and "finite T"
  shows "copies T x b' = copies T x b"
proof -
  have inv: "\<And>p. p \<in> set (line b) \<Longrightarrow> cell b p \<noteq> None"
      "\<And>t p. own b t = Some p \<Longrightarrow> cell b p \<noteq> None \<and> p \<notin> set (line b)"
      "\<And>t u p. own b t = Some p \<Longrightarrow> own b u = Some p \<Longrightarrow> u = t"
    using assms(2) unfolding books_inv_def by blast+
  show ?thesis
    using assms(1)
  proof cases
    case (make t v vs p st)
    have fresh: "p \<notin> set (line b)" "own b u \<noteq> Some p" for u
      using inv(1) [of p] inv(2) [of u p] make(5) by auto
    have "in_line x b' = in_line x b"
      unfolding in_line_def make(1) using fresh(1)
      by (auto intro!: arg_cong [where f = length] filter_cong)
    moreover have "with_thread x b' u = with_thread x b u" if "u \<noteq> t" for u
      using that make(1) fresh(2) [of u] by (cases "own b u") (simp_all add: with_thread_def)
    ultimately show ?thesis
      using make by (intro copies_eq [OF assms(3) make(2)]) (simp_all add: with_thread_def)
  next
    case (hand_in t p)
    obtain st v where "cell b p = Some (st, v)" using inv(2) [OF hand_in(3)] by auto
    then show ?thesis
      using hand_in by (intro copies_eq [OF assms(3) hand_in(2)]) (auto simp: with_thread_def in_line_def)
  next
    case (take t p ps)
    obtain st v where "cell b p = Some (st, v)" using inv(1) [of p] take(4) by auto
    then show ?thesis
      using take by (intro copies_eq [OF assms(3) take(2)]) (auto simp: with_thread_def in_line_def)
  next
    case (use_up t p st v)
    have alone: "p \<notin> set (line b)" "\<And>u. u \<noteq> t \<Longrightarrow> own b u \<noteq> Some p"
      using inv(2) [OF use_up(3)] inv(3) [OF use_up(3)] by auto
    have "in_line x b' = in_line x b"
      unfolding in_line_def use_up(1) using alone(1) by (auto intro!: arg_cong [where f = length] filter_cong)
    moreover have "with_thread x b' u = with_thread x b u" if "u \<noteq> t" for u
      using that use_up(1) alone(2) [OF that] by (cases "own b u") (simp_all add: with_thread_def)
    ultimately show ?thesis
      using use_up by (intro copies_eq [OF assms(3) use_up(2)]) (simp_all add: with_thread_def)
  qed
qed

section \<open>The books of a running program\<close>

fun numbers :: "client_call list \<Rightarrow> nat list" where
  "numbers [] = []"
| "numbers (Enq st v # cs) = v # numbers cs"
| "numbers (_ # cs) = numbers cs"

fun pc_item :: "pc \<Rightarrow> nat option" where
  "pc_item (EnqLock a p) = Some p"
| "pc_item (EnqBody a p) = Some p"
| "pc_item (DeqUnlock p) = Some p"
| "pc_item (TryUnlock r) = r"
| "pc_item _ = None"

definition owns :: "clients \<Rightarrow> nat \<Rightarrow> nat option" where
  "owns c t = (case held c t of Some p \<Rightarrow> Some p | None \<Rightarrow> pc_item (pcs (sy c) t))"

definition queued :: "nat queue_op list \<Rightarrow> nat list" where
  "queued es = drop (length (gets es)) (puts es)"

definition books_of :: "clients \<Rightarrow> nat queue_op list \<Rightarrow> books" where
  "books_of c es =
     \<lparr>to_make = (\<lambda>t. numbers (todo c t)), own = owns c, line = queued es, cell = cells c, got = taken c\<rparr>"

text \<open>The tests free what they have allocated and leave variables alone.\<close>

fun fits :: "storage \<Rightarrow> client_call \<Rightarrow> bool" where
  "fits m (Enq st v) \<longleftrightarrow> st = m"
| "fits m (Deq u) \<longleftrightarrow> (u = Print \<longleftrightarrow> m = Local)"
| "fits m (TryLoop u) \<longleftrightarrow> (u = Print \<longleftrightarrow> m = Local)"

definition in_take :: "pc \<Rightarrow> bool" where
  "in_take p \<longleftrightarrow> in_dequeue p \<or> p = TryLock \<or> p = TryBody \<or> (\<exists>v. p = DeqUnlock v) \<or> (\<exists>r. p = TryUnlock r)"

definition owner_inv :: "storage \<Rightarrow> (nat \<Rightarrow> client_call list) \<Rightarrow> clients \<Rightarrow> bool" where
  "owner_inv m prog c \<longleftrightarrow>
     (\<forall>t. (held c t \<noteq> None \<longrightarrow> pcs (sy c) t = Idle \<and> prog t \<noteq> []) \<and>
          (in_take (pcs (sy c) t) \<or> held c t \<noteq> None \<longrightarrow> (how c t = Print \<longleftrightarrow> m = Local))) \<and>
     (\<forall>p st v. cells c p = Some (st, v) \<longrightarrow> st = m)"

lemma queued_eq:
  assumes "reach rd s es" and "sys_inv s as ws"
  shows "queued es = map (value_at (qu s)) as" and "puts es = gets es @ queued es"
  using reach_fifo [OF assms] by (simp_all add: queued_def)

lemma queued_step:
  assumes "reach rd s es" and "reach rd s' (es @ [e])"
  shows "case e of Put p \<Rightarrow> queued (es @ [e]) = queued es @ [p]
    | Get p \<Rightarrow> queued es = p # queued (es @ [e])
    | Other \<Rightarrow> queued (es @ [e]) = queued es"
proof -
  have "puts es = gets es @ queued es" "puts (es @ [e]) = gets (es @ [e]) @ queued (es @ [e])"
    using queued_eq(2) reach_inv [OF assms(1)] reach_inv [OF assms(2)] assms by blast+
  then show ?thesis by (cases e) simp_all
qed

text \<open>The pointer in the hands of a thread, over one step inside a call.\<close>

lemma act_go_item:
  assumes "act rd (t, Go) s = Some (e, s')"
  shows "\<exists>p w. pcs s' = signal w ((pcs s)(t := p)) \<and> (in_take p \<longrightarrow> in_take (pcs s t)) \<and>
    pcs s t \<noteq> Idle \<and>
    (case e of
       Put v \<Rightarrow> pc_item (pcs s t) = Some v \<and> pc_item p = None \<and> returned (pcs s t) = None
     | Get v \<Rightarrow> pc_item (pcs s t) = None \<and> pc_item p = Some v \<and> returned (pcs s t) = None
     | Other \<Rightarrow> (case returned (pcs s t) of
           None \<Rightarrow> pc_item p = pc_item (pcs s t)
         | Some v \<Rightarrow> p = Idle \<and> pc_item (pcs s t) = Some v \<and> in_take (pcs s t)))"
proof -
  have a: "advance rd t s = Some (Ok (e, s'))"
    using assms by (auto simp: act_def split: option.splits run.splits)
  note facts = in_take_def in_dequeue_def in_wait_def
  show ?thesis
  proof (cases "pcs s t")
    case (EnqBody b v)
    then obtain w where "pcs s' = signal w ((pcs s)(t := EnqUnlock))" "e = Put v"
      using a by (auto simp: advance_def)
    then show ?thesis using EnqBody by (intro exI [of _ EnqUnlock] exI [of _ w]) (auto simp: facts)
  next
    case TryBody
    then obtain r where "pcs s' = signal None ((pcs s)(t := TryUnlock r))" "e = try_event r"
      using a by (auto simp: advance_def signal_def)
    then show ?thesis using TryBody
      by (intro exI [of _ "TryUnlock r"] exI [of _ None]) (auto simp: facts try_event_def split: option.splits)
  next
    case DeqLoop
    show ?thesis
    proof (cases "count (qu s) = 0")
      case True
      then have "pcs s' = signal None ((pcs s)(t := DeqCheck))" "e = Other"
        using a DeqLoop by (auto simp: advance_def signal_def)
      then show ?thesis using DeqLoop
        by (intro exI [of _ DeqCheck] exI [of _ None]) (auto simp: facts)
    next
      case False
      then obtain v where "pcs s' = signal None ((pcs s)(t := DeqUnlock v))" "e = Get v"
        using a DeqLoop by (auto simp: advance_def signal_def)
      then show ?thesis using DeqLoop
        by (intro exI [of _ "DeqUnlock v"] exI [of _ None]) (auto simp: facts)
    qed
  next
    case DeqCheck
    then obtain p where "pcs s' = signal None ((pcs s)(t := p))" "e = Other" "p = DeqSleep \<or> p = DeqLoop"
      using a by (auto simp: advance_def signal_def split: option.splits if_splits)
    then show ?thesis using DeqCheck
      by (intro exI [of _ p] exI [of _ None]) (auto simp: facts)
  qed (use a in \<open>auto simp: advance_def Let_def signal_def facts
        split: if_splits option.splits intro!: exI [of _ None]\<close>)
qed

lemma signal_item [simp]:
  "pc_item (signal w f u) = pc_item (f u)" "in_take (signal w f u) = in_take (f u)"
  by (cases w; auto simp: signal_def in_take_def in_dequeue_def in_wait_def)+

section \<open>The programs keep the books\<close>

lemma owns_move:
  assumes "pcs (sy c') = signal w ((pcs (sy c))(t := p))" and "held c' = (held c)(t := h)"
  shows "owns c' = (owns c)(t := (case h of None \<Rightarrow> pc_item p | Some q \<Rightarrow> Some q))"
  by (rule ext) (simp add: owns_def assms split: option.split)

lemma signal_None [simp]: "signal None f = f"
  by (simp add: signal_def)

lemma owner_inv_move:
  assumes inv: "owner_inv m prog c"
    and pc: "pcs (sy c') = signal w ((pcs (sy c))(t := p))" and t: "prog t \<noteq> []"
    and held: "held c' = (held c)(t := h)" "h \<noteq> None \<longrightarrow> p = Idle"
    and how: "how c' = (how c)(t := u)" "in_take p \<or> h \<noteq> None \<longrightarrow> (u = Print \<longleftrightarrow> m = Local)"
    and cells: "\<forall>q st v. cells c' q = Some (st, v) \<longrightarrow> st = m"
  shows "owner_inv m prog c'"
  unfolding owner_inv_def
proof (intro conjI allI)
  fix u
  have "pcs (sy c') u = Idle \<longleftrightarrow> ((pcs (sy c))(t := p)) u = Idle"
      "in_take (pcs (sy c') u) \<longleftrightarrow> in_take (((pcs (sy c))(t := p)) u)"
    by (simp_all add: pc)
  then show "held c' u \<noteq> None \<longrightarrow> pcs (sy c') u = Idle \<and> prog u \<noteq> []"
      "in_take (pcs (sy c') u) \<or> held c' u \<noteq> None \<longrightarrow> (how c' u = Print) = (m = Local)"
    using inv held how t unfolding owner_inv_def by auto
qed (use cells in blast)

lemma not_in_take [simp]: "\<not> in_take Idle" "\<not> in_take (EnqLock a p)"
  by (simp_all add: in_take_def in_dequeue_def in_wait_def)

text \<open>One step of a program is a step on the books, or leaves them as they are.\<close>

lemma client_step_books:
  assumes "client_step c d c'" and own: "owner_inv m prog c" and prg: "progress_inv prog c"
    and fit: "\<forall>t. \<forall>x \<in> set (prog t). fits m x" and rch: "reach readable (sy c) es"
  shows "owner_inv m prog c' \<and>
    (books_of c' (es @ d) = books_of c es \<or>
     books_step (users prog) (books_of c es) (books_of c' (es @ d)))"
proof -
  have suffix: "\<exists>ds. prog t = ds @ todo c t" for t using prg unfolding progress_inv_def by blast
  have fits_todo: "todo c t = x # cs \<Longrightarrow> prog t \<noteq> [] \<and> fits m x" for t x cs
    using suffix [of t] fit by (metis append_is_Nil_conv in_set_conv_decomp list.distinct(1))
  have busy: "pcs (sy c) t \<noteq> Idle \<Longrightarrow> prog t \<noteq> []" for t using prg unfolding progress_inv_def by blast
  have idle: "held c t \<noteq> None \<Longrightarrow> pcs (sy c) t = Idle \<and> prog t \<noteq> []"
      "in_take (pcs (sy c) t) \<or> held c t \<noteq> None \<Longrightarrow> how c t = Print \<longleftrightarrow> m = Local"
      "cells c p = Some (st, v) \<Longrightarrow> st = m" for t p st v
    using own unfolding owner_inv_def by blast+
  have cells_m: "\<forall>q st v. cells c q = Some (st, v) \<longrightarrow> st = m" using idle(3) by blast
  have same_line: "queued (es @ [Other]) = queued es" by (simp add: queued_def)
  note inv = owner_inv_move [OF own]
  show ?thesis
    using assms(1)
  proof cases
    case (start_enqueue t st v cs p a e s)
    note r = act_call(1) [OF start_enqueue(6)] and f = fits_todo [OF start_enqueue(3)]
    have pc: "pcs (sy c') = signal None ((pcs (sy c))(t := EnqLock a p))"
      using r start_enqueue(2) by simp
    have h: "held c' = (held c)(t := None)" using start_enqueue(2,4) by (simp add: fun_upd_idem)
    have "owner_inv m prog c'"
      using f cells_m start_enqueue(2) by (intro inv [OF pc _ h, of "how c t"]) auto
    moreover have "owns c t = None" using r start_enqueue(4) by (simp add: owns_def)
    then have "books_step (users prog) (books_of c es) (books_of c es
        \<lparr>to_make := (to_make (books_of c es))(t := numbers cs), own := (own (books_of c es))(t \<mapsto> p),
         cell := (cell (books_of c es))(p \<mapsto> (st, v))\<rparr>)"
      using f start_enqueue(3,5) by (intro books_step.make) (simp_all add: books_of_def users_def)
    moreover have "books_of c' (es @ d) = books_of c es
        \<lparr>to_make := (to_make (books_of c es))(t := numbers cs), own := (own (books_of c es))(t \<mapsto> p),
         cell := (cell (books_of c es))(p \<mapsto> (st, v))\<rparr>"
      using start_enqueue(1,2) r owns_move [OF pc h] same_line by (simp add: books_of_def fun_eq_iff)
    ultimately show ?thesis by simp
  next
    case (start_dequeue t u cs e s)
    note r = act_call(2) [OF start_dequeue(5)] and f = fits_todo [OF start_dequeue(3)]
    have pc: "pcs (sy c') = signal None ((pcs (sy c))(t := DeqLock))" using r start_dequeue(2) by simp
    have h: "held c' = (held c)(t := None)" using start_dequeue(2,4) by (simp add: fun_upd_idem)
    have "owner_inv m prog c'"
      using f cells_m start_dequeue(2) by (intro inv [OF pc _ h, of u]) auto
    moreover have "books_of c' (es @ d) = books_of c es"
      using start_dequeue r owns_move [OF pc h] same_line
      by (simp add: books_of_def fun_eq_iff owns_def)
    ultimately show ?thesis by simp
  next
    case (start_try t u cs e s)
    note r = act_call(3) [OF start_try(5)] and f = fits_todo [OF start_try(3)]
    have pc: "pcs (sy c') = signal None ((pcs (sy c))(t := TryLock))" using r start_try(2) by simp
    have h: "held c' = (held c)(t := None)" using start_try(2,4) by (simp add: fun_upd_idem)
    have "owner_inv m prog c'"
      using f cells_m start_try(2) by (intro inv [OF pc _ h, of u]) auto
    moreover have "books_of c' (es @ d) = books_of c es"
      using start_try r owns_move [OF pc h] same_line
      by (simp add: books_of_def fun_eq_iff owns_def)
    ultimately show ?thesis by simp
  next
    case (spurious t e s)
    note r = act_call(4) [OF spurious(3)]
    have pc: "pcs (sy c') = signal None ((pcs (sy c))(t := DeqRelock))" using r spurious(2) by simp
    have h: "held c' = (held c)(t := held c t)" using spurious(2) by simp
    have nh: "held c t = None" using idle(1) [of t] r by (cases "held c t") auto
    have "in_take (pcs (sy c) t)" using r by (simp add: in_take_def in_dequeue_def in_wait_def)
    then have "owner_inv m prog c'"
      using busy [of t] r cells_m spurious(2) idle(2) [of t] nh by (intro inv [OF pc _ h, of "how c t"]) auto
    moreover have "books_of c' (es @ d) = books_of c es"
      using spurious r owns_move [OF pc h] same_line nh
      by (simp add: books_of_def fun_eq_iff owns_def)
    ultimately show ?thesis by simp
  next
    case (use_item t p st v)
    have t: "pcs (sy c) t = Idle" "prog t \<noteq> []" "how c t = Print \<longleftrightarrow> m = Local" "st = m"
      using idle(1,2) [of t] idle(3) use_item(3,4) by auto
    have keep: "how c t = Print \<longleftrightarrow> st \<noteq> Malloc" using t(3,4) by (cases m) auto
    have pc: "pcs (sy c') = signal None ((pcs (sy c))(t := Idle))"
      using use_item(2) t(1) by (simp add: fun_upd_idem)
    have h: "held c' = (held c)(t := None)" using use_item(2) by simp
    have "owner_inv m prog c'"
      using t(2) cells_m use_item(2) by (intro inv [OF pc _ h, of "how c t"]) (auto split: if_splits)
    moreover have "books_step (users prog) (books_of c es) (books_of c es
        \<lparr>own := (own (books_of c es))(t := None),
         cell := (if st = Malloc then (cell (books_of c es))(p := None) else cell (books_of c es)),
         got := got (books_of c es) @ [(t, v)]\<rparr>)"
      using t(2) use_item(3,4) by (intro books_step.use_up) (simp_all add: books_of_def users_def owns_def)
    moreover have "books_of c' (es @ d) = books_of c es
        \<lparr>own := (own (books_of c es))(t := None),
         cell := (if st = Malloc then (cell (books_of c es))(p := None) else cell (books_of c es)),
         got := got (books_of c es) @ [(t, v)]\<rparr>"
      using use_item(1,2) owns_move [OF pc h] keep by (simp add: books_of_def)
    ultimately show ?thesis by simp
  next
    case (go_on t e s)
    obtain p w where r: "pcs s = signal w ((pcs (sy c))(t := p))"
        "in_take p \<longrightarrow> in_take (pcs (sy c) t)" "pcs (sy c) t \<noteq> Idle"
        "case e of
           Put v \<Rightarrow> pc_item (pcs (sy c) t) = Some v \<and> pc_item p = None \<and> returned (pcs (sy c) t) = None
         | Get v \<Rightarrow> pc_item (pcs (sy c) t) = None \<and> pc_item p = Some v \<and> returned (pcs (sy c) t) = None
         | Other \<Rightarrow> (case returned (pcs (sy c) t) of
               None \<Rightarrow> pc_item p = pc_item (pcs (sy c) t)
             | Some v \<Rightarrow> p = Idle \<and> pc_item (pcs (sy c) t) = Some v \<and> in_take (pcs (sy c) t))"
      using act_go_item [OF go_on(3)] by blast
    have t: "t \<in> users prog" "held c t = None" "owns c t = pc_item (pcs (sy c) t)"
      using busy [OF r(3)] idle(1) [of t] r(3) by (cases "held c t"; simp add: users_def owns_def)+
    have pc: "pcs (sy c') = signal w ((pcs (sy c))(t := p))" using r(1) go_on(2) by simp
    have h: "held c' = (held c)(t := returned (pcs (sy c) t))"
      using go_on(2) t(2) by (simp add: handed_def fun_upd_idem split: option.split)
    have rp: "returned (pcs (sy c) t) \<noteq> None \<longrightarrow> p = Idle \<and> in_take (pcs (sy c) t)"
      using r(4) by (cases e) (auto split: option.splits)
    have ow: "owner_inv m prog c'"
      using t(1) rp r(2) idle(2) [of t] cells_m go_on(2)
      by (intro inv [OF pc _ h, of "how c t"]) (auto simp: users_def)
    have nums: "(\<lambda>u. numbers (todo c' u)) = (\<lambda>u. numbers (todo c u))"
    proof (cases "pcs (sy c) t = TryBody")
      case True
      then obtain u cs where "todo c t = TryLoop u # cs" using prg unfolding progress_inv_def by blast
      then show ?thesis using go_on(2) by (auto simp: fun_eq_iff)
    qed (use go_on(2) in simp)
    have "reach readable (sy c') (es @ [e])"
      using client_step_reach [OF assms(1) rch] go_on(1) by simp
    note q = queued_step [OF rch this]
    let ?b = "books_of c es"
    have b': "books_of c' (es @ d) = ?b\<lparr>own := owns c', line := queued (es @ [e])\<rparr>"
      using go_on(1,2) nums by (simp add: books_of_def)
    note o = owns_move [OF pc h]
    show ?thesis
    proof (cases e)
      case (Put v)
      have "books_step (users prog) ?b (?b\<lparr>own := (own ?b)(t := None), line := line ?b @ [v]\<rparr>)"
        using Put r(4) t by (intro books_step.hand_in) (simp_all add: books_of_def)
      then show ?thesis using ow b' o q Put r(4) by (simp add: books_of_def)
    next
      case (Get v)
      have "books_step (users prog) ?b (?b\<lparr>own := (own ?b)(t \<mapsto> v), line := queued (es @ [e])\<rparr>)"
        using Get r(4) t q by (intro books_step.take) (simp_all add: books_of_def)
      then show ?thesis using ow b' o q Get r(4) by (simp add: books_of_def)
    next
      case Other
      have "owns c' = owns c"
        using o r(4) Other t(3) by (auto simp: fun_upd_idem split: option.splits)
      then show ?thesis using ow b' q Other by (simp add: books_of_def)
    qed
  qed
qed

definition uniform :: "storage \<Rightarrow> (nat \<Rightarrow> client_call list) \<Rightarrow> bool" where
  "uniform m prog \<longleftrightarrow> finite (users prog) \<and> (\<forall>t. \<forall>x \<in> set (prog t). fits m x)"

definition stock :: "(nat \<Rightarrow> client_call list) \<Rightarrow> nat \<Rightarrow> nat" where
  "stock prog x = (\<Sum>t\<in>users prog. count_list (numbers (prog t)) x)"

lemma books_reach:
  assumes "client_reach prog c es" and "uniform m prog"
  shows "owner_inv m prog c \<and> books_inv (books_of c es) \<and>
    copies (users prog) x (books_of c es) = stock prog x"
  using assms(1)
proof (induction rule: client_reach.induct)
  case client_init
  have "owns (clients_init prog) t = None" for t
    by (simp add: owns_def clients_init_def sys_init_def)
  moreover have "owner_inv m prog (clients_init prog)"
    by (simp add: owner_inv_def clients_init_def sys_init_def)
  ultimately show ?case
    by (simp add: books_inv_def books_of_def queued_def copies_def with_thread_def in_line_def stock_def)
      (simp add: clients_init_def)
next
  case (client_next c es d c')
  have fin: "finite (users prog)" and fit: "\<forall>t. \<forall>x \<in> set (prog t). fits m x"
    using assms(2) by (simp_all add: uniform_def)
  note inv = client_reach_inv [OF client_next.hyps(1) fin]
  have "owner_inv m prog c' \<and> (books_of c' (es @ d) = books_of c es \<or>
      books_step (users prog) (books_of c es) (books_of c' (es @ d)))"
    using client_step_books [OF client_next.hyps(2) _ _ fit] inv client_next.IH by blast
  then show ?case
    using client_next.IH books_step_inv books_step_copies [OF _ _ fin, where x = x] by metis
qed

text \<open>No thread ever uses an integer that is not alive, or frees one that it must not free.\<close>

lemma uniform_safe:
  assumes "client_reach prog c es" and "uniform m prog"
  shows "\<not> goes_wrong c t"
proof -
  have own: "owner_inv m prog c" and books: "books_inv (books_of c es)"
    using books_reach [OF assms] by blast+
  have rch: "reach readable (sy c) es"
    using client_reach_inv [OF assms(1)] assms(2) by (simp add: uniform_def)
  then obtain as ws where inv: "sys_inv (sy c) as ws" using reach_inv by blast
  have alive: "owns c u = Some p \<Longrightarrow> cells c p \<noteq> None"
      "p \<in> set (queued es) \<Longrightarrow> cells c p \<noteq> None" for u p
    using books unfolding books_inv_def books_of_def by simp_all
  have held: "held c u \<noteq> None \<Longrightarrow> pcs (sy c) u = Idle" for u
    using own unfolding owner_inv_def by blast
  have "\<forall>a \<in> set as. live c (value_at (qu (sy c)) a)"
    using alive(2) queued_eq(1) [OF rch inv] by (simp add: live_def)
  moreover have "\<forall>u a v. pcs (sy c) u = EnqBody a v \<longrightarrow> live c v"
  proof (intro allI impI)
    fix u a v assume pc: "pcs (sy c) u = EnqBody a v"
    then have "owns c u = Some v" using held [of u] by (cases "held c u") (simp_all add: owns_def)
    then show "live c v" using alive(1) by (simp add: live_def)
  qed
  ultimately have "advance (live c) t (sy c) = None \<or> (\<exists>e s'. advance (live c) t (sy c) = Some (Ok (e, s')))"
    by (rule advance_runs [OF inv])
  moreover have "\<exists>st v. cells c p = Some (st, v) \<and> (how c t = Print \<or> st \<noteq> Local)"
    if p: "held c t = Some p" for p
  proof -
    have "owns c t = Some p" using p by (simp add: owns_def)
    then obtain st v where cl: "cells c p = Some (st, v)" using alive(1) [of t p] by auto
    moreover have "st = m" "how c t = Print \<longleftrightarrow> m = Local"
      using own cl p unfolding owner_inv_def by blast+
    ultimately show ?thesis by auto
  qed
  ultimately show ?thesis
    by (cases "held c t") (auto simp: goes_wrong_def)
qed

text \<open>When all is done, every number that was enqueued has been found once, and no memory is left.\<close>

lemma uniform_end:
  assumes "client_reach prog c es" and "uniform m prog"
    and "\<forall>t. pcs (sy c) t = Idle \<and> held c t = None \<and> todo c t = []" and "gets es = puts es"
  shows "count_list (map snd (taken c)) x = stock prog x" and "cells c p \<noteq> Some (Malloc, v)"
proof -
  have books: "books_inv (books_of c es)" and copies: "copies (users prog) x (books_of c es) = stock prog x"
    using books_reach [OF assms(1,2)] by blast+
  have none: "owns c t = None" for t using assms(3) by (simp add: owns_def)
  moreover have line: "queued es = []" using assms(4) by (simp add: queued_def)
  ultimately show "count_list (map snd (taken c)) x = stock prog x"
    using copies assms(3) by (simp add: copies_def with_thread_def in_line_def books_of_def)
  show "cells c p \<noteq> Some (Malloc, v)"
    using books none line by (auto simp: books_inv_def books_of_def)
qed

end
