(* ===== verification/Queue_Tests.thy ===== *)
theory Queue_Tests
  imports Queue_Cells
begin

text \<open>
  The test programs \<open>hw4/test_queue.c\<close> and \<open>hw4/test2.c\<close>: the functions their threads run, and which
  threads each test starts. Thread 0 is the thread of \<open>main\<close> itself. Sleeps and the order in which
  threads are started are left open: the theorems hold for every interleaving. The values of the
  items are those the programs store in them; each test either allocates all its items and frees them
  in its consumers, or passes variables of \<open>main\<close>, which nobody frees.
\<close>

section \<open>test\_queue.c\<close>

definition NUM_THREADS :: nat where "NUM_THREADS = 10"
definition NUM_ITEMS :: nat where "NUM_ITEMS = 1000"

definition producer_thread :: "client_call list" where
  "producer_thread = map (Enq Malloc) [0..<NUM_ITEMS]"

definition consumer_thread :: "client_call list" where
  "consumer_thread = replicate NUM_ITEMS (Deq PrintFree)"

definition try_consumer_thread :: "client_call list" where
  "try_consumer_thread = replicate NUM_ITEMS (TryLoop PrintFree)"

definition mixed_thread :: "client_call list" where
  "mixed_thread = concat (map (\<lambda>i. [Enq Malloc i, Deq PrintFree]) [0..<NUM_ITEMS div 2])"

definition limited_consumer_thread :: "nat \<Rightarrow> client_call list" where
  "limited_consumer_thread max_items = replicate max_items (Deq PrintFree)"

definition basic_test :: "nat \<Rightarrow> client_call list" where
  "basic_test t = (if t = 1 then producer_thread else if t = 2 then consumer_thread else [])"

text \<open>Threads 1 to 10 produce, threads 11 to 20 consume.\<close>

definition producers_and :: "client_call list \<Rightarrow> nat \<Rightarrow> client_call list" where
  "producers_and consumer t =
     (if 1 \<le> t \<and> t \<le> NUM_THREADS then producer_thread
      else if NUM_THREADS < t \<and> t \<le> 2 * NUM_THREADS then consumer else [])"

definition concurrent_test :: "nat \<Rightarrow> client_call list" where
  "concurrent_test = producers_and consumer_thread"

definition try_dequeue_test :: "nat \<Rightarrow> client_call list" where
  "try_dequeue_test = producers_and try_consumer_thread"

definition mixed_operations_test :: "nat \<Rightarrow> client_call list" where
  "mixed_operations_test t = (if 1 \<le> t \<and> t \<le> NUM_THREADS then mixed_thread else [])"

definition edge_case_test :: "nat \<Rightarrow> client_call list" where
  "edge_case_test t = (if t = 0 then [Enq Malloc 42] else if t = 1 then limited_consumer_thread 1 else [])"

text \<open>The tests that \<open>main\<close> runs, one after the other, each with a queue of its own.\<close>

definition test_queue_main :: "(nat \<Rightarrow> client_call list) list" where
  "test_queue_main =
     [basic_test, concurrent_test, try_dequeue_test, mixed_operations_test, edge_case_test]"

section \<open>test2.c\<close>

definition NUM_THREADS_CONC :: nat where "NUM_THREADS_CONC = 100"

definition enqueueItems :: "nat \<Rightarrow> client_call list" where
  "enqueueItems numItems = map (\<lambda>i. Enq Malloc (i + 1)) [0..<numItems]"

definition dequeue_with_wait :: "client_call list" where
  "dequeue_with_wait = [TryLoop Print]"

definition dequeue_with_sleep :: "client_call list" where
  "dequeue_with_sleep = [Deq Print]"

text \<open>The item of an \<open>enqueue_thread\<close> is the number of that thread.\<close>

definition enqueue_thread :: "nat \<Rightarrow> client_call list" where
  "enqueue_thread t = [Enq Malloc t]"

definition dequeue_thread :: "client_call list" where
  "dequeue_thread = [Deq Free]"

text \<open>\<open>main\<close> enqueues three items, and three threads loop with \<open>tryDequeue\<close>.\<close>

definition test_waiting :: "nat \<Rightarrow> client_call list" where
  "test_waiting t = (if t = 0 then map (Enq Local) [1, 2, 3] else if t \<le> 3 then dequeue_with_wait else [])"

definition test_basic_concurrent_enqueue_dequeue :: "nat \<Rightarrow> client_call list" where
  "test_basic_concurrent_enqueue_dequeue t =
     (let numItems = 100; half = numItems div 2
      in if t = 0 then replicate numItems (Deq PrintFree) else if t \<le> 2 then enqueueItems half else [])"

definition test_enqueue_dequeue_with_sleep :: "nat \<Rightarrow> client_call list" where
  "test_enqueue_dequeue_with_sleep t =
     (if t = 0 then map (Enq Local) [1, 2, 3] else if t \<le> 3 then dequeue_with_sleep else [])"

definition test_multiconcurrent_enqueue_dequeue :: "nat \<Rightarrow> client_call list" where
  "test_multiconcurrent_enqueue_dequeue t =
     (if 1 \<le> t \<and> t \<le> NUM_THREADS_CONC then dequeue_thread
      else if NUM_THREADS_CONC < t \<and> t \<le> 2 * NUM_THREADS_CONC then enqueue_thread t else [])"

text \<open>
  The FIFO order test, which \<open>main\<close> has in a comment: consumer \<open>i\<close> is thread \<open>i + 1\<close> and stores the number
  it finds in \<open>dequeue_order[i]\<close>; the producer is the thread after them.
\<close>

definition NUM_THREADS_FIFO :: nat where "NUM_THREADS_FIFO = 50"

definition fifo_consumer_thread :: "client_call list" where
  "fifo_consumer_thread = [Deq PrintFree]"

definition fifo_producer_thread :: "client_call list" where
  "fifo_producer_thread = map (\<lambda>i. Enq Malloc (i + 1)) [0..<NUM_THREADS_FIFO]"

definition test_fifo_order :: "nat \<Rightarrow> client_call list" where
  "test_fifo_order t =
     (if 1 \<le> t \<and> t \<le> NUM_THREADS_FIFO then fifo_consumer_thread
      else if t = NUM_THREADS_FIFO + 1 then fifo_producer_thread else [])"

definition dequeue_order :: "clients \<Rightarrow> nat \<Rightarrow> int" where
  "dequeue_order c i = (case map_of (taken c) (i + 1) of None \<Rightarrow> -1 | Some v \<Rightarrow> int v)"

definition threaded_tests :: "(nat \<Rightarrow> client_call list) list" where
  "threaded_tests =
     test_queue_main @
     [test_waiting, test_basic_concurrent_enqueue_dequeue, test_enqueue_dequeue_with_sleep,
      test_multiconcurrent_enqueue_dequeue, test_fifo_order]"

section \<open>The tests come to their end\<close>

lemma enqs_map [simp]:
  "enqs (map (\<lambda>i. Enq st (f i)) xs) = length xs" "deqs (map (\<lambda>i. Enq st (f i)) xs) = 0"
  by (induction xs) auto

lemma enqs_map_all [simp]: "enqs (map (Enq st) xs) = length xs" "deqs (map (Enq st) xs) = 0"
  by (induction xs) auto

lemma calls_replicate [simp]:
  "enqs (replicate n (Deq u)) = 0" "deqs (replicate n (Deq u)) = n"
  "enqs (replicate n (TryLoop u)) = 0" "deqs (replicate n (TryLoop u)) = n"
  by (induction n) auto

lemma no_enq_after:
  assumes "\<forall>x \<in> set p. \<not> is_enq x" and "p = ds @ x # cs"
  shows "enqs cs \<le> deqs cs"
proof -
  have "\<forall>x \<in> set cs. \<not> is_enq x" using assms by simp
  then have "enqs cs = 0" by (induction cs rule: enqs.induct) auto
  then show ?thesis by simp
qed

lemma mixed_after:
  "concat (map (\<lambda>i. [Enq st i, Deq u]) xs) = ds @ x # cs \<Longrightarrow> \<not> is_enq x \<Longrightarrow> enqs cs \<le> deqs cs"
proof (induction xs arbitrary: ds)
  case (Cons y ys)
  have same: "enqs (concat (map (\<lambda>i. [Enq st i, Deq u]) ys)) = deqs (concat (map (\<lambda>i. [Enq st i, Deq u]) ys))"
    by (induction ys) auto
  show ?case
  proof (cases ds)
    case (Cons d ds')
    then show ?thesis using Cons.prems Cons.IH same by (cases ds') auto
  qed (use Cons.prems in auto)
qed simp

definition no_surplus :: "client_call list \<Rightarrow> bool" where
  "no_surplus p \<longleftrightarrow> (\<forall>ds x cs. p = ds @ x # cs \<longrightarrow> \<not> is_enq x \<longrightarrow> enqs cs \<le> deqs cs)"

lemma no_surplus_intros [simp]:
  "\<forall>x \<in> set p. is_enq x \<Longrightarrow> no_surplus p"
  "\<forall>x \<in> set p. \<not> is_enq x \<Longrightarrow> no_surplus p"
  "no_surplus (concat (map (\<lambda>i. [Enq st i, Deq u]) xs))"
  using no_enq_after mixed_after by (fastforce simp: no_surplus_def)+

text \<open>Two groups of threads, of which each thread puts in \<open>a\<close>, and takes out \<open>b\<close>, items.\<close>

lemma two_groups:
  assumes fin: "finite A" "finite B" and disj: "A \<inter> B = {}"
    and prog: "\<And>t. prog t = (if t \<in> A then p t else if t \<in> B then q t else [])"
    and p: "\<And>t. t \<in> A \<Longrightarrow> enqs (p t) = a \<and> deqs (p t) = b \<and> no_surplus (p t)"
    and q: "\<And>t. t \<in> B \<Longrightarrow> enqs (q t) = a' \<and> deqs (q t) = b' \<and> no_surplus (q t)"
    and total: "card A * a + card B * a' = n" "card A * b + card B * b' = n"
  shows "balanced prog \<and> (\<Sum>t\<in>users prog. enqs (prog t)) = n \<and> (\<Sum>t\<in>users prog. deqs (prog t)) = n"
proof -
  have T: "finite (A \<union> B)" "users prog \<subseteq> A \<union> B"
    using fin prog by (auto simp: users_def split: if_splits)
  have sum: "(\<Sum>t\<in>users prog. f (prog t)) = card A * k + card B * k'"
    if f: "f [] = (0 :: nat)" "\<And>t. t \<in> A \<Longrightarrow> f (p t) = k" "\<And>t. t \<in> B \<Longrightarrow> f (q t) = k'" for f k k'
  proof -
    have "(\<Sum>t\<in>users prog. f (prog t)) = (\<Sum>t\<in>A \<union> B. f (prog t))"
      using T f(1) by (intro sum.mono_neutral_left) (auto simp: users_def)
    also have "\<dots> = (\<Sum>t\<in>A. f (prog t)) + (\<Sum>t\<in>B. f (prog t))"
      using fin disj by (rule sum.union_disjoint)
    also have "(\<Sum>t\<in>A. f (prog t)) = card A * k" using f(2) prog by simp
    also have "(\<Sum>t\<in>B. f (prog t)) = (\<Sum>t\<in>B. k')" using f(3) prog disj by (intro sum.cong) auto
    finally show ?thesis by simp
  qed
  have "no_surplus (prog t)" for t
    using p [of t] q [of t] no_surplus_intros(1) [of "[]"] by (simp add: prog)
  then have safe: "\<forall>t ds x cs. prog t = ds @ x # cs \<longrightarrow> \<not> is_enq x \<longrightarrow> enqs cs \<le> deqs cs"
    by (simp add: no_surplus_def)
  have "(\<Sum>t\<in>users prog. enqs (prog t)) = n" "(\<Sum>t\<in>users prog. deqs (prog t)) = n"
    using sum [of enqs a a'] sum [of deqs b b'] p q total by simp_all
  then show ?thesis using finite_subset [OF T(2,1)] safe by (simp add: balanced_def)
qed

definition total :: "(nat \<Rightarrow> client_call list) \<Rightarrow> nat \<Rightarrow> bool" where
  "total prog n \<longleftrightarrow> balanced prog \<and> (\<Sum>t\<in>users prog. enqs (prog t)) = n \<and>
     (\<Sum>t\<in>users prog. deqs (prog t)) = n"

lemmas total_two_groups = two_groups [folded total_def]

lemma producer_calls:
  "enqs producer_thread = NUM_ITEMS \<and> deqs producer_thread = 0 \<and> no_surplus producer_thread"
  by (auto simp: producer_thread_def)

lemma replicate_calls:
  "x = Deq u \<or> x = TryLoop u \<Longrightarrow> enqs (replicate n x) = 0 \<and> deqs (replicate n x) = n \<and> no_surplus (replicate n x)"
  by (auto)

lemma mixed_calls:
  "enqs mixed_thread = NUM_ITEMS div 2 \<and> deqs mixed_thread = NUM_ITEMS div 2 \<and> no_surplus mixed_thread"
proof -
  have "enqs (concat (map (\<lambda>i. [Enq st i, Deq u]) xs)) = length xs \<and>
      deqs (concat (map (\<lambda>i. [Enq st i, Deq u]) xs)) = length xs"
    for st u and xs :: "nat list"
    by (induction xs) auto
  then show ?thesis by (simp add: mixed_thread_def)
qed

lemma basic_total: "total basic_test NUM_ITEMS"
  by (rule total_two_groups [where A = "{1}" and B = "{2}" and p = "\<lambda>_. producer_thread"
        and q = "\<lambda>_. consumer_thread" and a = NUM_ITEMS and b = 0 and a' = 0 and b' = NUM_ITEMS])
    (simp_all add: basic_test_def producer_calls replicate_calls consumer_thread_def)

lemma producers_total:
  assumes "enqs consumer = 0" and "deqs consumer = NUM_ITEMS" and "no_surplus consumer"
  shows "total (producers_and consumer) (NUM_THREADS * NUM_ITEMS)"
  by (rule total_two_groups [where A = "{1..NUM_THREADS}" and B = "{NUM_THREADS<..2 * NUM_THREADS}"
        and p = "\<lambda>_. producer_thread" and q = "\<lambda>_. consumer" and a = NUM_ITEMS and b = 0 and a' = 0
        and b' = NUM_ITEMS])
    (use assms in \<open>auto simp: producers_and_def producer_calls\<close>)

lemma concurrent_total: "total concurrent_test (NUM_THREADS * NUM_ITEMS)"
  unfolding concurrent_test_def consumer_thread_def
  using replicate_calls [of "Deq PrintFree" PrintFree] by (intro producers_total) simp_all

lemma try_total: "total try_dequeue_test (NUM_THREADS * NUM_ITEMS)"
  unfolding try_dequeue_test_def try_consumer_thread_def
  using replicate_calls [of "TryLoop PrintFree" PrintFree] by (intro producers_total) simp_all

lemma mixed_total: "total mixed_operations_test (NUM_THREADS * (NUM_ITEMS div 2))"
  by (rule total_two_groups [where A = "{1..NUM_THREADS}" and B = "{}" and p = "\<lambda>_. mixed_thread"
        and a = "NUM_ITEMS div 2" and b = "NUM_ITEMS div 2"])
    (auto simp: mixed_operations_test_def mixed_calls)

lemma edge_total: "total edge_case_test 1"
  by (rule total_two_groups [where A = "{0}" and B = "{1}" and p = "\<lambda>_. [Enq Malloc 42]"
        and q = "\<lambda>_. limited_consumer_thread 1" and a = 1 and b = 0 and a' = 0 and b' = 1])
    (auto simp: edge_case_test_def limited_consumer_thread_def)

lemma waiting_total: "total test_waiting 3"
  by (rule total_two_groups [where A = "{0}" and B = "{1, 2, 3}" and p = "\<lambda>_. map (Enq Local) [1, 2, 3]"
        and q = "\<lambda>_. [TryLoop Print]" and a = 3 and b = 0 and a' = 0 and b' = 1])
    (auto simp: test_waiting_def dequeue_with_wait_def)

lemma sleep_total: "total test_enqueue_dequeue_with_sleep 3"
  by (rule total_two_groups [where A = "{0}" and B = "{1, 2, 3}" and p = "\<lambda>_. map (Enq Local) [1, 2, 3]"
        and q = "\<lambda>_. [Deq Print]" and a = 3 and b = 0 and a' = 0 and b' = 1])
    (auto simp: test_enqueue_dequeue_with_sleep_def dequeue_with_sleep_def)

lemma basic_concurrent_total: "total test_basic_concurrent_enqueue_dequeue 100"
  by (rule total_two_groups [where A = "{0}" and B = "{1, 2}" and p = "\<lambda>_. replicate 100 (Deq PrintFree)"
        and q = "\<lambda>_. enqueueItems 50" and a = 0 and b = 100 and a' = 50 and b' = 0])
    (auto simp: test_basic_concurrent_enqueue_dequeue_def enqueueItems_def Let_def replicate_calls)

lemma multi_total: "total test_multiconcurrent_enqueue_dequeue NUM_THREADS_CONC"
  by (rule total_two_groups [where A = "{1..NUM_THREADS_CONC}" and B = "{NUM_THREADS_CONC<..2 * NUM_THREADS_CONC}"
        and p = "\<lambda>_. [Deq Free]" and q = "\<lambda>t. [Enq Malloc t]" and a = 0 and b = 1 and a' = 1 and b' = 0])
    (auto simp: test_multiconcurrent_enqueue_dequeue_def enqueue_thread_def dequeue_thread_def)

lemma fifo_total: "total test_fifo_order NUM_THREADS_FIFO"
  by (rule total_two_groups [where A = "{1..NUM_THREADS_FIFO}" and B = "{NUM_THREADS_FIFO + 1}"
        and p = "\<lambda>_. fifo_consumer_thread" and q = "\<lambda>_. fifo_producer_thread" and a = 0 and b = 1
        and a' = NUM_THREADS_FIFO and b' = 0])
    (auto simp: test_fifo_order_def fifo_consumer_thread_def fifo_producer_thread_def)

lemma threaded_test_total: "prog \<in> set threaded_tests \<Longrightarrow> \<exists>n. total prog n"
  using basic_total concurrent_total try_total mixed_total edge_total waiting_total
    basic_concurrent_total sleep_total multi_total fifo_total
  by (auto simp: threaded_tests_def test_queue_main_def)

text \<open>What the consumers of a test do with the items fits how its producers make them.\<close>

lemma fits_malloc:
  "x \<in> set producer_thread \<Longrightarrow> fits Malloc x" "x \<in> set consumer_thread \<Longrightarrow> fits Malloc x"
  "x \<in> set try_consumer_thread \<Longrightarrow> fits Malloc x" "x \<in> set mixed_thread \<Longrightarrow> fits Malloc x"
  "x \<in> set (limited_consumer_thread k) \<Longrightarrow> fits Malloc x" "x \<in> set (enqueueItems k) \<Longrightarrow> fits Malloc x"
  "x \<in> set (enqueue_thread k) \<Longrightarrow> fits Malloc x" "x \<in> set dequeue_thread \<Longrightarrow> fits Malloc x"
  "x \<in> set fifo_consumer_thread \<Longrightarrow> fits Malloc x" "x \<in> set fifo_producer_thread \<Longrightarrow> fits Malloc x"
  by (auto simp: producer_thread_def consumer_thread_def try_consumer_thread_def mixed_thread_def
      limited_consumer_thread_def enqueueItems_def enqueue_thread_def dequeue_thread_def
      fifo_consumer_thread_def fifo_producer_thread_def)

lemma threaded_test_uniform:
  assumes "prog \<in> set threaded_tests"
  shows "\<exists>m. uniform m prog"
proof -
  have "finite (users prog)"
    using threaded_test_total [OF assms] by (auto simp: total_def balanced_def)
  moreover have "\<exists>m. \<forall>t. \<forall>x \<in> set (prog t). fits m x"
  proof (cases "prog \<in> {test_waiting, test_enqueue_dequeue_with_sleep}")
    case True
    then have "\<forall>t. \<forall>x \<in> set (prog t). fits Local x"
      by (auto simp: test_waiting_def test_enqueue_dequeue_with_sleep_def
          dequeue_with_wait_def dequeue_with_sleep_def split: if_splits)
    then show ?thesis by blast
  next
    case False
    have "\<forall>t. \<forall>x \<in> set (prog t). fits Malloc x"
      using assms False
      by (auto simp: fits_malloc threaded_tests_def test_queue_main_def basic_test_def concurrent_test_def try_dequeue_test_def
          producers_and_def mixed_operations_test_def edge_case_test_def Let_def
          test_basic_concurrent_enqueue_dequeue_def test_multiconcurrent_enqueue_dequeue_def
          test_fifo_order_def split: if_splits)
    then show ?thesis by blast
  qed
  ultimately show ?thesis by (auto simp: uniform_def)
qed

text \<open>
  C14: Memory safety of the threaded tests: in no interleaving does a thread, in the queue or with an
  item it got from it, read an integer that has been freed, free one twice, or free a variable.
\<close>

theorem tests_are_safe:
  assumes "prog \<in> set threaded_tests" and "client_reach prog c es"
  shows "\<not> goes_wrong c t"
  using threaded_test_uniform [OF assms(1)] uniform_safe [OF assms(2)] by blast

text \<open>
  C3: The threaded tests cannot hang, and the checks behind them hold. Whatever the interleaving,
  when no thread can go on, every thread of the test has finished all its calls, what was
  dequeued is what was enqueued, in the same order, \<open>size\<close> and \<open>waiting\<close> are 0, \<open>visited\<close> is the number
  of items, and \<open>destroyQueue\<close> completes and leaves nothing on the heap. The consumers have found every
  number as often as the producers have enqueued it, and every integer from \<open>malloc\<close> has been freed.
\<close>

theorem tests_finish:
  assumes "prog \<in> set threaded_tests" and "client_reach prog c es" and "\<forall>t. blocked c t"
  shows "(\<forall>t. pcs (sy c) t = Idle \<and> todo c t = []) \<and> gets es = puts es \<and>
    size_of_queue (qu (sy c)) = 0 \<and> waiting (qu (sy c)) = 0 \<and>
    visited (qu (sy c)) = of_nat (length (puts es)) \<and>
    (\<exists>q. destroyQueue 1 (qu (sy c)) = Ok q \<and> items q = Map.empty) \<and>
    (\<forall>x. count_list (map snd (taken c)) x = stock prog x) \<and> (\<forall>p v. cells c p \<noteq> Some (Malloc, v))"
proof -
  obtain n where n: "total prog n" using threaded_test_total [OF assms(1)] by blast
  note e = clients_end [OF assms(2) _ assms(3)]
  have fin: "\<forall>t. pcs (sy c) t = Idle \<and> todo c t = []" "reach readable (sy c) es"
      "length (puts es) = n" "length (gets es) = n"
    using e n by (simp_all add: total_def)
  obtain as ws where inv: "sys_inv (sy c) as ws" using reach_inv [OF fin(2)] by blast
  have eq: "puts es = gets es @ map (value_at (qu (sy c))) as" using reach_fifo [OF fin(2) inv] .
  then have "as = []" using fin(3,4) by simp
  then have same: "gets es = puts es" "count (qu (sy c)) = 0"
    using eq inv by (simp_all add: sys_inv_def queue_inv_def holds_items_def)
  have "t \<notin> set ws" for t
    using inv fin(1) by (auto simp: sys_inv_def wait_inv_def in_wait_def)
  then have "ws = []" by (cases ws) auto
  then have "waitingCount (qu (sy c)) = 0"
    using inv by (simp add: sys_inv_def queue_inv_def waits_def)
  moreover have "visited (qu (sy c)) = of_nat (length (gets es))"
    using counters_state [OF fin(2)] by blast
  moreover have "\<exists>q. destroyQueue 1 (qu (sy c)) = Ok q \<and> items q = Map.empty"
    using destroy_all_idle [OF fin(2), of 1] fin(1) same(1) by auto
  moreover obtain m where m: "uniform m prog" using threaded_test_uniform [OF assms(1)] by blast
  have "\<forall>t. pcs (sy c) t = Idle \<and> held c t = None \<and> todo c t = []"
    using fin(1) assms(3) by (simp add: blocked_def)
  note e = uniform_end [OF assms(2) m this same(1)]
  ultimately show ?thesis
    using fin(1) same e by (simp add: size_of_queue_def waiting_def)
qed

section \<open>A run of a test\<close>

text \<open>
  \<open>(t, Some (a, p))\<close>: the thread starts its next call, \<open>malloc\<close> returns \<open>p\<close> for the integer and \<open>a\<close> for the
  item of the queue; \<open>(t, None)\<close>: it goes on in its call, or uses what it has got.
\<close>

definition client_act :: "nat \<times> (nat \<times> nat) option \<Rightarrow> clients \<Rightarrow> (nat queue_op list \<times> clients) option" where
  "client_act = (\<lambda>(t, x) c. case x of
     Some (a, p) \<Rightarrow> (if held c t \<noteq> None then None else case todo c t of
         [] \<Rightarrow> None
       | Enq st v # cs \<Rightarrow> if cells c p \<noteq> None then None else
           map_option (\<lambda>(e, s). ([e], c\<lparr>sy := s, todo := (todo c)(t := cs),
             cells := (cells c)(p \<mapsto> (st, v))\<rparr>)) (act (live c) (t, CallEnqueue a p) (sy c))
       | Deq u # cs \<Rightarrow> map_option (\<lambda>(e, s). ([e], c\<lparr>sy := s, todo := (todo c)(t := cs),
             how := (how c)(t := u)\<rparr>)) (act (live c) (t, CallDequeue) (sy c))
       | TryLoop u # cs \<Rightarrow> map_option (\<lambda>(e, s). ([e], c\<lparr>sy := s, how := (how c)(t := u)\<rparr>))
           (act (live c) (t, CallTry) (sy c)))
   | None \<Rightarrow> (case held c t of
         Some p \<Rightarrow> (case cells c p of
             Some (st, v) \<Rightarrow> if how c t = Print \<or> st = Malloc
               then Some ([], c\<lparr>cells := (if how c t = Print then cells c else (cells c)(p := None)),
                 held := (held c)(t := None), taken := taken c @ [(t, v)]\<rparr>)
               else None
           | None \<Rightarrow> None)
       | None \<Rightarrow> map_option (\<lambda>(e, s). ([e], c\<lparr>sy := s,
           todo := (if pcs (sy c) t = TryBody \<and> e \<noteq> Other then (todo c)(t := tl (todo c t)) else todo c),
           held := handed c t\<rparr>)) (act (live c) (t, Go) (sy c))))"

lemma client_act_step:
  assumes "client_act x c = Some (d, c')" shows "client_step c d c'"
proof -
  obtain t y where x: "x = (t, y)" by (cases x)
  show ?thesis
  proof (cases y)
    case (Some ap)
    then show ?thesis using assms x
      by (auto simp: client_act_def simp del: not_None_eq not_Some_eq
          split: list.splits client_call.splits if_splits prod.splits
          intro: client_step.intros(1-3))
  next
    case None
    show ?thesis
    proof (cases "held c t")
      case (Some p)
      then obtain st v where "cells c p = Some (st, v)" "how c t = Print \<or> st = Malloc"
        using assms x None by (auto simp: client_act_def split: option.splits if_splits)
      then show ?thesis
        using assms x None Some client_step.use_item [OF Some, of st v] by (simp add: client_act_def)
    next
      case no: None
      obtain e s where "act (live c) (t, Go) (sy c) = Some (e, s)"
        using assms x None no by (auto simp: client_act_def)
      then show ?thesis using assms x None no client_step.go_on [of c t e s] by (simp add: client_act_def)
    qed
  qed
qed

fun client_acts :: "(nat \<times> (nat \<times> nat) option) list \<Rightarrow> clients \<Rightarrow> (nat queue_op list \<times> clients) option" where
  "client_acts [] c = Some ([], c)"
| "client_acts (x # xs) c =
     (case client_act x c of None \<Rightarrow> None
      | Some (d, c1) \<Rightarrow> (case client_acts xs c1 of None \<Rightarrow> None | Some (es, c2) \<Rightarrow> Some (d @ es, c2)))"

lemma client_acts_reach:
  "client_reach prog c es \<Longrightarrow> client_acts xs c = Some (es', c') \<Longrightarrow> client_reach prog c' (es @ es')"
proof (induction xs arbitrary: c es es')
  case (Cons x xs)
  obtain d c1 where x: "client_act x c = Some (d, c1)"
    using Cons.prems(2) by (cases "client_act x c") auto
  then obtain es2 where xs: "client_acts xs c1 = Some (es2, c')" "es' = d @ es2"
    using Cons.prems(2) by (auto split: option.splits)
  have "client_reach prog c1 (es @ d)"
    using Cons.prems(1) client_act_step [OF x] by (rule client_reach.client_next)
  then show ?case using Cons.IH [OF _ xs(1)] xs(2) by fastforce
qed simp

text \<open>None of these steps is a wake-up without a signal.\<close>

lemma client_act_calm:
  assumes "client_act x c = Some (d, c')" shows "\<not> wakes c d c'"
proof -
  obtain t y where x: "x = (t, y)" by (cases x)
  show ?thesis
  proof (cases y)
    case (Some ap)
    then obtain f e s where "act (live c) (t, f) (sy c) = Some (e, s)" "sy c' = s" "d = [e]"
        "f = CallDequeue \<or> f = CallTry \<or> (\<exists>a p. f = CallEnqueue a p)"
      using assms x
      by (auto simp: client_act_def simp del: not_None_eq not_Some_eq
          split: list.splits client_call.splits if_splits prod.splits)
    then show ?thesis
      using act_call(1-3) [of "live c" t] by (fastforce simp: wakes_def split: if_splits)
  next
    case None
    show ?thesis
    proof (cases "held c t")
      case (Some p)
      then have "d = []"
        using assms x None by (auto simp: client_act_def split: option.splits if_splits)
      then show ?thesis by (simp add: wakes_def)
    next
      case no: None
      obtain e s where "act (live c) (t, Go) (sy c) = Some (e, s)" "d = [e]" "sy c' = s"
        using assms x None no by (auto simp: client_act_def)
      then show ?thesis using go_no_wake by blast
    qed
  qed
qed

lemma client_acts_quiet: "client_acts xs c = Some (es, c') \<Longrightarrow> quiet c c'"
proof (induction xs arbitrary: c es)
  case (Cons x xs)
  obtain d c1 where x: "client_act x c = Some (d, c1)"
    using Cons.prems by (cases "client_act x c") auto
  then obtain es2 where xs: "client_acts xs c1 = Some (es2, c')"
    using Cons.prems by (auto split: option.splits)
  show ?case
    using quiet_next [OF client_act_step [OF x] client_act_calm [OF x] Cons.IH [OF xs]] .
qed (simp add: quiet_refl)

text \<open>The consumer of the edge case sleeps before the item comes.\<close>

definition edge_case_run :: "(nat \<times> (nat \<times> nat) option) list" where
  "edge_case_run =
     [(1, Some (0, 0)), (1, None), (1, None), (1, None),
      (0, Some (16, 80)), (0, None), (0, None), (0, None),
      (1, None), (1, None), (1, None), (1, None), (1, None)]"

lemma edge_case_run_ends:
  "\<exists>c es. client_acts edge_case_run (clients_init edge_case_test) = Some (es, c) \<and>
     (\<forall>t. blocked c t) \<and> puts es = [80]"
  by (simp add: edge_case_run_def client_act_def edge_case_test_def limited_consumer_thread_def
      blocked_def clients_init_def handed_def live_def evaluate)

theorem tests_finish_witness:
  "\<exists>c es. client_acts edge_case_run (clients_init edge_case_test) = Some (es, c) \<and>
     gets es = [80] \<and> visited (qu (sy c)) = 1 \<and> (\<forall>p v. cells c p \<noteq> Some (Malloc, v))"
proof -
  obtain c es where c: "client_acts edge_case_run (clients_init edge_case_test) = Some (es, c)"
      "\<forall>t. blocked c t" "puts es = [80]"
    using edge_case_run_ends by metis
  have "client_reach edge_case_test c es"
    using client_acts_reach [OF client_reach.client_init c(1)] by simp
  moreover have "edge_case_test \<in> set threaded_tests" by (simp add: threaded_tests_def test_queue_main_def)
  ultimately show ?thesis using tests_finish [of edge_case_test c es] c by auto
qed

theorem tests_are_safe_witness: "\<not> goes_wrong (clients_init edge_case_test) 0"
  by (rule tests_are_safe [OF _ client_reach.client_init]) (simp add: threaded_tests_def test_queue_main_def)

section \<open>The order of the consumers\<close>

text \<open>
  Threads \<open>t\<close> and \<open>u\<close>, two consumers, go to sleep one after the other; then the producer enqueues two
  items and signals both, and \<open>u\<close> is the first to get the mutex back.
\<close>

definition consumers_sleep :: "nat \<Rightarrow> nat \<Rightarrow> (nat \<times> (nat \<times> nat) option) list" where
  "consumers_sleep t u =
     [(t, Some (0, 0)), (t, None), (t, None), (t, None),
      (u, Some (0, 0)), (u, None), (u, None), (u, None)]"

definition second_takes :: "nat \<Rightarrow> (nat \<times> (nat \<times> nat) option) list" where
  "second_takes u =
     [(51, Some (16, 80)), (51, None), (51, None), (51, None),
      (51, Some (17, 84)), (51, None), (51, None), (51, None),
      (u, None), (u, None), (u, None), (u, None), (u, None)]"

lemma fifo_todo: "test_fifo_order 51 = Enq Malloc 1 # Enq Malloc 2 # map (\<lambda>i. Enq Malloc (i + 1)) [2..<50]"
  "i < 50 \<Longrightarrow> test_fifo_order (Suc i) = [Deq PrintFree]"
proof -
  have "[0..<50] = (0::nat) # 1 # [2..<50]" by (simp add: upt_rec_numeral upt_conv_Cons)
  then show "test_fifo_order 51 = Enq Malloc 1 # Enq Malloc 2 # map (\<lambda>i. Enq Malloc (i + 1)) [2..<50]"
    unfolding test_fifo_order_def NUM_THREADS_FIFO_def fifo_producer_thread_def by simp
qed (simp_all add: test_fifo_order_def NUM_THREADS_FIFO_def fifo_consumer_thread_def)

lemma fifo_run_ends:
  assumes "i < j" and "j < 50"
  shows "\<exists>c0 es0 c es. client_acts (consumers_sleep (Suc i) (Suc j)) (clients_init test_fifo_order) = Some (es0, c0) \<and>
    waits (qu (sy c0)) [Suc i, Suc j] \<and> pcs (sy c0) (Suc i) = DeqSleep \<and> pcs (sy c0) (Suc j) = DeqSleep \<and>
    puts es0 = [] \<and> client_acts (second_takes (Suc j)) c0 = Some (es, c) \<and>
    dequeue_order c j = 1 \<and> finished c (Suc j) \<and> dequeue_order c i = -1 \<and> pcs (sy c) (Suc i) = DeqRelock"
proof -
  have ne: "Suc i \<noteq> Suc j" "Suc j \<noteq> Suc i" "Suc i \<noteq> 51" "Suc j \<noteq> 51" "51 \<noteq> Suc i" "51 \<noteq> Suc j" "i < 50"
      "i \<noteq> 50" "j \<noteq> 50" "i \<noteq> j" "j \<noteq> i"
    using assms by linarith+
  show ?thesis
    by (simp add: consumers_sleep_def second_takes_def client_act_def fifo_todo ne assms dequeue_order_def
        clients_init_def handed_def live_def finished_def waits_def last_ptr_def evaluate)
qed

text \<open>
  C40: The FIFO order test, which the authors have taken out of \<open>main\<close>, can fail although the queue keeps
  the consumers in order and no wake-up comes without a signal. Take any two of its consumers \<open>i < j\<close>: there is
  a run in which both sleep, consumer \<open>i\<close> being first in the queue's waiting list and nothing enqueued
  yet, and which goes on so that consumer \<open>j\<close> finishes with item 1 in \<open>dequeue_order[j]\<close>, where the test
  asserts \<open>j + 1\<close>, while consumer \<open>i\<close>, who has been signalled, still has no item.
\<close>

theorem fifo_test_can_fail:
  assumes "i < j" and "j < NUM_THREADS_FIFO"
  shows "\<exists>c0 es0 c. client_reach test_fifo_order c0 es0 \<and>
     waits (qu (sy c0)) [i + 1, j + 1] \<and>
     pcs (sy c0) (i + 1) = DeqSleep \<and> pcs (sy c0) (j + 1) = DeqSleep \<and> puts es0 = [] \<and>
     quiet c0 c \<and> dequeue_order c j = 1 \<and> finished c (j + 1) \<and>
     dequeue_order c i = -1 \<and> pcs (sy c) (i + 1) = DeqRelock"
proof -
  have "j < 50" using assms(2) by (simp add: NUM_THREADS_FIFO_def)
  from fifo_run_ends [OF assms(1) this] show ?thesis
    using client_acts_reach [OF client_reach.client_init] client_acts_quiet by fastforce
qed

theorem fifo_test_can_fail_witness:
  "\<exists>c0 es0 c. client_reach test_fifo_order c0 es0 \<and> waits (qu (sy c0)) [1, 2] \<and> puts es0 = [] \<and>
     quiet c0 c \<and> dequeue_order c 1 = 1 \<and> finished c 2 \<and> dequeue_order c 0 = -1"
  using fifo_test_can_fail [of 0 1] by (fastforce simp: NUM_THREADS_FIFO_def numeral_2_eq_2)

end
