(* ===== verification/Queue_Single.thy ===== *)
theory Queue_Single
  imports Queue_Tests
begin

text \<open>
  The tests of \<open>hw4/test2.c\<close> that use the queue from one thread, statement by statement. The mutex
  is free whenever they call, so a call is the code between \<open>mtx_lock\<close> and \<open>mtx_unlock\<close>. A
  \<open>dequeue\<close> from the empty queue would wait forever. The integers live on the stack of the test:
  \<open>st i\<close> is the address of the \<open>i\<close>-th one and \<open>val i\<close> its value; \<open>fresh\<close> is \<open>malloc\<close>.
\<close>

section \<open>Calls from one thread\<close>

record single =
  qs :: queue
  item_ptr :: nat

definition init_queue :: "single \<Rightarrow> single run" where
  "init_queue s = Ok (s\<lparr>qs := initQueue (qs s)\<rparr>)"

definition enqueue :: "(queue \<Rightarrow> nat) \<Rightarrow> nat \<Rightarrow> single \<Rightarrow> single run" where
  "enqueue fresh v s =
     (let a = fresh (qs s) in
      bindR (enqueue_new a v (qs s)) (\<lambda>q. bindR (enqueue_locked readable a v q) (\<lambda>(w, q').
        Ok (s\<lparr>qs := q'\<rparr>))))"

definition dequeue :: "single \<Rightarrow> single run" where
  "dequeue s =
     (if count (qs s) = 0 then Fault OutOfFuel
      else bindR (take_first readable (qs s)) (\<lambda>(v, q). Ok (s\<lparr>qs := q, item_ptr := v\<rparr>)))"

definition try_dequeue :: "single \<Rightarrow> (bool \<times> single) run" where
  "try_dequeue s = bindR (tryDequeue_locked readable (qs s)) (\<lambda>(r, q). case r of
     None \<Rightarrow> Ok (False, s\<lparr>qs := q\<rparr>)
   | Some v \<Rightarrow> Ok (True, s\<lparr>qs := q, item_ptr := v\<rparr>))"

definition destroy_queue :: "nat \<Rightarrow> single \<Rightarrow> single run" where
  "destroy_queue n s = bindR (destroyQueue n (qs s)) (\<lambda>q. Ok (s\<lparr>qs := q\<rparr>))"

text \<open>\<open>assert\<close>\<close>

definition check :: "(single \<Rightarrow> bool) \<Rightarrow> single \<Rightarrow> single run" where
  "check p s = (if p s then Ok s else Fault AssertFail)"

definition check_try :: "bool \<Rightarrow> single \<Rightarrow> single run" where
  "check_try b s = bindR (try_dequeue s) (\<lambda>(r, s'). if r = b then Ok s' else Fault AssertFail)"

text \<open>\<open>printf\<close> of the integer behind the pointer, which has to be there; \<open>mem\<close> is the memory.\<close>

definition print_item :: "(nat \<Rightarrow> int option) \<Rightarrow> single \<Rightarrow> single run" where
  "print_item mem s = (if mem (item_ptr s) = None then Fault Dangling else Ok s)"

text \<open>\<open>if (tryDequeue(&item)) printf(\<dots>)\<close>\<close>

definition just_try :: "(nat \<Rightarrow> int option) \<Rightarrow> single \<Rightarrow> single run" where
  "just_try mem s = bindR (try_dequeue s) (\<lambda>(r, s'). if r then print_item mem s' else Ok s')"

text \<open>\<open>assert(*item == items[i])\<close>: the value behind the pointer is read from the stack.\<close>

definition item_is :: "(nat \<Rightarrow> int option) \<Rightarrow> int \<Rightarrow> single \<Rightarrow> bool" where
  "item_is mem x s \<longleftrightarrow> mem (item_ptr s) = Some x"

section \<open>The tests\<close>

definition test_destroyQueue :: "single \<Rightarrow> single run" where
  "test_destroyQueue = block [init_queue, destroy_queue 1]"

definition test_enqueue_dequeue ::
    "(queue \<Rightarrow> nat) \<Rightarrow> (nat \<Rightarrow> nat) \<Rightarrow> (nat \<Rightarrow> int option) \<Rightarrow> single \<Rightarrow> single run" where
  "test_enqueue_dequeue fresh st mem =
     block ([init_queue] @ map (\<lambda>i. enqueue fresh (st i)) [0..<5] @
       concat (map (\<lambda>i. [dequeue, check (item_is mem (int i + 1))]) [0..<5]) @
       [check (\<lambda>s. size_of_queue (qs s) = 0), destroy_queue 1])"

definition test_tryDequeue ::
    "(queue \<Rightarrow> nat) \<Rightarrow> (nat \<Rightarrow> nat) \<Rightarrow> (nat \<Rightarrow> int option) \<Rightarrow> single \<Rightarrow> single run" where
  "test_tryDequeue fresh st mem =
     block ([init_queue, check_try False] @ map (\<lambda>i. enqueue fresh (st i)) [0..<5] @
       concat (map (\<lambda>i. [check_try True, check (item_is mem (int i + 1))]) [0..<5]) @
       [check (\<lambda>s. size_of_queue (qs s) = 0), destroy_queue 1])"

definition test_size :: "(queue \<Rightarrow> nat) \<Rightarrow> (nat \<Rightarrow> nat) \<Rightarrow> single \<Rightarrow> single run" where
  "test_size fresh st =
     block ([init_queue] @ map (\<lambda>i. enqueue fresh (st i)) [0..<3] @
       [check (\<lambda>s. size_of_queue (qs s) = 3), destroy_queue 4])"

definition test_enqueue_tryDequeue ::
    "(queue \<Rightarrow> nat) \<Rightarrow> (nat \<Rightarrow> nat) \<Rightarrow> (nat \<Rightarrow> int option) \<Rightarrow> single \<Rightarrow> single run" where
  "test_enqueue_tryDequeue fresh st mem =
     block [init_queue, enqueue fresh (st 0), enqueue fresh (st 1), enqueue fresh (st 2),
       check_try True, check (item_is mem 1), check_try True, check (item_is mem 2),
       check_try True, check (item_is mem 3), check_try False, destroy_queue 1]"

definition test_edge_cases :: "single \<Rightarrow> single run" where
  "test_edge_cases = block [init_queue, destroy_queue 1]"

text \<open>The last loop of the mixed operations, \<open>while (size() > 0)\<close>, cut off after \<open>n\<close> rounds.\<close>

fun drain :: "(nat \<Rightarrow> int option) \<Rightarrow> nat \<Rightarrow> single \<Rightarrow> single run" where
  "drain mem 0 s = Fault OutOfFuel"
| "drain mem (Suc n) s =
     (if size_of_queue (qs s) > 0
      then bindR (dequeue s) (\<lambda>t. bindR (print_item mem t) (drain mem n)) else Ok s)"

definition test_mixed_operations ::
    "(queue \<Rightarrow> nat) \<Rightarrow> (nat \<Rightarrow> nat) \<Rightarrow> (nat \<Rightarrow> int option) \<Rightarrow> single \<Rightarrow> single run" where
  "test_mixed_operations fresh st mem =
     block [init_queue, enqueue fresh (st 0), just_try mem, enqueue fresh (st 1), enqueue fresh (st 2),
       dequeue, print_item mem, enqueue fresh (st 3), just_try mem, just_try mem, just_try mem,
       enqueue fresh (st 4), enqueue fresh (st 5), drain mem 3, destroy_queue 1]"

text \<open>\<open>main\<close> of \<open>test2.c\<close>: tests of one thread, and threaded ones with a queue of their own.\<close>

datatype test_run = One "single \<Rightarrow> single run" | Threads "nat \<Rightarrow> client_call list"

definition test2_main ::
    "(queue \<Rightarrow> nat) \<Rightarrow> (nat \<Rightarrow> nat) \<Rightarrow> (nat \<Rightarrow> int option) \<Rightarrow> test_run list" where
  "test2_main fresh st mem =
     [One test_destroyQueue,
      One (test_enqueue_dequeue fresh st mem),
      One (test_tryDequeue fresh st mem),
      One (test_size fresh st),
      Threads test_waiting,
      Threads test_basic_concurrent_enqueue_dequeue,
      Threads test_multiconcurrent_enqueue_dequeue,
      One (test_enqueue_tryDequeue fresh st mem),
      Threads test_enqueue_dequeue_with_sleep,
      One test_edge_cases,
      One (test_mixed_operations fresh st mem)]"

section \<open>What the calls do\<close>

text \<open>The queue holds the items \<open>vs\<close>, nobody waits, and nothing else is on the heap.\<close>

definition own :: "queue \<Rightarrow> nat list \<Rightarrow> bool" where
  "own q vs \<longleftrightarrow> (\<exists>as. in_memory q \<and> holds_items q as \<and> waits q [] \<and> dom (items q) = set as \<and>
     map (value_at q) as = vs)"

definition malloc_works :: "(queue \<Rightarrow> nat) \<Rightarrow> bool" where
  "malloc_works fresh \<longleftrightarrow> (\<forall>q. finite (dom (items q)) \<and> card (dom (items q)) < 16 \<longrightarrow>
     0 < fresh q \<and> fresh q < 2 ^ 64 \<and> items q (fresh q) = None)"

lemma init_own: "items (qs s) = Map.empty \<Longrightarrow> returns (init_queue s) (\<lambda>t. own (qs t) [])"
  using holds_items_init [of "qs s"] waits_init [of "qs s"]
  by (auto simp: init_queue_def own_def in_memory_def initQueue_def)

lemma enqueue_own:
  assumes "malloc_works fresh" and "own (qs s) vs" and "length vs < 15"
  shows "returns (enqueue fresh v s) (\<lambda>t. own (qs t) (vs @ [v]))"
proof -
  let ?q = "qs s" and ?a = "fresh (qs s)"
  obtain as where as: "in_memory ?q" "holds_items ?q as" "waits ?q []" "dom (items ?q) = set as"
      "map (value_at ?q) as = vs"
    using assms(2) by (auto simp: own_def)
  have "card (set as) < 16" using as(5) assms(3) card_length [of as] by auto
  then have a: "0 < ?a" "?a < 2 ^ 64" "items ?q ?a = None"
    using assms(1) as(4) by (simp_all add: malloc_works_def)
  let ?p = "?q\<lparr>items := (items ?q)(?a \<mapsto> \<lparr>data = v, qnext = Null\<rparr>)\<rparr>"
  have nin: "?a \<notin> set as" using a(3) as(4) by auto
  have p: "holds_items ?p as" "waits ?p []" "in_memory ?p" "items ?p ?a = Some \<lparr>data = v, qnext = Null\<rparr>"
    using as a nin by (auto simp: holds_items_def seg_frame waits_def in_memory_def)
  have len: "length as + 1 < 2 ^ 64" using as(5) assms(3) by auto
  obtain q' where q': "enqueue_locked readable ?a v ?p = Ok (None, q')" "holds_items q' (as @ [?a])"
      "waits q' []" "items q' = items (link_item as ?a ?p)"
    using enqueue_locked_holds [OF p(1,2) nin p(4), of readable] len by auto
  note heap = link_item_heap [OF p(1), of ?a]
  have "dom (items q') = set (as @ [?a])" using heap(1) q'(4) as(4) by simp
  moreover have "value_at q' b = value_at ?p b" for b
    using heap(2) [of b] q'(4) by (simp add: value_at_def)
  then have "map (value_at q') (as @ [?a]) = vs @ [v]"
    using as(5) nin by (auto simp: value_at_def)
  moreover have "in_memory q'" using p(3) heap(1) q'(4) by (simp add: in_memory_def)
  ultimately have "own q' (vs @ [v])" using q'(2,3) unfolding own_def by blast
  then show ?thesis using a(1) q'(1) by (simp add: enqueue_def enqueue_new_def Let_def)
qed

lemma take_own:
  assumes "own q (v # vs)"
  shows "\<exists>q'. take_first readable q = Ok (v, q') \<and> own q' vs"
proof -
  obtain as where as: "in_memory q" "holds_items q as" "waits q []" "dom (items q) = set as"
      "map (value_at q) as = v # vs"
    using assms by (auto simp: own_def)
  then obtain a bs where bs: "as = a # bs" "value_at q a = v" "map (value_at q) bs = vs" by auto
  obtain q' where q': "take_first readable q = Ok (v, q')" "holds_items q' bs"
      "items q' = (items q)(a := None)" "waiters q' = waiters q" "waitingHead q' = waitingHead q"
      "waitingTail q' = waitingTail q" "waitingCount q' = waitingCount q"
    using take_first_holds [of q a bs readable] as(2) bs by auto
  have nin: "a \<notin> set bs" using as(2) bs(1) by (simp add: holds_items_def)
  then have "dom (items q') = set bs" "map (value_at q') bs = vs"
    using q'(3) as(4) bs by (auto simp: value_at_def)
  moreover have "waits q' []" using as(3) by (rule waits_same) (simp_all add: q')
  moreover have "in_memory q'" using as(1) q'(3) by (auto simp: in_memory_def)
  ultimately show ?thesis using q'(1,2) unfolding own_def by blast
qed

lemma own_size:
  assumes "own q vs"
  shows "count q = of_nat (length vs) \<and> (count q = 0 \<longleftrightarrow> vs = [])"
proof -
  obtain as where "holds_items q as" "map (value_at q) as = vs" using assms by (auto simp: own_def)
  then show ?thesis using count_zero [of q as] by (auto simp: holds_items_def)
qed

lemma dequeue_own:
  "own (qs s) (v # vs) \<Longrightarrow> returns (dequeue s) (\<lambda>t. own (qs t) vs \<and> item_ptr t = v)"
  using take_own [of "qs s" v vs] own_size [of "qs s" "v # vs"] by (auto simp: dequeue_def)

lemma try_own:
  "own (qs s) (v # vs) \<Longrightarrow> returns (try_dequeue s) (\<lambda>(r, t). r \<and> own (qs t) vs \<and> item_ptr t = v)"
  "own (qs s) [] \<Longrightarrow> returns (try_dequeue s) (\<lambda>(r, t). \<not> r \<and> own (qs t) [])"
  using take_own [of "qs s" v vs] own_size [of "qs s" "v # vs"] own_size [of "qs s" "[]"]
  by (auto simp: try_dequeue_def tryDequeue_locked_def)

lemma destroy_own:
  assumes "own (qs s) vs" and "length vs < n"
  shows "returns (destroy_queue n s) (\<lambda>t. items (qs t) = Map.empty)"
proof -
  obtain as where as: "holds_items (qs s) as" "waits (qs s) []" "dom (items (qs s)) = set as"
      "length as < n"
    using assms by (auto simp: own_def)
  have "destroy_items n (qs s) = Ok ((qs s)\<lparr>head := Null, items := items (qs s) |` (- set as)\<rparr>)"
    using as by (intro destroy_items_frees) (simp_all add: holds_items_def)
  moreover have "items (qs s) |` (- set as) = Map.empty"
    using as(3) by (auto simp: restrict_map_def fun_eq_iff dom_def)
  ultimately show ?thesis using as(2)
    by (simp add: destroy_queue_def destroyQueue_def destroy_waiters_def waits_def)
qed

section \<open>The tests pass\<close>

text \<open>Rules for the statements, in the form in which they are applied to a block.\<close>

lemma run_init:
  "items (qs s) = Map.empty \<Longrightarrow> (\<And>t. own (qs t) [] \<Longrightarrow> returns (block cs t) Q) \<Longrightarrow>
   returns (block (init_queue # cs) s) Q"
  using init_own by (rule ends_block_Cons)

lemma run_enqueue:
  "own (qs s) vs \<Longrightarrow> malloc_works fresh \<Longrightarrow> length vs < 15 \<Longrightarrow>
   (\<And>t. own (qs t) (vs @ [v]) \<Longrightarrow> returns (block cs t) Q) \<Longrightarrow>
   returns (block (enqueue fresh v # cs) s) Q"
  by (rule ends_block_Cons [OF enqueue_own])

lemma run_dequeue:
  assumes "own (qs s) vs" and "vs \<noteq> []" and "mem (hd vs) \<noteq> None"
    and "\<And>t. own (qs t) (tl vs) \<Longrightarrow> returns (block cs t) Q"
  shows "returns (block (dequeue # print_item mem # cs) s) Q"
proof -
  obtain t where t: "dequeue s = Ok t" "own (qs t) (tl vs)" "item_ptr t = hd vs"
    using dequeue_own [of s "hd vs" "tl vs"] assms(1,2) by (auto elim: returnsE)
  then show ?thesis using assms(3,4) by (simp add: print_item_def)
qed

lemma run_dequeue_item:
  assumes "own (qs s) vs" and "vs \<noteq> []" and "mem (hd vs) = Some x"
    and "\<And>t. own (qs t) (tl vs) \<Longrightarrow> returns (block cs t) Q"
  shows "returns (block (dequeue # check (item_is mem x) # cs) s) Q"
proof -
  obtain t where t: "dequeue s = Ok t" "own (qs t) (tl vs)" "item_ptr t = hd vs"
    using dequeue_own [of s "hd vs" "tl vs"] assms(1,2) by (auto elim: returnsE)
  then show ?thesis using assms(3,4) by (simp add: check_def item_is_def)
qed

lemma run_try:
  assumes "own (qs s) vs" and "vs \<noteq> []" and "mem (hd vs) = Some x"
    and "\<And>t. own (qs t) (tl vs) \<Longrightarrow> returns (block cs t) Q"
  shows "returns (block (check_try True # check (item_is mem x) # cs) s) Q"
proof -
  obtain t where t: "try_dequeue s = Ok (True, t)" "own (qs t) (tl vs)" "item_ptr t = hd vs"
    using try_own(1) [of s "hd vs" "tl vs"] assms(1,2) by (auto elim: returnsE)
  then show ?thesis using assms(3,4) by (simp add: check_try_def check_def item_is_def)
qed

lemma run_try_empty:
  assumes "own (qs s) []" and "\<And>t. own (qs t) [] \<Longrightarrow> returns (block cs t) Q"
  shows "returns (block (check_try False # cs) s) Q"
proof -
  obtain t where "try_dequeue s = Ok (False, t)" "own (qs t) []"
    using try_own(2) [OF assms(1)] by (auto elim: returnsE)
  then show ?thesis using assms(2) by (simp add: check_try_def)
qed

lemma run_just_try:
  assumes "own (qs s) vs" and "\<forall>v \<in> set vs. mem v \<noteq> None"
    and "\<And>t. own (qs t) (tl vs) \<Longrightarrow> returns (block cs t) Q"
  shows "returns (block (just_try mem # cs) s) Q"
proof -
  have "returns (just_try mem s) (\<lambda>t. own (qs t) (tl vs))"
  proof (cases vs)
    case Nil
    then obtain t where "try_dequeue s = Ok (False, t)" "own (qs t) []"
      using try_own(2) [of s] assms(1) by (auto elim: returnsE)
    then show ?thesis using Nil by (simp add: just_try_def)
  next
    case (Cons v us)
    then obtain t where "try_dequeue s = Ok (True, t)" "own (qs t) us" "item_ptr t = v"
      using try_own(1) [of s v us] assms(1) by (auto elim: returnsE)
    then show ?thesis using Cons assms(2) by (simp add: just_try_def print_item_def)
  qed
  then show ?thesis by (rule ends_block_Cons) (rule assms(3))
qed

lemma run_size:
  "own (qs s) vs \<Longrightarrow> n = of_nat (length vs) \<Longrightarrow> (\<And>t. own (qs t) vs \<Longrightarrow> returns (block cs t) Q) \<Longrightarrow>
   returns (block (check (\<lambda>s. size_of_queue (qs s) = n) # cs) s) Q"
  using own_size [of "qs s" vs] by (simp add: check_def size_of_queue_def)

lemma run_drain:
  assumes "own (qs s) vs" and "length vs < n" and "\<forall>v \<in> set vs. mem v \<noteq> None"
    and "\<And>t. own (qs t) [] \<Longrightarrow> returns (block cs t) Q"
  shows "returns (block (drain mem n # cs) s) Q"
proof -
  have "own (qs s) vs \<Longrightarrow> length vs < n \<Longrightarrow> \<forall>v \<in> set vs. mem v \<noteq> None \<Longrightarrow>
      returns (drain mem n s) (\<lambda>t. own (qs t) [])" for s
  proof (induction n arbitrary: s vs)
    case (Suc n)
    show ?case
    proof (cases vs)
      case Nil
      then show ?thesis using Suc.prems(1) own_size [OF Suc.prems(1)] by (simp add: size_of_queue_def)
    next
      case (Cons v us)
      have "returns (bindR (dequeue s) (\<lambda>t. bindR (print_item mem t) (drain mem n))) (\<lambda>t. own (qs t) [])"
        by (rule ends_bind [OF dequeue_own [of s v us]]) (use Suc Cons in \<open>auto simp: print_item_def\<close>)
      moreover have "count (qs s) \<noteq> 0" using own_size [OF Suc.prems(1)] Cons by blast
      then have "size_of_queue (qs s) > 0" by (simp add: size_of_queue_def word_gt_0)
      ultimately show ?thesis by simp
    qed
  qed simp
  from this [OF assms(1,2,3)] show ?thesis by (rule ends_block_Cons) (rule assms(4))
qed

lemma run_destroy:
  "own (qs s) vs \<Longrightarrow> length vs < n \<Longrightarrow> returns (block [destroy_queue n] s) (\<lambda>t. items (qs t) = Map.empty)"
  using destroy_own [of s vs n] by simp

lemmas single_rules =
  run_init run_enqueue run_dequeue_item run_dequeue run_try run_try_empty run_just_try run_size run_drain run_destroy

lemma upto_5: "[0..<5] = [0, 1, 2, 3, 4 :: nat]" "[0..<3] = [0, 1, 2 :: nat]"
  by (simp_all add: upt_rec)

text \<open>
  C36: The one-thread tests of \<open>test2.c\<close> pass: no assertion fails, no call waits forever, nothing
  undefined happens, and after the \<open>destroyQueue\<close> at the end no item is on the heap.
\<close>

theorem single_tests_pass:
  assumes "malloc_works fresh" and "\<forall>i < 6. mem (st i) = Some (int i + 1)"
    and "items (qs s) = Map.empty"
    and "One test \<in> set (test2_main fresh st mem)"
  shows "returns (test s) (\<lambda>t. items (qs t) = Map.empty)"
proof -
  note rules = single_rules assms(1,3)
  have mem: "mem (st 0) = Some 1" "mem (st 1) = Some 2" "mem (st 2) = Some 3" "mem (st 3) = Some 4"
      "mem (st 4) = Some 5" "mem (st 5) = Some 6"
    using assms(2) by auto
  have "returns (test_destroyQueue s) (\<lambda>t. items (qs t) = Map.empty)"
    unfolding test_destroyQueue_def by (rule rules | assumption | simp add: assms)+
  moreover have "returns (test_enqueue_dequeue fresh st mem s) (\<lambda>t. items (qs t) = Map.empty)"
    unfolding test_enqueue_dequeue_def upto_5 list.map concat.simps append.simps
    by (rule rules | assumption | simp add: mem assms)+
  moreover have "returns (test_tryDequeue fresh st mem s) (\<lambda>t. items (qs t) = Map.empty)"
    unfolding test_tryDequeue_def upto_5 list.map concat.simps append.simps
    by (rule rules | assumption | simp add: mem assms)+
  moreover have "returns (test_size fresh st s) (\<lambda>t. items (qs t) = Map.empty)"
    unfolding test_size_def upto_5 list.map append.simps
    by (rule rules | assumption | simp add: assms)+
  moreover have "returns (test_enqueue_tryDequeue fresh st mem s) (\<lambda>t. items (qs t) = Map.empty)"
    unfolding test_enqueue_tryDequeue_def
    by (rule rules | assumption | simp add: mem assms)+
  moreover have "returns (test_edge_cases s) (\<lambda>t. items (qs t) = Map.empty)"
    unfolding test_edge_cases_def by (rule rules | assumption | simp add: assms)+
  moreover have "returns (test_mixed_operations fresh st mem s) (\<lambda>t. items (qs t) = Map.empty)"
    unfolding test_mixed_operations_def by (rule rules | assumption | simp add: mem assms)+
  ultimately show ?thesis using assms(4) by (auto simp: test2_main_def)
qed

text \<open>The threaded tests of \<open>main\<close> are among those that cannot hang.\<close>

lemma test2_threads: "Threads prog \<in> set (test2_main fresh st mem) \<Longrightarrow> prog \<in> set threaded_tests"
  by (auto simp: test2_main_def threaded_tests_def)

section \<open>Witness\<close>

text \<open>A \<open>malloc\<close> that takes the first free address from 1 on.\<close>

definition first_free :: "queue \<Rightarrow> nat" where
  "first_free q = hd (filter (\<lambda>a. items q a = None) [1..<17])"

lemma first_free_works: "malloc_works first_free"
  unfolding malloc_works_def
proof (intro allI impI)
  fix q :: queue
  assume q: "finite (dom (items q)) \<and> card (dom (items q)) < 16"
  have "filter (\<lambda>a. items q a = None) [1..<17] \<noteq> []"
  proof
    assume "filter (\<lambda>a. items q a = None) [1..<17] = []"
    then have "{1..<17} \<subseteq> dom (items q)" by (auto simp: filter_empty_conv)
    then have "card {1..<17 :: nat} \<le> card (dom (items q))" using q by (intro card_mono) auto
    then show False using q by simp
  qed
  then have "first_free q \<in> set (filter (\<lambda>a. items q a = None) [1..<17])"
    unfolding first_free_def by (rule hd_in_set)
  then show "0 < first_free q \<and> first_free q < 2 ^ 64 \<and> items q (first_free q) = None" by auto
qed

theorem single_tests_pass_witness:
  "returns (test_mixed_operations first_free (\<lambda>i. 1000 + i) (\<lambda>a. Some (int a - 999))
     \<lparr>qs = qu sys_init, item_ptr = 0\<rparr>) (\<lambda>t. items (qs t) = Map.empty)"
  by (rule single_tests_pass [where mem = "\<lambda>a. Some (int a - 999)" and st = "\<lambda>i. 1000 + i",
        OF first_free_works])
    (simp_all add: sys_init_def initQueue_def test2_main_def)

end
