(* ===== verification/Queue_Bound.thy ===== *)
theory Queue_Bound
  imports Queue_Tests
begin

text \<open>
  How long the programs that use the concurrent queue can run, and that they can always come to their
  end. \<open>Queue_Tests\<close> shows that they cannot get stuck before it; here is a bound on the number of their
  steps, in any interleaving. It counts wake-ups without a signal and calls of \<open>tryDequeue\<close>, which may
  come any number of times, and shows that nothing else can go on for ever: every thread that goes back
  to sleep has used up a signal. And from every state on there is a way to the end that uses no wake-up
  without a signal.
\<close>

section \<open>What is left to do\<close>

text \<open>Whether the thread is waiting for a signal.\<close>

definition flag :: "queue \<Rightarrow> nat \<Rightarrow> bool" where
  "flag q t = (case waiters q t of None \<Rightarrow> False | Some w \<Rightarrow> isWaiting w)"

text \<open>The steps a thread still has in its call, plus those of the sleeper that it wakes up.\<close>

fun rank :: "bool \<Rightarrow> pc \<Rightarrow> nat" where
  "rank f Idle = 0"
| "rank f (EnqLock a v) = 7"
| "rank f (EnqBody a v) = 6"
| "rank f EnqUnlock = 1"
| "rank f DeqLock = 4"
| "rank f DeqLoop = 3"
| "rank f DeqCheck = (if f then 2 else 4)"
| "rank f DeqSleep = 1"
| "rank f DeqRelock = (if f then 3 else 5)"
| "rank f (DeqUnlock v) = 2"
| "rank f TryLock = 3"
| "rank f TryBody = 2"
| "rank f (TryUnlock r) = (if r = None then 1 else 2)"

fun weight :: "client_call list \<Rightarrow> nat" where
  "weight [] = 0"
| "weight (Enq st v # cs) = 8 + weight cs"
| "weight (Deq u # cs) = 5 + weight cs"
| "weight (TryLoop u # cs) = 1 + weight cs"

definition effort :: "clients \<Rightarrow> nat \<Rightarrow> nat" where
  "effort c t = weight (todo c t) + rank (flag (qu (sy c)) t) (pcs (sy c) t) + of_bool (held c t \<noteq> None)"

lemma update_item_flag: "update_item p f q = Ok q' \<Longrightarrow> flag q' = flag q"
  by (auto simp: update_item_def flag_def fun_eq_iff)

lemma update_waiter_flag:
  assumes "update_waiter p f q = Ok q'"
  obtains t w where "p = Ref t" "waiters q t = Some w" "flag q' = (flag q)(t := isWaiting (f w))"
proof (cases p)
  case (Ref t)
  then obtain w where "waiters q t = Some w" "q' = q\<lparr>waiters := (waiters q)(t \<mapsto> f w)\<rparr>"
    using assms by (auto simp: update_waiter_def split: option.splits)
  then show ?thesis using that [OF Ref] by (simp add: flag_def fun_eq_iff)
qed (use assms in \<open>simp_all add: update_waiter_def\<close>)

lemma wake_first_flag:
  assumes "wake_first q = Ok (w, q')"
  shows "flag q' = (case w of None \<Rightarrow> flag q | Some u \<Rightarrow> (flag q)(u := False))"
proof (cases "waitingHead q")
  case (Ref u)
  then obtain r where r: "update_waiter (Ref u) (\<lambda>w. w\<lparr>isWaiting := False\<rparr>) r = Ok q'" "w = Some u"
      "waiters r = waiters q"
    using assms by (auto simp: wake_first_def Let_def split: if_splits)
  have "flag q' = (flag r)(u := False)" using r(1) by (rule update_waiter_flag) simp
  then show ?thesis using r(2,3) by (simp add: flag_def fun_eq_iff)
qed (use assms in \<open>simp_all add: wake_first_def\<close>)

lemma locked_flags:
  "enqueue_locked rd a v q = Ok (w, q') \<Longrightarrow>
     flag q' = (case w of None \<Rightarrow> flag q | Some u \<Rightarrow> (flag q)(u := False))"
  "register_waiter t q = Ok q' \<Longrightarrow> flag q' = (flag q)(t := True)"
  "after_wait t q = Ok q' \<Longrightarrow> flag q' = (flag q)(t := False)"
  "take_first rd q = Ok (v, q') \<Longrightarrow> flag q' = flag q"
  "tryDequeue_locked rd q = Ok (r, q') \<Longrightarrow> flag q' = flag q"
proof -
  have flag_cong: "waiters p = waiters p' \<Longrightarrow> flag p = flag p'" for p p' by (simp add: flag_def fun_eq_iff)
  show "flag q' = (case w of None \<Rightarrow> flag q | Some u \<Rightarrow> (flag q)(u := False))"
    if e: "enqueue_locked rd a v q = Ok (w, q')"
  proof -
    obtain q1 q3 where q1: "(if tail q = Null then Ok (q\<lparr>head := Ref a\<rparr>)
          else update_item (tail q) (\<lambda>n. n\<lparr>qnext := Ref a\<rparr>) q) = Ok q1"
        "waiters q3 = waiters q1" "wake_first q3 = Ok (w, q')"
      using e unfolding enqueue_locked_def Let_def bindR_Ok_iff
      by (elim exE conjE) (rule that; simp)
    have "flag q1 = flag q"
    proof (cases "tail q = Null")
      case True
      then have "waiters q1 = waiters q" using q1(1) by auto
      then show ?thesis by (rule flag_cong)
    next
      case False
      then show ?thesis using q1(1) by (simp add: update_item_flag)
    qed
    then show ?thesis using wake_first_flag [OF q1(3)] flag_cong [OF q1(2)] by (cases w) simp_all
  qed
  show "flag q' = (flag q)(t := True)" if r: "register_waiter t q = Ok q'"
  proof -
    let ?q = "q\<lparr>waiters := (waiters q)(t \<mapsto> \<lparr>wnext = Null, isWaiting = True\<rparr>)\<rparr>"
    have new: "flag ?q = (flag q)(t := True)" by (simp add: flag_def fun_eq_iff)
    obtain q2 where q2: "(if waitingTail ?q = Null then Ok (?q\<lparr>waitingHead := Ref t\<rparr>)
          else update_waiter (waitingTail ?q) (\<lambda>w. w\<lparr>wnext := Ref t\<rparr>) ?q) = Ok q2"
        "waiters q' = waiters q2"
      using r unfolding register_waiter_def Let_def bindR_Ok_iff
      by (elim exE conjE) (rule that, assumption, auto)
    note q2 = q2(1) flag_cong [OF q2(2)]
    show ?thesis
    proof (cases "waitingTail q = Null")
      case True
      then show ?thesis using q2 new by (auto simp: flag_def fun_eq_iff)
    next
      case False
      then have "update_waiter (waitingTail ?q) (\<lambda>w. w\<lparr>wnext := Ref t\<rparr>) ?q = Ok q2" using q2(1) by simp
      then have "flag q2 = flag ?q"
        by (rule update_waiter_flag) (auto simp: flag_def fun_eq_iff)
      then show ?thesis using q2(2) new by simp
    qed
  qed
  show "flag q' = (flag q)(t := False)" if "after_wait t q = Ok q'"
  proof -
    have "waiters q' = (waiters q)(t := None)"
      using that by (auto simp: after_wait_def Let_def if_distrib [of waiters])
    then show ?thesis by (simp add: flag_def fun_eq_iff)
  qed
  show take: "flag q' = flag q" if "take_first rd q = Ok (v, q')" for v
    using that by (auto simp: take_first_def Let_def intro!: flag_cong)
  show "flag q' = flag q" if "tryDequeue_locked rd q = Ok (r, q')"
    using that take by (auto simp: tryDequeue_locked_def split: if_splits)
qed

section \<open>Every step is paid for\<close>

text \<open>
  \<open>falls\<close>: thread \<open>t\<close> loses one more than thread \<open>u\<close>, if it is another one, gains; nobody else gains.
\<close>

definition falls :: "nat \<Rightarrow> nat \<Rightarrow> (nat \<Rightarrow> nat) \<Rightarrow> (nat \<Rightarrow> nat) \<Rightarrow> bool" where
  "falls t k f g \<longleftrightarrow> (\<exists>u. \<forall>x. g x + (if x = t then Suc k else 0) \<le> f x + (if x = u then k else 0))"

lemma falls_sum:
  assumes "falls t k f g" and "finite T" and "t \<in> T"
  shows "sum g T + 1 \<le> sum f T"
proof -
  obtain u where u: "\<And>x. g x + (if x = t then Suc k else 0) \<le> f x + (if x = u then k else 0)"
    using assms(1) unfolding falls_def by blast
  have "(\<Sum>x\<in>T. g x + (if x = t then Suc k else 0)) \<le> (\<Sum>x\<in>T. f x + (if x = u then k else 0))"
    using u by (rule sum_mono)
  then have "sum g T + Suc k \<le> sum f T + (if u \<in> T then k else 0)"
    using assms(2,3) by (simp add: sum.distrib)
  then show ?thesis by (simp split: if_splits)
qed

lemma falls_alone: "g t < f t \<Longrightarrow> (\<And>x. x \<noteq> t \<Longrightarrow> g x \<le> f x) \<Longrightarrow> falls t 0 f g"
  unfolding falls_def by (intro exI [of _ t]) (auto simp: Suc_le_eq)

definition call_rank :: "sys \<Rightarrow> nat \<Rightarrow> nat" where
  "call_rank s t = rank (flag (qu s) t) (pcs s t)"

lemma woken_rank: "rank False (if p = DeqSleep then DeqRelock else p) \<le> rank f p + 4"
  by (cases p) auto

lemma falls_mono: "falls t k f g \<Longrightarrow> (\<And>x. g' x + f x \<le> f' x + g x) \<Longrightarrow> falls t k f' g'"
  unfolding falls_def
proof (elim exE, rule exI, intro allI)
  fix u x assume "\<forall>x. g x + (if x = t then Suc k else 0) \<le> f x + (if x = u then k else 0)"
    and "\<And>x. g' x + f x \<le> f' x + g x"
  then have "g x + (if x = t then Suc k else 0) \<le> f x + (if x = u then k else 0)" "g' x + f x \<le> f' x + g x"
    by blast+
  then show "g' x + (if x = t then Suc k else 0) \<le> f' x + (if x = u then k else 0)" by linarith
qed

text \<open>
  A step inside a call. The pointer that a call returns has still to be used up, and a \<open>tryDequeue\<close>
  that finds an item ends the loop around it.
\<close>

definition to_use :: "sys \<Rightarrow> nat \<Rightarrow> nat \<Rightarrow> nat" where
  "to_use s t x = of_bool (x = t \<and> returned (pcs s t) \<noteq> None)"

definition loop_ends :: "sys \<Rightarrow> nat \<Rightarrow> nat queue_op \<Rightarrow> nat \<Rightarrow> nat" where
  "loop_ends s t e x = of_bool (x = t \<and> pcs s t = TryBody \<and> e \<noteq> Other)"

lemma alone_falls:
  assumes "pcs s' = (pcs s)(t := p)" and "\<And>x. x \<noteq> t \<Longrightarrow> flag (qu s') x = flag (qu s) x"
    and "rank (flag (qu s') t) p + to_use s t t < rank (flag (qu s) t) (pcs s t) + loop_ends s t e t"
  shows "\<exists>k. falls t k (\<lambda>x. call_rank s x + loop_ends s t e x) (\<lambda>x. call_rank s' x + to_use s t x)"
  using assms by (intro exI [of _ 0] falls_alone) (simp_all add: call_rank_def to_use_def)

lemma advance_falls:
  assumes a: "advance rd t s = Some (Ok (e, s'))"
  shows "\<exists>k. falls t k (\<lambda>x. call_rank s x + loop_ends s t e x) (\<lambda>x. call_rank s' x + to_use s t x)"
proof (cases "pcs s t")
  case (EnqBody b v)
  then obtain w q where q: "enqueue_locked rd b v (qu s) = Ok (w, q)"
      "s' = s\<lparr>qu := q, pcs := signal w ((pcs s)(t := EnqUnlock))\<rparr>"
    using a by (auto simp: advance_def)
  let ?u = "case w of None \<Rightarrow> t | Some u \<Rightarrow> u"
  have "call_rank s' x + (if x = t then Suc 4 else 0) \<le> call_rank s x + (if x = ?u then 4 else 0)" for x
    using locked_flags(1) [OF q(1)] q(2) EnqBody woken_rank [of "pcs s x" "flag (qu s) x"]
    by (cases w) (auto simp: call_rank_def signal_def)
  then have "falls t 4 (call_rank s) (call_rank s')"
    unfolding falls_def by blast
  then show ?thesis
    by (intro exI [of _ 4]) (simp add: to_use_def loop_ends_def EnqBody)
next
  case DeqLoop
  show ?thesis
  proof (cases "count (qu s) = 0")
    case True
    then obtain q where q: "register_waiter t (qu s) = Ok q" "s' = goto t DeqCheck (s\<lparr>qu := q\<rparr>)"
      using a DeqLoop by (auto simp: advance_def)
    then show ?thesis
      using locked_flags(2) [OF q(1)] DeqLoop
      by (intro alone_falls [of _ _ _ DeqCheck]) (simp_all add: to_use_def)
  next
    case False
    then obtain v q where q: "take_first rd (qu s) = Ok (v, q)" "s' = goto t (DeqUnlock v) (s\<lparr>qu := q\<rparr>)"
      using a DeqLoop by (auto simp: advance_def)
    then show ?thesis
      using locked_flags(4) [OF q(1)] DeqLoop
      by (intro alone_falls [of _ _ _ "DeqUnlock v"]) (simp_all add: to_use_def)
  qed
next
  case DeqCheck
  obtain w where w: "waiters (qu s) t = Some w"
    using a DeqCheck by (auto simp: advance_def split: option.splits)
  show ?thesis
  proof (cases "isWaiting w")
    case True
    then show ?thesis using a DeqCheck w
      by (intro alone_falls [of _ _ _ DeqSleep]) (auto simp: advance_def to_use_def flag_def)
  next
    case False
    then obtain q where q: "after_wait t (qu s) = Ok q" "s' = goto t DeqLoop (s\<lparr>qu := q\<rparr>)"
      using a DeqCheck w by (auto simp: advance_def)
    then show ?thesis
      using locked_flags(3) [OF q(1)] DeqCheck w False
      by (intro alone_falls [of _ _ _ DeqLoop]) (simp_all add: to_use_def flag_def)
  qed
next
  case TryBody
  then obtain r q where q: "tryDequeue_locked rd (qu s) = Ok (r, q)" "e = try_event r"
      "s' = goto t (TryUnlock r) (s\<lparr>qu := q\<rparr>)"
    using a by (auto simp: advance_def)
  then show ?thesis
    using locked_flags(5) [OF q(1)] TryBody
    by (intro alone_falls [of _ _ _ "TryUnlock r"])
      (auto simp: to_use_def loop_ends_def try_event_def split: option.splits)
qed (rule alone_falls [of _ _ _ "pcs s' t"]; use a in \<open>auto simp: advance_def to_use_def split: if_splits\<close>)+

section \<open>Runs\<close>

text \<open>
  A step that may come any number of times: the start of a \<open>tryDequeue\<close>, or a wake-up without a
  signal. \<open>client_runs prog c n k\<close>: after \<open>n\<close> steps, \<open>k\<close> of them such retries, the program is at \<open>c\<close>.
\<close>

definition retry :: "clients \<Rightarrow> nat queue_op list \<Rightarrow> clients \<Rightarrow> bool" where
  "retry c d c' \<longleftrightarrow> d = [Other] \<and>
     (\<exists>t. pcs (sy c) t = Idle \<and> pcs (sy c') t = TryLock \<or>
          pcs (sy c) t = DeqSleep \<and> pcs (sy c') t = DeqRelock)"

inductive client_runs :: "(nat \<Rightarrow> client_call list) \<Rightarrow> clients \<Rightarrow> nat \<Rightarrow> nat \<Rightarrow> bool" for prog where
  runs_init: "client_runs prog (clients_init prog) 0 0"
| runs_next: "client_runs prog c n k \<Longrightarrow> client_step c d c' \<Longrightarrow>
    client_runs prog c' (Suc n) (k + of_bool (retry c d c'))"

lemma client_runs_reach: "client_runs prog c n k \<Longrightarrow> \<exists>es. client_reach prog c es"
  by (induction rule: client_runs.induct) (auto intro: client_reach.intros)

lemma act_flag:
  assumes "act rd (t, x) s = Some (e, s')" and "x \<noteq> Go" shows "flag (qu s') = flag (qu s)"
  using assms by (cases x) (auto simp: act_def enqueue_new_def flag_def fun_eq_iff split: if_splits)

lemma client_step_falls:
  assumes "client_step c d c'" and inv: "progress_inv prog c"
    and held: "\<forall>t. held c t \<noteq> None \<longrightarrow> prog t \<noteq> []"
  shows "\<exists>t \<in> users prog. \<exists>k.
    falls t k (\<lambda>x. effort c x + (if x = t \<and> retry c d c' then 5 else 0)) (effort c')"
proof -
  have user: "pcs (sy c) t \<noteq> Idle \<or> todo c t \<noteq> [] \<Longrightarrow> t \<in> users prog" for t
    using inv unfolding progress_inv_def users_def by (metis (mono_tags) append_is_Nil_conv mem_Collect_eq)
  have alone: ?thesis
    if "t \<in> users prog" "effort c' t < effort c t + (if retry c d c' then 5 else 0)"
      "\<And>x. x \<noteq> t \<Longrightarrow> effort c' x = effort c x" for t
    using that by (intro bexI [of _ t] exI [of _ 0] falls_alone) simp_all
  show ?thesis
    using assms(1)
  proof cases
    case (start_enqueue t st v cs p a e s)
    show ?thesis
      using user [of t] act_call(1) [OF start_enqueue(6)] act_flag [OF start_enqueue(6)] start_enqueue(2,3)
      by (intro alone [of t]) (simp_all add: effort_def)
  next
    case (start_dequeue t u cs e s)
    show ?thesis
      using user [of t] act_call(2) [OF start_dequeue(5)] act_flag [OF start_dequeue(5)] start_dequeue(2,3)
      by (intro alone [of t]) (simp_all add: effort_def)
  next
    case (start_try t u cs e s)
    have "retry c d c'"
      using act_call(3) [OF start_try(5)] start_try(1,2) by (auto simp: retry_def intro!: exI [of _ t])
    then show ?thesis
      using user [of t] act_call(3) [OF start_try(5)] act_flag [OF start_try(5)] start_try(2,3)
      by (intro alone [of t]) (simp_all add: effort_def)
  next
    case (spurious t e s)
    have "retry c d c'"
      using act_call(4) [OF spurious(3)] spurious(1,2) by (auto simp: retry_def intro!: exI [of _ t])
    then show ?thesis
      using user [of t] act_call(4) [OF spurious(3)] act_flag [OF spurious(3)] spurious(2)
      by (intro alone [of t]) (simp_all add: effort_def)
  next
    case (use_item t p st v)
    show ?thesis
      using held use_item(2,3) by (intro alone [of t]) (simp_all add: effort_def users_def)
  next
    case (go_on t e s)
    then have a: "advance (live c) t (sy c) = Some (Ok (e, s))"
      by (auto simp: act_def split: option.splits run.splits)
    obtain k where k: "falls t k (\<lambda>x. call_rank (sy c) x + loop_ends (sy c) t e x)
        (\<lambda>x. call_rank s x + to_use (sy c) t x)"
      using advance_falls [OF a] by blast
    have busy: "pcs (sy c) t \<noteq> Idle" using a by (auto simp: advance_def)
    have loop: "\<exists>u cs. todo c t = TryLoop u # cs" if "pcs (sy c) t = TryBody"
      using inv that unfolding progress_inv_def by blast
    have h: "of_bool (held c' x \<noteq> None) \<le> of_bool (held c x \<noteq> None) + to_use (sy c) t x" for x
      using go_on(2) by (simp add: handed_def to_use_def split: option.split)
    have w: "weight (todo c' x) + loop_ends (sy c) t e x \<le> weight (todo c x)" for x
      using go_on(2) loop by (auto simp: loop_ends_def)
    have "falls t k (effort c) (effort c')"
    proof (rule falls_mono [OF k])
      fix x
      have "effort c' x = weight (todo c' x) + call_rank s x + of_bool (held c' x \<noteq> None)"
        using go_on(2) by (simp add: effort_def call_rank_def)
      moreover have "effort c x = weight (todo c x) + call_rank (sy c) x + of_bool (held c x \<noteq> None)"
        by (simp add: effort_def call_rank_def)
      ultimately show "effort c' x + (call_rank (sy c) x + loop_ends (sy c) t e x) \<le>
          effort c x + (call_rank s x + to_use (sy c) t x)"
        using h [of x] w [of x] by linarith
    qed
    then have "falls t k (\<lambda>x. effort c x + (if x = t \<and> retry c d c' then 5 else 0)) (effort c')"
      by (rule falls_mono) simp
    then show ?thesis using user [of t] busy by blast
  qed
qed

lemma weight_calls: "weight cs \<le> 8 * enqs cs + 5 * deqs cs"
  by (induction cs rule: weight.induct) auto

lemma runs_bound:
  assumes "client_runs prog c n k" and "uniform m prog"
  shows "n + (\<Sum>t\<in>users prog. effort c t) \<le> (\<Sum>t\<in>users prog. weight (prog t)) + 5 * k"
  using assms(1)
proof (induction rule: client_runs.induct)
  case runs_init
  then show ?case by (simp add: effort_def clients_init_def sys_init_def)
next
  case (runs_next c n k d c')
  have fin: "finite (users prog)" using assms(2) by (simp add: uniform_def)
  obtain es where es: "client_reach prog c es" using client_runs_reach [OF runs_next.hyps(1)] by blast
  have inv: "progress_inv prog c" using client_reach_inv [OF es fin] by blast
  have "\<forall>t. held c t \<noteq> None \<longrightarrow> prog t \<noteq> []"
    using books_reach [OF es assms(2)] unfolding owner_inv_def by blast
  then obtain t j where t: "t \<in> users prog"
      "falls t j (\<lambda>x. effort c x + (if x = t \<and> retry c d c' then 5 else 0)) (effort c')"
    using client_step_falls [OF runs_next.hyps(2) inv] by blast
  have "(\<Sum>x\<in>users prog. effort c' x) + 1 \<le> (\<Sum>x\<in>users prog. effort c x + (if x = t \<and> retry c d c' then 5 else 0))"
    by (rule falls_sum [OF t(2) fin t(1)])
  also have "\<dots> = (\<Sum>x\<in>users prog. effort c x) + 5 * of_bool (retry c d c')"
    using fin t(1) by (simp add: sum.distrib)
  finally show ?case using runs_next.IH by (simp add: algebra_simps)
qed

section \<open>A thread that is not blocked can go on\<close>

text \<open>No more items are on the heap than the program enqueues, so \<open>malloc\<close> finds room.\<close>

lemma items_bounded:
  assumes "client_reach prog c es" and "finite (users prog)"
  shows "finite (dom (items (qu (sy c)))) \<and>
    card (dom (items (qu (sy c)))) \<le> (\<Sum>t\<in>users prog. enqs (prog t))"
proof -
  have r: "reach readable (sy c) es" "progress_inv prog c"
      "(\<Sum>t\<in>users prog. enqs (prog t)) = (\<Sum>t\<in>users prog. enq_left c t) + length (puts es)"
    using client_reach_inv [OF assms] by blast+
  obtain as ws where inv: "sys_inv (sy c) as ws" using reach_inv [OF r(1)] by blast
  let ?P = "{t \<in> users prog. pending (pcs (sy c) t) \<noteq> None}"
  let ?f = "\<lambda>t. fst (the (pending (pcs (sy c) t)))"
  have fin: "finite ?P" using assms(2) by simp
  have user: "t \<in> users prog" if "pending (pcs (sy c) t) = Some x" for t x
  proof -
    have "pcs (sy c) t \<noteq> Idle" using that by (cases "pcs (sy c) t") auto
    then show ?thesis using r(2) unfolding progress_inv_def users_def by blast
  qed
  have "a \<in> ?f ` ?P" if "pending (pcs (sy c) t) = Some (a, v)" for a v t
    using that user [OF that] by (intro image_eqI [of _ _ t]) auto
  then have "pend_addrs (pcs (sy c)) \<subseteq> ?f ` ?P" unfolding pend_addrs_def by blast
  then have dm: "dom (items (qu (sy c))) \<subseteq> set as \<union> ?f ` ?P"
    using reach_no_leak [OF r(1) inv] unfolding no_leak_def by blast
  have "card ?P = (\<Sum>t\<in>users prog. of_bool (pending (pcs (sy c) t) \<noteq> None))"
    using assms(2) by (simp add: of_bool_def sum.If_cases Int_def)
  also have "\<dots> \<le> (\<Sum>t\<in>users prog. enq_left c t)" by (intro sum_mono) (simp add: enq_left_def)
  finally have "card (?f ` ?P) \<le> (\<Sum>t\<in>users prog. enq_left c t)"
    using card_image_le [OF fin, of ?f] by (rule order_trans [rotated])
  moreover have "card (set as) \<le> length (puts es)"
    using reach_fifo [OF r(1) inv] card_length [of as] by simp
  ultimately have "card (set as \<union> ?f ` ?P) \<le> (\<Sum>t\<in>users prog. enqs (prog t))"
    using card_Un_le [of "set as" "?f ` ?P"] r(3) by linarith
  moreover have all: "finite (set as \<union> ?f ` ?P)" using fin by simp
  ultimately show ?thesis
    using card_mono [OF all dm] finite_subset [OF dm all] by linarith
qed

lemma cells_finite: "client_reach prog c es \<Longrightarrow> finite (dom (cells c))"
proof (induction rule: client_reach.induct)
  case (client_next c es d c')
  have "\<exists>p. dom (cells c') \<subseteq> insert p (dom (cells c))"
    using client_next.hyps(2) by cases (auto split: if_splits)
  then show ?case using client_next.IH by (meson finite.insertI finite_subset)
qed (simp add: clients_init_def)

text \<open>
  A step within a call is no retry, nor is the use of an item, an \<open>enqueue\<close> or a \<open>dequeue\<close>.
\<close>

lemma wakes_retry: "wakes c d c' \<Longrightarrow> retry c d c'"
  by (auto simp: wakes_def retry_def)

lemma go_no_retry:
  assumes "act rd (t, Go) (sy c) = Some (e, s)" and "sy c' = s" shows "\<not> retry c [e] c'"
proof
  assume r: "retry c [e] c'"
  obtain p where "pcs s = (pcs (sy c))(t := p)" "pcs (sy c) t \<noteq> Idle" "pcs (sy c) t \<noteq> DeqSleep"
    using act_go [OF assms(1)] r by (auto simp: retry_def signal_def)
  then show False using r assms(2) by (auto simp: retry_def split: if_splits)
qed

definition can_go :: "clients \<Rightarrow> nat \<Rightarrow> bool" where
  "can_go c t \<longleftrightarrow> advance (live c) t (sy c) \<noteq> None \<or> held c t \<noteq> None \<or>
     pcs (sy c) t = Idle \<and> (\<exists>x cs. todo c t = x # cs \<and> (\<forall>u. x \<noteq> TryLoop u))"

lemma can_go_steps:
  assumes c: "client_reach prog c es" and u: "uniform m prog"
    and room: "(\<Sum>t\<in>users prog. enqs (prog t)) < 2 ^ 64 - 1" and t: "can_go c t"
  shows "\<exists>d c'. client_step c d c' \<and> \<not> retry c d c'"
proof -
  have safe: "\<not> goes_wrong c t" using uniform_safe [OF c u] .
  have fin: "finite (users prog)" using u by (simp add: uniform_def)
  consider r where "advance (live c) t (sy c) = Some r" | p where "held c t = Some p"
    | x cs where "pcs (sy c) t = Idle" "todo c t = x # cs" "held c t = None" "\<forall>u. x \<noteq> TryLoop u"
    using t unfolding can_go_def by (metis not_None_eq)
  then show ?thesis
  proof cases
    case (1 r)
    then obtain e s where "act (live c) (t, Go) (sy c) = Some (e, s)"
      using safe by (cases r) (auto simp: goes_wrong_def act_def)
    then show ?thesis using client_step.go_on go_no_retry [of "live c" t c e s] by fastforce
  next
    case (2 p)
    then obtain st v where "cells c p = Some (st, v)" "how c t = Print \<or> st = Malloc"
      using safe by (auto simp: goes_wrong_def split: option.splits) (metis storage.exhaust)
    then show ?thesis using client_step.use_item [OF 2, of st v] by (auto simp: retry_def)
  next
    case (3 x cs)
    show ?thesis
    proof (cases x)
      case (Enq st v)
      obtain p where "p \<notin> dom (cells c)"
        using ex_new_if_finite [OF infinite_UNIV_nat cells_finite [OF c]] by blast
      then have p: "cells c p = None" by blast
      have "\<exists>a \<in> {1..<2 ^ 64}. a \<notin> dom (items (qu (sy c)))"
      proof (rule ccontr)
        assume "\<not> ?thesis"
        then have "{1..<2 ^ 64} \<subseteq> dom (items (qu (sy c)))" by blast
        then have "card {1..<2 ^ 64 :: nat} \<le> card (dom (items (qu (sy c))))"
          using items_bounded [OF c fin] by (intro card_mono) auto
        then show False using items_bounded [OF c fin] room by simp
      qed
      then obtain a where "0 < a" "a < 2 ^ 64" "items (qu (sy c)) a = None" by (auto simp: dom_def Suc_le_eq)
      then obtain s where s: "act (live c) (t, CallEnqueue a p) (sy c) = Some (Other, s)"
        using 3(1) by (auto simp: act_def enqueue_new_def)
      show ?thesis
        using client_step.start_enqueue [OF _ 3(3) p s] 3(2) Enq act_call(1) [OF s]
        by (fastforce simp: retry_def split: if_splits)
    next
      case (Deq u)
      then obtain s where s: "act (live c) (t, CallDequeue) (sy c) = Some (Other, s)"
        using 3(1) by (auto simp: act_def)
      show ?thesis
        using client_step.start_dequeue [OF _ 3(3) s] 3(2) Deq act_call(2) [OF s]
        by (fastforce simp: retry_def split: if_splits)
    qed (use 3(4) in simp)
  qed
qed

text \<open>Such a step leaves no more items to be taken out, and less to do.\<close>

lemma calm_measure:
  assumes c: "client_reach prog c es" and u: "uniform m prog"
    and s: "client_step c d c'" "\<not> retry c d c'"
  shows "(\<Sum>t\<in>users prog. deq_left c' t) \<le> (\<Sum>t\<in>users prog. deq_left c t) \<and>
    (\<Sum>t\<in>users prog. effort c' t) < (\<Sum>t\<in>users prog. effort c t)"
proof -
  have fin: "finite (users prog)" using u by (simp add: uniform_def)
  have inv: "progress_inv prog c" using client_reach_inv [OF c fin] by blast
  have "deq_left c' t \<le> deq_left c t" for t
  proof (cases "sy c' = sy c \<and> todo c' = todo c")
    case False
    then obtain v where "accounts c d c' v" using client_step_inv [OF s(1) inv] by blast
    then show ?thesis by (simp add: accounts_def)
  qed (simp add: deq_left_def)
  then have "(\<Sum>t\<in>users prog. deq_left c' t) \<le> (\<Sum>t\<in>users prog. deq_left c t)" by (simp add: sum_mono)
  moreover have "\<forall>t. held c t \<noteq> None \<longrightarrow> prog t \<noteq> []"
    using books_reach [OF c u] unfolding owner_inv_def by blast
  then obtain t j where t: "t \<in> users prog" "falls t j (effort c) (effort c')"
    using client_step_falls [OF s(1) inv] s(2) by auto
  have "(\<Sum>x\<in>users prog. effort c' x) + 1 \<le> (\<Sum>x\<in>users prog. effort c x)"
    by (rule falls_sum [OF t(2) fin t(1)])
  ultimately show ?thesis by simp
qed

text \<open>With an item in the queue and nobody in it, a \<open>tryDequeue\<close> takes the item.\<close>

lemma try_takes:
  assumes c: "client_reach prog c es" and u: "uniform m prog"
    and t: "pcs (sy c) t = Idle" "held c t = None" "todo c t = TryLoop h # cs"
    and free: "mutex (sy c) = None" and full: "count (qu (sy c)) \<noteq> 0"
  shows "\<exists>c' v. quiet c c' \<and> client_reach prog c' (es @ [Other, Other, Get v])"
proof -
  let ?c1 = "c\<lparr>sy := goto t TryLock (sy c), how := (how c)(t := h)\<rparr>"
  let ?c2 = "?c1\<lparr>sy := goto t TryBody ((sy ?c1)\<lparr>mutex := Some t\<rparr>)\<rparr>"
  have s1: "client_step c [Other] ?c1"
    by (rule client_step.start_try [OF t(3,2)]) (simp add: act_def t(1))
  have a2: "act (live ?c1) (t, Go) (sy ?c1) = Some (Other, sy ?c2)"
    using free by (simp add: act_def advance_def)
  have s2: "client_step ?c1 [Other] ?c2"
    using client_step.go_on [OF a2] by (simp add: handed_def)
  have r1: "client_reach prog ?c1 (es @ [Other])" using c s1 by (rule client_reach.client_next)
  have r2: "client_reach prog ?c2 ((es @ [Other]) @ [Other])" using r1 s2 by (rule client_reach.client_next)
  have "\<not> goes_wrong ?c2 t" using uniform_safe [OF r2 u] .
  moreover have "advance (live ?c2) t (sy ?c2) \<noteq> None" by (simp add: advance_def)
  ultimately obtain e s where a: "advance (live ?c2) t (sy ?c2) = Some (Ok (e, s))"
    unfolding goes_wrong_def by (metis not_None_eq run.exhaust surj_pair)
  then obtain v where v: "e = Get v"
    using full by (auto simp: advance_def tryDequeue_locked_def try_event_def)
  have "act (live ?c2) (t, Go) (sy ?c2) = Some (Get v, s)" using a v by (simp add: act_def)
  note s3 = client_step.go_on [OF this]
  have n1: "\<not> wakes c [Other] ?c1" and n2: "\<not> wakes ?c1 [Other] ?c2"
    by (simp_all add: wakes_def)
  have n3: "\<not> wakes ?c2 [Get v] c'" for c' by (simp add: wakes_def)
  have "quiet c (?c2\<lparr>sy := s, todo := (if pcs (sy ?c2) t = TryBody \<and> Get v \<noteq> Other
      then (todo ?c2)(t := tl (todo ?c2 t)) else todo ?c2), held := handed ?c2 t\<rparr>)"
    by (rule quiet_next [OF s1 n1 quiet_next [OF s2 n2 quiet_next [OF s3 n3 quiet_refl]]])
  moreover have "client_reach prog (?c2\<lparr>sy := s, todo := (if pcs (sy ?c2) t = TryBody \<and> Get v \<noteq> Other
      then (todo ?c2)(t := tl (todo ?c2 t)) else todo ?c2), held := handed ?c2 t\<rparr>)
      (es @ [Other, Other, Get v])"
    using client_reach.client_next [OF r2 s3] by simp
  ultimately show ?thesis by blast
qed

lemma empty_contains:
  assumes "reach rd s es" and "count (qu s) = 0" shows "contains (qu s) []"
proof -
  obtain as ws where inv: "sys_inv s as ws" using reach_inv [OF assms(1)] by blast
  then have "count (qu s) = of_nat (length as)" "length as < 2 ^ 64"
    by (simp_all add: sys_inv_def queue_inv_def holds_items_def)
  then have "as = []" using assms(2) by (auto simp: word_of_nat_eq_0_iff dest: dvd_imp_le)
  then show ?thesis using sys_inv_contains [OF inv] by simp
qed

text \<open>
  From every state the threads can come to their end without a wake-up that is not signalled: as long as a
  call can go on, it does, and otherwise a loop around \<open>tryDequeue\<close> finds an item.
\<close>

lemma all_can_finish:
  assumes u: "uniform m prog" and b: "balanced prog"
    and room: "(\<Sum>t\<in>users prog. enqs (prog t)) < 2 ^ 64 - 1"
  shows "client_reach prog c es \<Longrightarrow> \<exists>c'. quiet c c' \<and> (\<forall>t. finished c' t)"
proof (induction c arbitrary: es rule: wf_induct_rule [OF wf_measures [of
    "[\<lambda>c. \<Sum>t\<in>users prog. deq_left c t, \<lambda>c. \<Sum>t\<in>users prog. effort c t]"]])
  case (1 c)
  have fin: "finite (users prog)" using u by (simp add: uniform_def)
  note inv = client_reach_inv [OF 1(2) fin]
  have more: ?case if "quiet c c1" "client_reach prog c1 es1"
      "(c1, c) \<in> measures [\<lambda>c. \<Sum>t\<in>users prog. deq_left c t, \<lambda>c. \<Sum>t\<in>users prog. effort c t]" for c1 es1
    using 1(1) [OF that(3,2)] that(1) unfolding quiet_def by (meson rtranclp_trans)
  show ?case
  proof (cases "\<exists>t. can_go c t")
    case True
    then obtain d c' where s: "client_step c d c'" "\<not> retry c d c'"
      using can_go_steps [OF 1(2) u room] by blast
    show ?thesis
      using calm_measure [OF 1(2) u s] quiet_next [OF s(1) _ quiet_refl] wakes_retry [of c d c'] s(2)
      by (intro more [OF _ client_reach.client_next [OF 1(2) s(1)]]) (auto simp: le_less)
  next
    case False
    then have stay: "advance (live c) t (sy c) = None" "held c t = None"
        "pcs (sy c) t = Idle \<Longrightarrow> todo c t = x # cs \<Longrightarrow> \<exists>h. x = TryLoop h" for t x cs
      unfolding can_go_def by blast+
    have "\<forall>t. advance readable t (sy c) = None" using stay(1) advance_None by blast
    then have stuck: "mutex (sy c) = None" "\<forall>t. pcs (sy c) t = Idle \<or> pcs (sy c) t = DeqSleep"
      using stuck_state inv by blast+
    show ?thesis
    proof (cases "\<exists>t h cs. pcs (sy c) t = Idle \<and> todo c t = TryLoop h # cs")
      case True
      then obtain t h cs where t: "pcs (sy c) t = Idle" "todo c t = TryLoop h # cs" by blast
      have takers: "\<forall>u x cs. pcs (sy c) u = Idle \<longrightarrow> todo c u = x # cs \<longrightarrow> \<not> is_enq x"
        using stay(3) by fastforce
      have "count (qu (sy c)) \<noteq> 0"
        using nothing_left [OF 1(2) b stuck(2) takers, of t] empty_contains [of readable "sy c" es] inv t(2) by auto
      then obtain c' v where c': "quiet c c'" "client_reach prog c' (es @ [Other, Other, Get v])"
        using try_takes [OF 1(2) u t(1) stay(2) t(2) stuck(1)] by blast
      show ?thesis
        using inv client_reach_inv [OF c'(2) fin] by (intro more [OF c']) simp
    next
      case False
      then have over: "todo c t = []" if "pcs (sy c) t = Idle" for t
        using stay(3) [OF that] that by (cases "todo c t") auto
      then have "\<forall>t. blocked c t" using stay(1,2) by (simp add: blocked_def)
      then have "\<forall>t. finished c t" using clients_end [OF 1(2) b] stay(2) by (simp add: finished_def)
      then show ?thesis using quiet_refl by blast
    qed
  qed
qed

lemma threaded_test_size:
  assumes "prog \<in> set threaded_tests" shows "\<exists>n \<le> 10000. total prog n"
proof -
  note sizes = NUM_THREADS_def NUM_ITEMS_def NUM_THREADS_CONC_def NUM_THREADS_FIFO_def
  obtain n where n: "n \<in> {NUM_ITEMS, NUM_THREADS * NUM_ITEMS, NUM_THREADS * (NUM_ITEMS div 2), 1, 3, 100,
      NUM_THREADS_CONC, NUM_THREADS_FIFO}" "total prog n"
    using assms basic_total concurrent_total try_total mixed_total edge_total waiting_total
      basic_concurrent_total sleep_total multi_total fifo_total
    unfolding threaded_tests_def test_queue_main_def by auto
  moreover have "n \<le> 10000" using n(1) by (auto simp: sizes)
  ultimately show ?thesis by blast
qed

text \<open>
  C4: Termination of the threaded tests: in any interleaving a test makes at most 13 steps for every
  item that it enqueues, and 5 more for every call of \<open>tryDequeue\<close> and every wake-up without a signal;
  and wherever it is, its threads can all come to their end with the signals of the queue alone: there
  are further steps, none of them a wake-up without a signal, after which every thread has finished.
\<close>

theorem tests_terminate:
  assumes "prog \<in> set threaded_tests" and "client_runs prog c n k"
  shows "n \<le> 13 * (\<Sum>t\<in>users prog. enqs (prog t)) + 5 * k \<and>
    (\<exists>c'. quiet c c' \<and> (\<forall>t. finished c' t))"
proof -
  obtain m where m: "m \<le> 10000" "total prog m" using threaded_test_size [OF assms(1)] by blast
  then have same: "(\<Sum>t\<in>users prog. deqs (prog t)) = m" "(\<Sum>t\<in>users prog. enqs (prog t)) = m"
      and b: "balanced prog"
    by (simp_all add: total_def)
  obtain st where u: "uniform st prog" using threaded_test_uniform [OF assms(1)] by blast
  then have "n \<le> (\<Sum>t\<in>users prog. weight (prog t)) + 5 * k" using runs_bound [OF assms(2), of st] by linarith
  moreover have "(\<Sum>t\<in>users prog. weight (prog t)) \<le> (\<Sum>t\<in>users prog. 8 * enqs (prog t) + 5 * deqs (prog t))"
    by (intro sum_mono weight_calls)
  moreover obtain es where c: "client_reach prog c es" using client_runs_reach [OF assms(2)] by blast
  have "\<exists>c'. quiet c c' \<and> (\<forall>t. finished c' t)"
    by (rule all_can_finish [OF u b _ c]) (use same m(1) in simp)
  ultimately show ?thesis
    using same by (simp add: sum.distrib sum_distrib_left [symmetric])
qed

lemma client_acts_runs:
  "client_runs prog c n k \<Longrightarrow> client_acts xs c = Some (es, c') \<Longrightarrow>
   \<exists>k'. client_runs prog c' (n + length xs) k'"
proof (induction xs arbitrary: c es n k)
  case (Cons x xs)
  obtain d c1 where x: "client_act x c = Some (d, c1)"
    using Cons.prems(2) by (cases "client_act x c") auto
  then obtain es2 where xs: "client_acts xs c1 = Some (es2, c')"
    using Cons.prems(2) by (auto split: option.splits)
  have "client_runs prog c1 (Suc n) (k + of_bool (retry c d c1))"
    using Cons.prems(1) client_act_step [OF x] by (rule client_runs.runs_next)
  then show ?case using Cons.IH [OF _ xs] by fastforce
qed auto

text \<open>The state in which the consumer of the edge case sleeps and nothing has been enqueued.\<close>

theorem tests_terminate_witness:
  "\<exists>c k. client_runs edge_case_test c 4 k \<and> pcs (sy c) 1 = DeqSleep \<and> todo c 0 = [Enq Malloc 42] \<and>
     4 \<le> 13 * (\<Sum>t\<in>users edge_case_test. enqs (edge_case_test t)) + 5 * k \<and>
     (\<exists>c'. quiet c c' \<and> (\<forall>t. finished c' t))"
proof -
  have "\<exists>c es. client_acts (take 4 edge_case_run) (clients_init edge_case_test) = Some (es, c) \<and>
      pcs (sy c) 1 = DeqSleep \<and> todo c 0 = [Enq Malloc 42]"
    by (simp add: edge_case_run_def client_act_def edge_case_test_def limited_consumer_thread_def
        clients_init_def handed_def live_def evaluate)
  then obtain c es where c: "client_acts (take 4 edge_case_run) (clients_init edge_case_test) = Some (es, c)"
      "pcs (sy c) 1 = DeqSleep" "todo c 0 = [Enq Malloc 42]"
    by blast
  moreover have "length (take 4 edge_case_run) = 4" by (simp add: edge_case_run_def)
  ultimately obtain k where k: "client_runs edge_case_test c 4 k"
    using client_acts_runs [OF client_runs.runs_init] by fastforce
  have "edge_case_test \<in> set threaded_tests" by (simp add: threaded_tests_def test_queue_main_def)
  then show ?thesis using tests_terminate [OF _ k] k c(2,3) by blast
qed

end
