(* ===== verification/Pcc_Wire.thy ===== *)
theory Pcc_Wire
  imports C_Stdlib
begin

text \<open>
  The stream sockets of \<open>hw5\<close> as both programs see them. Sockets are the operating system's:
  what each \<open>recv\<close> and \<open>send\<close> does is data of the model. A receiving side is the list of
  pieces in which the peer's bytes arrive; \<open>recv\<close> returns at most the requested bytes of the
  first piece and leaves the rest for the next call, returns 0 when the list is used up (the
  peer has closed) and -1 for an error. A sending side is the list of how much each \<open>send\<close>
  takes, which may be less than was asked.
\<close>

section \<open>Receiving\<close>

text \<open>\<open>Piece b bs\<close> is the non-empty run of bytes \<open>b # bs\<close>.\<close>

datatype rx_event = Piece u8 "u8 list" | RxErr

type_synonym rx = "rx_event list"

text \<open>The result is the value \<open>recv\<close> returns, the bytes it stored, and what is left.\<close>

fun recv :: "nat \<Rightarrow> rx \<Rightarrow> int \<times> u8 list \<times> rx" where
  "recv n [] = (0, [], [])"
| "recv n (RxErr # r) = (-1, [], r)"
| "recv n (Piece b bs # r) =
     (let got = take n (b # bs)
      in (int (length got), got,
          (case drop n (b # bs) of [] \<Rightarrow> r | c # cs \<Rightarrow> Piece c cs # r)))"

fun stream :: "rx \<Rightarrow> u8 list" where
  "stream [] = []"
| "stream (RxErr # r) = []"
| "stream (Piece b bs # r) = b # bs @ stream r"

text \<open>No error before the end of the stream.\<close>

fun clean :: "rx \<Rightarrow> bool" where
  "clean [] = True"
| "clean (RxErr # r) = False"
| "clean (Piece b bs # r) = clean r"

lemma recv_Piece:
  assumes "recv n (Piece b bs # r) = (k, got, r')" and "0 < n"
  shows "0 < k \<and> k = int (length got) \<and> got \<noteq> [] \<and> length got \<le> n \<and>
    got @ stream r' = b # bs @ stream r \<and> clean r' = clean r"
proof -
  have e: "take n (b # bs) @ drop n (b # bs) = b # bs" by simp
  show ?thesis
  proof (cases "drop n (b # bs)")
    case Nil
    then have "take n (b # bs) = b # bs" using e by simp
    then show ?thesis using assms Nil by (auto simp: Let_def)
  next
    case (Cons c cs)
    then have "take n (b # bs) @ c # cs = b # bs" using e by simp
    then show ?thesis using assms Cons by (cases n) (auto simp: Let_def)
  qed
qed

section \<open>Sending\<close>

text \<open>
  \<open>Took k\<close>: this \<open>send\<close> takes at most \<open>k + 1\<close> bytes. \<open>TxErr\<close>: it fails. \<open>TxPipe\<close>: the
  peer has closed, and the \<open>SIGPIPE\<close> that neither program handles ends the process (status
  141 as a shell reports it). With nothing listed, everything is taken.
\<close>

datatype tx_event = Took nat | TxErr | TxPipe

type_synonym tx = "tx_event list"

fun send :: "u8 list \<Rightarrow> tx \<Rightarrow> (int \<times> u8 list \<times> tx) run" where
  "send bs [] = Ok (int (length bs), bs, [])"
| "send bs (TxErr # r) = Ok (-1, [], r)"
| "send bs (TxPipe # r) = Exit 141"
| "send bs (Took k # r) = Ok (int (length (take (Suc k) bs)), take (Suc k) bs, r)"

definition no_tx_failure :: "tx \<Rightarrow> bool" where
  "no_tx_failure t \<longleftrightarrow> TxErr \<notin> set t \<and> TxPipe \<notin> set t"

section \<open>Messages\<close>

text \<open>What a request consists of on the wire: the size in network byte order, the bytes.\<close>

definition request :: "u8 list \<Rightarrow> u8 list" where
  "request body = be32 (of_nat (length body)) @ body"

text \<open>The bytes that count: the specification's range of byte values.\<close>

definition printable_byte :: "u8 \<Rightarrow> bool" where
  "printable_byte b \<longleftrightarrow> 32 \<le> unat b \<and> unat b \<le> 126"

definition printables :: "u8 list \<Rightarrow> nat" where
  "printables bs = length (filter printable_byte bs)"

lemma printables_simps [simp]:
  "printables [] = 0"
  "printables (b # bs) = (if printable_byte b then Suc (printables bs) else printables bs)"
  "printables (bs @ cs) = printables bs + printables cs"
  by (simp_all add: printables_def)

lemma printables_le: "printables bs \<le> length bs"
  by (simp add: printables_def)

end
