(* ===== verification/Pcc_Server.thy ===== *)
theory Pcc_Server
  imports Pcc_Wire
begin

text \<open>
  The printable-characters server, \<open>hw5/pcc_server.c\<close>: the global counters, the handling of
  one client (\<open>count_printable_characters\<close>), the \<open>SIGINT\<close> handler and \<open>main\<close>. The theorems
  say what a client gets back and what it adds to the counters, for every way its bytes may be
  split into \<open>recv\<close> results, and that a connection that breaks off adds nothing.
\<close>

section \<open>Counting\<close>

definition BUFFER_SIZE :: nat where
  "BUFFER_SIZE = 1024"

definition PRINTABLE_CHAR_MIN :: int where
  "PRINTABLE_CHAR_MIN = 32"

definition PRINTABLE_CHAR_MAX :: int where
  "PRINTABLE_CHAR_MAX = 126"

definition NUM_PRINTABLE_CHARS :: nat where
  "NUM_PRINTABLE_CHARS = nat (PRINTABLE_CHAR_MAX - PRINTABLE_CHAR_MIN + 1)"

text \<open>The test of a buffer element, a \<open>char\<close>, which is signed on the target.\<close>

definition is_printable :: "u8 \<Rightarrow> bool" where
  "is_printable b \<longleftrightarrow> sint b \<ge> PRINTABLE_CHAR_MIN \<and> sint b \<le> PRINTABLE_CHAR_MAX"

text \<open>
  The loop over one buffer: \<open>printable_chars_local\<close> and \<open>printable_count\<close>, both of 32 bits.
\<close>

fun tally :: "u8 list \<Rightarrow> u32 list \<times> u32 \<Rightarrow> u32 list \<times> u32" where
  "tally [] (loc, n) = (loc, n)"
| "tally (b # bs) (loc, n) =
     (if is_printable b
      then (let i = nat (sint b - PRINTABLE_CHAR_MIN)
            in tally bs (loc[i := loc ! i + 1], n + 1))
      else tally bs (loc, n))"

text \<open>
  The loop \<open>while (file_size > 0)\<close>: \<open>Inl\<close> is the message of the early return, \<open>Inr\<close> the
  counts at the end; with them, what is left to receive.
\<close>

function recv_loop :: "u32 \<Rightarrow> rx \<Rightarrow> u32 list \<times> u32 \<Rightarrow> (string + u32 list \<times> u32) \<times> rx" where
  "recv_loop file_size r acc =
     (if file_size = 0 then (Inr acc, r)
      else
        (let to_read = (if unat file_size < BUFFER_SIZE then unat file_size else BUFFER_SIZE)
         in case recv to_read r of (bytes_read, buffer, r') \<Rightarrow>
              if bytes_read \<le> 0
              then (Inl (if bytes_read = 0 then ''Client closed the connection unexpectedly''
                         else ''Error receiving file content''), r')
              else recv_loop (file_size - word_of_int bytes_read) r' (tally buffer acc)))"
  by pat_completeness auto

lemma recv_bounds:
  assumes "recv n r = (k, got, r')" and "0 < k" and "0 < n"
  shows "k = int (length got) \<and> 0 < length got \<and> length got \<le> n"
proof (cases "(n, r)" rule: recv.cases)
  case (3 m b bs rs)
  then show ?thesis using assms recv_Piece [of n b bs rs k got r'] by auto
qed (use assms in auto)

lemma unat_minus_bytes:
  assumes "k \<le> unat (sz :: u32)" shows "unat (sz - word_of_int (int k)) = unat sz - k"
proof -
  have bound: "unat sz < 2 ^ 32" using unsigned_less [of sz] by simp
  have k: "unat (of_nat k :: u32) = k"
    using assms bound by (simp add: unat_of_nat take_bit_nat_def)
  then show ?thesis using assms by (simp add: unat_sub word_le_nat_alt)
qed

termination recv_loop
proof (relation "measure (\<lambda>(sz, _, _). unat sz)", simp)
  fix sz :: u32 and r acc to_read k y got r'
  assume nz: "sz \<noteq> 0"
    and t: "to_read = (if unat sz < BUFFER_SIZE then unat sz else BUFFER_SIZE)"
    and x: "(k, y) = recv to_read r" "(got, r') = y" and k: "\<not> k \<le> 0"
  have "0 < to_read" "to_read \<le> unat sz"
    using nz t by (auto simp: BUFFER_SIZE_def unat_gt_0 split: if_splits)
  moreover then have k: "k = int (length got) \<and> 0 < length got \<and> length got \<le> to_read"
    using recv_bounds [of to_read r k got r'] x k by auto
  ultimately have "unat (sz - word_of_int k) = unat sz - length got"
    using unat_minus_bytes [of "length got" sz] by simp
  moreover have "unat sz - length got < unat sz"
    using k \<open>0 < to_read\<close> \<open>to_read \<le> unat sz\<close> by (intro diff_less) simp_all
  ultimately show "((sz - word_of_int k, r', tally got acc), (sz, r, acc))
      \<in> measure (\<lambda>(sz, _, _). unat sz)"
    by simp
qed

declare recv_loop.simps [simp del]

section \<open>One client\<close>

record server =
  pcc_total :: "u32 list"
  serr :: "string list"
  sout :: "string list"

definition server_init :: server where
  "server_init =
     \<lparr>pcc_total = replicate NUM_PRINTABLE_CHARS 0, serr = [], sout = []\<rparr>"

text \<open>The loop that adds the local counts to the totals, after its first \<open>n\<close> iterations.\<close>

fun add_totals :: "nat \<Rightarrow> u32 list \<Rightarrow> u32 list \<Rightarrow> u32 list" where
  "add_totals 0 loc tot = tot"
| "add_totals (Suc n) loc tot =
     (let tot' = add_totals n loc tot in tot'[n := tot' ! n + loc ! n])"

text \<open>
  A connection: what arrives, how sends go, and the indeterminate value that
  \<open>net_file_size\<close> holds before the first \<open>recv\<close>. The result is the new server state and the
  bytes sent to the client.
\<close>

record conn =
  crx :: rx
  ctx :: tx
  junk :: u32

definition complain :: "string \<Rightarrow> server \<Rightarrow> server" where
  "complain msg s = s\<lparr>serr := serr s @ [msg]\<rparr>"

text \<open>The function up to the reply: the message of an early return, or the counts of the file.\<close>

definition receive_file :: "conn \<Rightarrow> string + u32 list \<times> u32" where
  "receive_file c =
     (case recv 4 (crx c) of (received_bytes, header, r) \<Rightarrow>
        if received_bytes \<le> 0
        then Inl (if received_bytes = 0 then ''Client closed the connection unexpectedly''
                  else ''Error receiving file size'')
        else
          (let net_file_size = u32_of_bytes (header @ drop (length header) (u32_bytes (junk c)));
               file_size = ntohl net_file_size
           in fst (recv_loop file_size r (replicate NUM_PRINTABLE_CHARS 0, 0))))"

text \<open>
  A moment of \<open>count_printable_characters\<close>, as it is seen from outside: the bytes sent so far and the
  globals. \<open>serve_moments\<close> has the moments of a run in their order, one for each change of what is
  seen, and the result. Up to the reply the function changes only its local variables, so all
  of this is the first moment; then there is one after \<open>send\<close> and one after each round of the last loop.
\<close>

type_synonym moment = "u8 list \<times> server"

definition serve_moments :: "conn \<Rightarrow> server \<Rightarrow> moment list \<times> moment run" where
  "serve_moments c s =
     (case receive_file c of
        Inl msg \<Rightarrow> ([([], s)], Ok ([], complain msg s))
      | Inr (loc, printable_count) \<Rightarrow>
          (case send (u32_bytes (htonl printable_count)) (ctx c) of
             Ok (res, sent, _) \<Rightarrow>
               if res < 0
               then ([([], s)], Ok ([], complain ''Error sending printable character count'' s))
               else
                 (let after = (\<lambda>i. (sent, s\<lparr>pcc_total := add_totals i loc (pcc_total s)\<rparr>))
                  in (([], s) # map after [0..<Suc NUM_PRINTABLE_CHARS], Ok (after NUM_PRINTABLE_CHARS)))
           | Exit n \<Rightarrow> ([([], s)], Exit n)
           | Fault f \<Rightarrow> ([([], s)], Fault f)))"

definition count_printable_characters :: "conn \<Rightarrow> server \<Rightarrow> (u8 list \<times> server) run" where
  "count_printable_characters c s = snd (serve_moments c s)"

section \<open>The signal handler and the main loop\<close>

definition stat_line :: "u32 list \<Rightarrow> nat \<Rightarrow> string" where
  "stat_line tot i =
     ''char '' @ [CHR 0x27, char_of (i + nat PRINTABLE_CHAR_MIN), CHR 0x27] @ '' : '' @
     decimal (unat (tot ! i)) @ '' times''"

definition handle_sigint :: "server \<Rightarrow> server" where
  "handle_sigint s =
     s\<lparr>sout := sout s @ map (stat_line (pcc_total s)) [0..<NUM_PRINTABLE_CHARS]\<rparr>"

text \<open>
  The handler can run at any moment of \<open>count_printable_characters\<close>; here at the \<open>n\<close>th, or behind the
  last one if there are not as many, unless the process has ended before.
\<close>

definition at_signal :: "nat \<Rightarrow> conn \<Rightarrow> server \<Rightarrow> moment run" where
  "at_signal n c s =
     (case serve_moments c s of (ms, result) \<Rightarrow> if n < length ms then Ok (ms ! n) else result)"

text \<open>
  What happens at \<open>accept\<close>: a client, the delivery of \<open>SIGINT\<close> (the handler prints and
  exits), an interruption by another signal, another error, or a client during whose service
  \<open>SIGINT\<close> is delivered. The loop runs over what happens;
  it ends with the state in which the server waits for more, or with an exit status.
\<close>

datatype accept_event = Client conn | Sigint | AcceptIntr | AcceptErr | ClientSigint conn nat

datatype status = Waiting | Ended int

fun server_loop :: "accept_event list \<Rightarrow> server \<Rightarrow> server \<times> status" where
  "server_loop [] s = (s, Waiting)"
| "server_loop (Sigint # es) s = (handle_sigint s, Ended 0)"
| "server_loop (AcceptIntr # es) s = (s, Ended 0)"
| "server_loop (AcceptErr # es) s =
     server_loop es (complain ''Error accepting connection'' s)"
| "server_loop (Client c # es) s =
     (case count_printable_characters c s of
        Ok (sent, s') \<Rightarrow> server_loop es s'
      | Exit n \<Rightarrow> (s, Ended n)
      | Fault f \<Rightarrow> (s, Ended (-1)))"
| "server_loop (ClientSigint c n # es) s =
     (case at_signal n c s of
        Ok (sent, s') \<Rightarrow> (handle_sigint s', Ended 0)
      | Exit n \<Rightarrow> (s, Ended n)
      | Fault f \<Rightarrow> (s, Ended (-1)))"

text \<open>The outcomes of the system calls that set the server up.\<close>

record net_setup =
  sigaction_ok :: bool
  socket_ok :: bool
  setsockopt_ok :: bool
  bind_ok :: "16 word \<Rightarrow> bool"
  listen_ok :: bool

definition server_print_error_and_exit :: "string \<Rightarrow> server \<times> status" where
  "server_print_error_and_exit msg = (complain msg server_init, Ended 1)"

definition server_main :: "net_setup \<Rightarrow> string list \<Rightarrow> accept_event list \<Rightarrow> server \<times> status" where
  "server_main e argv es =
     (if length argv \<noteq> 2 then (complain ''Usage'' server_init, Ended 1)
      else
        (let server_port = atoi (argv ! 1)
         in if \<not> sigaction_ok e then server_print_error_and_exit ''Error setting up SIGINT handler''
            else if \<not> socket_ok e then server_print_error_and_exit ''Error creating socket''
            else if \<not> setsockopt_ok e then server_print_error_and_exit ''Error setting socket options''
            else if \<not> bind_ok e (ucast server_port) then server_print_error_and_exit ''Error binding socket''
            else if \<not> listen_ok e then server_print_error_and_exit ''Error listening on socket''
            else server_loop es server_init))"

section \<open>What is counted\<close>

text \<open>The reference: how often each printable character occurs, as 32-bit counters.\<close>

definition histogram :: "u8 list \<Rightarrow> u32 list" where
  "histogram bs = map (\<lambda>i. of_nat (count_list bs (of_nat (i + 32)))) [0..<95]"

definition add_counts :: "u32 list \<Rightarrow> u32 list \<Rightarrow> u32 list" where
  "add_counts xs ys = map2 (+) xs ys"

lemma num_chars [simp]: "NUM_PRINTABLE_CHARS = 95"
  by (simp add: NUM_PRINTABLE_CHARS_def PRINTABLE_CHAR_MIN_def PRINTABLE_CHAR_MAX_def)

lemma sint_u8: "sint (b :: u8) = (if uint b < 128 then uint b else uint b - 256)"
proof -
  have b: "uint b < 256" "0 \<le> uint b" using uint_lt2p [of b] by simp_all
  have "sint b = (uint b + 128) mod 256 - 128"
    by (simp add: sint_uint signed_take_bit_eq_take_bit_shift take_bit_eq_mod)
  also have "\<dots> = (if uint b < 128 then uint b else uint b - 256)"
  proof (cases "uint b < 128")
    case True
    then show ?thesis using b by (simp add: mod_pos_pos_trivial)
  next
    case False
    then have "(uint b + 128) mod 256 = (uint b - 128) mod 256"
      using mod_add_self2 [of "uint b - 128" 256] by (simp add: algebra_simps)
    moreover have "(uint b - 128) mod 256 = uint b - 128"
      using b False by (intro mod_pos_pos_trivial) simp_all
    ultimately show ?thesis using False by simp
  qed
  finally show ?thesis .
qed

lemma printable_byte_uint: "printable_byte b \<longleftrightarrow> 32 \<le> uint b \<and> uint b \<le> 126"
  unfolding printable_byte_def unat_eq_nat_uint by (auto simp del: nat_uint_eq)

lemma is_printable_iff [simp]: "is_printable b = printable_byte b"
  unfolding is_printable_def PRINTABLE_CHAR_MIN_def PRINTABLE_CHAR_MAX_def
    sint_u8 printable_byte_uint
  using uint_lt2p [of b] by auto

lemma printable_index:
  assumes "printable_byte b"
  shows "nat (sint b - PRINTABLE_CHAR_MIN) = unat b - 32"
proof -
  have b: "32 \<le> uint b" "uint b \<le> 126" using assms by (simp_all add: printable_byte_uint)
  then have "sint b = uint b" by (simp add: sint_u8)
  then have "nat (sint b - PRINTABLE_CHAR_MIN) = nat (uint b - 32)"
    by (simp only: PRINTABLE_CHAR_MIN_def)
  also have "\<dots> = nat (uint b) - nat 32" using b by (intro nat_diff_distrib) simp_all
  finally show ?thesis by simp
qed

lemma unat_char [simp]: "i < 95 \<Longrightarrow> unat (of_nat i + 32 :: u8) = i + 32"
  by (simp add: unat_word_ariths unat_of_nat take_bit_nat_def)

lemma tally_append: "tally (xs @ ys) acc = tally ys (tally xs acc)"
  by (induction xs acc rule: tally.induct) (simp_all add: Let_def)

lemma length_histogram [simp]: "length (histogram bs) = 95"
  by (simp add: histogram_def)

lemma length_add_counts [simp]: "length (add_counts xs ys) = min (length xs) (length ys)"
  by (simp add: add_counts_def)

lemma histogram_append: "histogram (xs @ ys) = add_counts (histogram xs) (histogram ys)"
  by (rule nth_equalityI) (simp_all add: histogram_def add_counts_def)

lemma add_counts_assoc: "add_counts (add_counts xs ys) zs = add_counts xs (add_counts ys zs)"
  by (rule nth_equalityI) (simp_all add: add_counts_def add.assoc)

lemma histogram_Nil: "histogram [] = replicate 95 0"
  by (rule nth_equalityI) (simp_all add: histogram_def)

lemma add_counts_Nil [simp]: "length xs = 95 \<Longrightarrow> add_counts xs (histogram []) = xs"
  by (rule nth_equalityI) (simp_all add: histogram_Nil add_counts_def)

lemma histogram_single:
  assumes "printable_byte b"
  shows "histogram [b] = (replicate 95 0)[unat b - 32 := 1]"
proof (rule nth_equalityI)
  fix i assume i: "i < length (histogram [b])"
  have "b = of_nat (i + 32) \<longleftrightarrow> unat b - 32 = i"
    using assms i by (auto simp: printable_byte_def word_unat_eq_iff)
  then show "histogram [b] ! i = (replicate 95 0)[unat b - 32 := 1] ! i"
    using i by (auto simp: histogram_def nth_list_update)
qed simp

lemma histogram_skip:
  assumes "\<not> printable_byte b"
  shows "histogram [b] = replicate 95 0"
proof (rule nth_equalityI)
  fix i assume i: "i < length (histogram [b])"
  have "b \<noteq> of_nat (i + 32)"
    using assms i by (auto simp: printable_byte_def)
  then show "histogram [b] ! i = replicate 95 0 ! i" using i by (simp add: histogram_def)
qed simp

lemma tally_eq:
  "length loc = 95 \<Longrightarrow>
   tally bs (loc, n) = (add_counts loc (histogram bs), n + of_nat (printables bs))"
proof (induction bs arbitrary: loc n)
  case Nil
  then show ?case by simp
next
  case (Cons b bs)
  show ?case
  proof (cases "printable_byte b")
    case True
    let ?i = "unat b - 32"
    have i: "nat (sint b - PRINTABLE_CHAR_MIN) = ?i" "?i < 95"
      using printable_index [OF True] True by (auto simp: printable_byte_def)
    have "loc[?i := loc ! ?i + 1] = add_counts loc (histogram [b])"
      by (rule nth_equalityI)
        (use Cons.prems True i in \<open>auto simp: histogram_single add_counts_def nth_list_update\<close>)
    moreover have "histogram (b # bs) = add_counts (histogram [b]) (histogram bs)"
      using histogram_append [of "[b]" bs] by simp
    ultimately show ?thesis
      using Cons True i by (simp add: Let_def add_counts_assoc)
  next
    case False
    have "add_counts loc (histogram [b]) = loc"
      using False Cons.prems by (simp add: histogram_skip flip: histogram_Nil)
    moreover have "histogram (b # bs) = add_counts (histogram [b]) (histogram bs)"
      using histogram_append [of "[b]" bs] by simp
    ultimately show ?thesis
      using Cons False by (simp flip: add_counts_assoc)
  qed
qed

lemma add_totals_nth:
  "length tot = 95 \<Longrightarrow> n \<le> 95 \<Longrightarrow> length (add_totals n loc tot) = 95 \<and>
   (\<forall>i < 95. add_totals n loc tot ! i = (if i < n then tot ! i + loc ! i else tot ! i))"
  by (induction n) (auto simp: Let_def nth_list_update less_Suc_eq)

lemma add_totals_eq:
  assumes "length tot = 95" and "length loc = 95"
  shows "add_totals 95 loc tot = add_counts tot loc"
  using add_totals_nth [OF assms(1), of 95 loc] assms
  by (intro nth_equalityI) (simp_all add: add_counts_def)

section \<open>Receiving the body\<close>

text \<open>
  The loop succeeds exactly if enough bytes come before the end or an error, and then its
  result depends on the bytes only, not on how they were cut.
\<close>

lemma recv_loop_result:
  "(if unat sz \<le> length (stream r)
    then fst (recv_loop sz r acc) = Inr (tally (take (unat sz) (stream r)) acc)
    else \<exists>msg. fst (recv_loop sz r acc) = Inl msg)"
proof (induction sz r acc rule: recv_loop.induct)
  case (1 sz r acc)
  let ?n = "if unat sz < BUFFER_SIZE then unat sz else BUFFER_SIZE"
  show ?case
  proof (cases "sz = 0")
    case True
    then show ?thesis by (cases acc) (simp add: recv_loop.simps)
  next
    case nz: False
    then have n: "0 < ?n" "?n \<le> unat sz" by (auto simp: BUFFER_SIZE_def unat_gt_0)
    obtain k got r' where rv: "recv ?n r = (k, got, r')" by (metis prod_cases3)
    show ?thesis
    proof (cases "k \<le> 0")
      case True
      have "stream r = []"
      proof (cases r)
        case (Cons e es)
        then show ?thesis using rv True n(1) by (cases e) (auto dest: recv_Piece)
      qed simp
      then show ?thesis using nz rv True unat_gt_0 [of sz]
        by (subst recv_loop.simps, subst (2) recv_loop.simps) (auto simp: Let_def)
    next
      case False
      then obtain b bs es where "r = Piece b bs # es"
        using rv by (cases "(?n, r)" rule: recv.cases) auto
      then have p: "k = int (length got)" "0 < length got" "length got \<le> ?n"
          "got @ stream r' = stream r"
        using recv_Piece [of ?n b bs es k got r'] rv n by auto
      have "length got \<le> unat sz" using p(3) n(2) by (rule le_trans)
      then have u: "unat (sz - word_of_int k) = unat sz - length got"
        unfolding p(1) by (rule unat_minus_bytes)
      have step: "recv_loop sz r acc = recv_loop (sz - word_of_int k) r' (tally got acc)"
        using nz rv False by (subst recv_loop.simps) (simp add: Let_def)
      have IH: "(if unat (sz - word_of_int k) \<le> length (stream r')
        then fst (recv_loop (sz - word_of_int k) r' (tally got acc)) =
          Inr (tally (take (unat (sz - word_of_int k)) (stream r')) (tally got acc))
        else \<exists>msg. fst (recv_loop (sz - word_of_int k) r' (tally got acc)) = Inl msg)"
        using "1.IH" [OF nz refl rv [symmetric] refl False] .
      have len: "length (stream r) = length got + length (stream r')"
        using p(4) by (metis length_append)
      have "take (unat sz) (stream r) = got @ take (unat sz - length got) (stream r')"
        using p n by (metis append_take_drop_id le_trans take_append take_all_iff)
      then show ?thesis using IH u step len p n by (simp add: tally_append split: if_splits)
    qed
  qed
qed

section \<open>What one client gets and adds\<close>

text \<open>
  The abstract view of a connection: the body of the request, if it arrives as a whole.
\<close>

definition delivered :: "conn \<Rightarrow> u8 list option" where
  "delivered c =
     (case recv 4 (crx c) of (k, header, r) \<Rightarrow>
        let n = unat (ntohl (u32_of_bytes (header @ drop (length header) (u32_bytes (junk c)))))
        in if 0 < k \<and> n \<le> length (stream r) then Some (take n (stream r)) else None)"

text \<open>The reply of four bytes goes out with the first \<open>send\<close>.\<close>

fun takes_reply :: "tx \<Rightarrow> bool" where
  "takes_reply [] = True"
| "takes_reply (Took k # t) = (3 \<le> k)"
| "takes_reply (TxErr # t) = False"
| "takes_reply (TxPipe # t) = False"

lemma send_reply: "takes_reply t \<Longrightarrow> \<exists>t'. send (be32 w) t = Ok (4, be32 w, t')"
  by (cases t rule: takes_reply.cases) (simp_all add: min_def)

lemma moments_broken:
  assumes "delivered c = None"
  shows "\<exists>msg. serve_moments c s = ([([], s)], Ok ([], complain msg s))"
proof -
  obtain k h r where rv: "recv 4 (crx c) = (k, h, r)" by (metis prod_cases3)
  let ?n = "ntohl (u32_of_bytes (h @ drop (length h) (u32_bytes (junk c))))"
  show ?thesis
  proof (cases "0 < k")
    case True
    then have "\<not> unat ?n \<le> length (stream r)"
      using assms rv by (simp add: delivered_def Let_def split: if_splits)
    then obtain msg where "fst (recv_loop ?n r (replicate NUM_PRINTABLE_CHARS 0, 0)) = Inl msg"
      using recv_loop_result [of ?n r "(replicate NUM_PRINTABLE_CHARS 0, 0)"] by auto
    then show ?thesis
      using rv True by (intro exI [of _ msg]) (simp add: serve_moments_def receive_file_def Let_def)
  qed (auto simp: serve_moments_def receive_file_def rv)
qed

lemma receive_whole:
  assumes "delivered c = Some body"
  shows "receive_file c = Inr (histogram body, of_nat (printables body))"
proof -
  obtain k h r where rv: "recv 4 (crx c) = (k, h, r)" by (metis prod_cases3)
  let ?n = "ntohl (u32_of_bytes (h @ drop (length h) (u32_bytes (junk c))))"
  let ?acc = "(replicate NUM_PRINTABLE_CHARS 0, 0)"
  have k: "0 < k" and n: "unat ?n \<le> length (stream r)" and body: "body = take (unat ?n) (stream r)"
    using assms rv by (simp_all add: delivered_def Let_def split: if_splits)
  have h: "add_counts (replicate 95 0) (histogram body) = histogram body"
    by (rule nth_equalityI) (simp_all add: add_counts_def)
  have "fst (recv_loop ?n r ?acc) = Inr (tally body ?acc)"
    using recv_loop_result [of ?n r ?acc] n body by simp
  also have "tally body ?acc = (histogram body, of_nat (printables body))"
    using h by (simp add: tally_eq)
  finally show ?thesis using rv k by (simp add: receive_file_def Let_def)
qed

lemma count_broken:
  assumes "delivered c = None"
  shows "\<exists>msg. count_printable_characters c s = Ok ([], complain msg s)"
  using moments_broken [OF assms, of s] by (auto simp: count_printable_characters_def)

lemma count_whole:
  assumes "delivered c = Some body" and "length (pcc_total s) = 95"
  shows "count_printable_characters c s =
    bindR (send (be32 (of_nat (printables body))) (ctx c)) (\<lambda>(res, sent, _).
      if res < 0 then Ok ([], complain ''Error sending printable character count'' s)
      else Ok (sent, s\<lparr>pcc_total := add_counts (pcc_total s) (histogram body)\<rparr>))"
  using add_totals_eq [OF assms(2) length_histogram, of body]
  by (cases "send (be32 (of_nat (printables body))) (ctx c)")
    (auto simp: count_printable_characters_def serve_moments_def receive_whole [OF assms(1)] u32_bytes_htonl
      Let_def split: prod.split)

text \<open>The client protocol: the header comes with the first \<open>recv\<close>, then the body.\<close>

definition header_first :: "rx \<Rightarrow> bool" where
  "header_first r \<longleftrightarrow> (\<exists>b bs r'. r = Piece b bs # r' \<and> 3 \<le> length bs)"

lemma delivered_request:
  assumes "header_first (crx c)" and "stream (crx c) = request body @ extra"
    and "length body < 2 ^ 32"
  shows "delivered c = Some body"
proof -
  obtain b bs r where c: "crx c = Piece b bs # r" and bs: "3 \<le> length bs"
    using assms(1) by (auto simp: header_first_def)
  obtain k h r' where rv: "recv 4 (crx c) = (k, h, r')" by (metis prod_cases3)
  have "h = take 4 (b # bs)" using rv c by (auto simp: Let_def)
  then have "length h = 4" using bs by simp
  moreover have "0 < k" and "h @ stream r' = request body @ extra"
    using recv_Piece [of 4 b bs r k h r'] rv c assms(2) by simp_all
  ultimately have "0 < k" "h = be32 (of_nat (length body))" "stream r' = body @ extra"
      "length h = 4"
    by (simp_all add: request_def append_eq_append_conv)
  moreover have "unat (of_nat (length body) :: u32) = length body"
    using assms(3) by (simp add: unat_of_nat take_bit_nat_def)
  ultimately show ?thesis
    by (simp add: delivered_def rv Let_def ntohl_be32)
qed

text \<open>
  C10: A client whose header arrives in one piece is answered with the number of printable
  bytes of its file, in network byte order, and the global statistics grow by the counts of
  exactly these bytes, no matter how the network cuts the stream into \<open>recv\<close> results
  and what follows the file on the stream.
\<close>

theorem serve_request:
  assumes "header_first (crx c)" and "stream (crx c) = request body @ extra"
    and "length body < 2 ^ 32" and "takes_reply (ctx c)" and "length (pcc_total s) = 95"
  shows "count_printable_characters c s =
    Ok (be32 (of_nat (printables body)),
        s\<lparr>pcc_total := add_counts (pcc_total s) (histogram body)\<rparr>)"
  using count_whole [OF delivered_request [OF assms(1,2,3)] assms(5)]
    send_reply [OF assms(4), of "of_nat (printables body)"] by fastforce

theorem serve_request_witness:
  "count_printable_characters
     \<lparr>crx = [Piece 0 [0, 0, 3, 65], Piece 10 [], Piece 66 [67]], ctx = [], junk = 9\<rparr>
     server_init =
   Ok (be32 2, server_init\<lparr>pcc_total :=
                 add_counts (pcc_total server_init) (histogram [65, 10, 66])\<rparr>)"
  using serve_request [of "\<lparr>crx = [Piece 0 [0, 0, 3, 65], Piece 10 [], Piece 66 [67]],
      ctx = [], junk = 9\<rparr>" "[65, 10, 66]" "[67]" server_init]
  by (simp add: header_first_def request_def be32_def u32_bytes_def server_init_def
      printable_byte_def)

text \<open>
  C32: A connection that ends or fails before the announced number of bytes has arrived gets no
  reply, leaves the statistics as they are and only adds one line on standard error.
\<close>

theorem serve_broken:
  assumes "delivered c = None"
  shows "\<exists>msg. count_printable_characters c s = Ok ([], s\<lparr>serr := serr s @ [msg]\<rparr>)"
  using count_broken [OF assms] by (simp add: complain_def)

theorem serve_broken_witness:
  "\<exists>msg. count_printable_characters
     \<lparr>crx = [Piece 0 [0, 0, 3, 65], Piece 10 [], RxErr, Piece 66 []], ctx = [], junk = 0\<rparr>
     server_init = Ok ([], server_init\<lparr>serr := serr server_init @ [msg]\<rparr>)"
  using serve_broken [of "\<lparr>crx = [Piece 0 [0, 0, 3, 65], Piece 10 [], RxErr, Piece 66 []],
      ctx = [], junk = 0\<rparr>" server_init]
  by (simp add: delivered_def ntohl_def u32_bytes_def u32_of_bytes_def)

section \<open>The contract of the service\<close>

text \<open>
  What a client is sent, and which bytes count for it: nothing if its file does not arrive or the
  reply cannot be sent, else the reply, as much of it as \<open>send\<close> takes, and the file. There is no
  answer if the process ends.
\<close>

definition answer :: "conn \<Rightarrow> (u8 list \<times> u8 list) run" where
  "answer c =
     (case delivered c of
        None \<Rightarrow> Ok ([], [])
      | Some body \<Rightarrow> bindR (send (be32 (of_nat (printables body))) (ctx c)) (\<lambda>(res, sent, _).
          Ok (if res < 0 then ([], []) else (sent, body))))"

definition reply :: "conn \<Rightarrow> u8 list" where
  "reply c = (case answer c of Ok (sent, body) \<Rightarrow> sent | _ \<Rightarrow> [])"

definition counted :: "conn \<Rightarrow> u8 list" where
  "counted c = (case answer c of Ok (sent, body) \<Rightarrow> body | _ \<Rightarrow> [])"

text \<open>The client does not close after its file has arrived and before the reply.\<close>

definition survives :: "conn \<Rightarrow> bool" where
  "survives c \<longleftrightarrow> delivered c = None \<or> (case ctx c of TxPipe # _ \<Rightarrow> False | _ \<Rightarrow> True)"

lemma survives_answer: "survives c \<Longrightarrow> answer c = Ok (reply c, counted c)"
  by (cases "delivered c"; cases "(be32 (of_nat (printables (the (delivered c)))), ctx c)" rule: send.cases)
    (auto simp: survives_def reply_def counted_def answer_def)

text \<open>What a client and the main loop rely on.\<close>

locale counting_service =
  fixes serve :: "conn \<Rightarrow> 's \<Rightarrow> (u8 list \<times> 's) run"
    and counts :: "'s \<Rightarrow> u32 list"
    and valid :: "'s \<Rightarrow> bool"
  assumes valid_counts: "valid s \<Longrightarrow> length (counts s) = 95"
    and serve_answer: "valid s \<Longrightarrow> answer c = Ok (sent, body) \<Longrightarrow>
      \<exists>s'. serve c s = Ok (sent, s') \<and> valid s' \<and>
        counts s' = add_counts (counts s) (histogram body)"

text \<open>One client after the other; the bytes sent to each.\<close>

fun serve_all :: "(conn \<Rightarrow> 's \<Rightarrow> (u8 list \<times> 's) run) \<Rightarrow> conn list \<Rightarrow> 's \<Rightarrow>
    (u8 list list \<times> 's) run" where
  "serve_all serve [] s = Ok ([], s)"
| "serve_all serve (c # cs) s =
     bindR (serve c s) (\<lambda>(sent, s').
       bindR (serve_all serve cs s') (\<lambda>(rest, s'').  Ok (sent # rest, s'')))"

context counting_service
begin

lemma serve_one:
  assumes "valid s" and "survives c"
  obtains s' where "serve c s = Ok (reply c, s')" and "valid s'"
    and "counts s' = add_counts (counts s) (histogram (counted c))"
  using serve_answer [OF assms(1) survives_answer [OF assms(2)]] that by blast

lemma serve_body:
  assumes "valid s" and "delivered c = Some body" and "takes_reply (ctx c)"
  shows "\<exists>s'. serve c s = Ok (be32 (of_nat (printables body)), s') \<and> valid s' \<and>
    counts s' = add_counts (counts s) (histogram body)"
proof -
  have "answer c = Ok (be32 (of_nat (printables body)), body)"
    using send_reply [OF assms(3), of "of_nat (printables body)"] assms(2)
    by (cases "send (be32 (of_nat (printables body))) (ctx c)") (auto simp: answer_def)
  then show ?thesis by (rule serve_answer [OF assms(1)])
qed

lemma serve_many:
  "valid s \<Longrightarrow> \<forall>c \<in> set cs. survives c \<Longrightarrow>
   \<exists>s'. serve_all serve cs s = Ok (map reply cs, s') \<and> valid s' \<and>
     counts s' = add_counts (counts s) (histogram (concat (map counted cs)))"
proof (induction cs arbitrary: s)
  case Nil
  then show ?case using valid_counts by simp
next
  case (Cons c cs)
  obtain s' where s': "serve c s = Ok (reply c, s')" "valid s'"
      "counts s' = add_counts (counts s) (histogram (counted c))"
    using serve_one [of s c] Cons.prems by auto
  then show ?case
    using Cons.IH [OF s'(2)] Cons.prems by (auto simp: histogram_append add_counts_assoc)
qed

lemma serve_sent_request:
  assumes "valid s" and "takes_reply (ctx c)" and "header_first (crx c)"
    and "stream (crx c) = request body @ extra" and "length body < 2 ^ 32"
  shows "\<exists>s'. serve c s = Ok (be32 (of_nat (printables body)), s')"
  using serve_body [OF assms(1) delivered_request [OF assms(3,4,5)] assms(2)] by auto

end

definition counters_ok :: "server \<Rightarrow> bool" where
  "counters_ok s \<longleftrightarrow> length (pcc_total s) = NUM_PRINTABLE_CHARS"

lemma counters_ok_init [simp]: "counters_ok server_init"
  by (simp add: counters_ok_def server_init_def)

lemma counters_ok_complain [simp]: "counters_ok (complain m s) = counters_ok s"
  "pcc_total (complain m s) = pcc_total s" "sout (complain m s) = sout s"
  by (simp_all add: counters_ok_def complain_def)

lemma count_delivered:
  assumes "counters_ok s" and "delivered c = Some body" and "takes_reply (ctx c)"
  shows "count_printable_characters c s =
    Ok (be32 (of_nat (printables body)),
        s\<lparr>pcc_total := add_counts (pcc_total s) (histogram body)\<rparr>)"
  using count_whole [OF assms(2), of s] send_reply [OF assms(3), of "of_nat (printables body)"]
    assms(1)
  by (fastforce simp: counters_ok_def)

lemma count_answer:
  assumes "counters_ok s" and "answer c = Ok (sent, body)"
  shows "\<exists>s'. count_printable_characters c s = Ok (sent, s') \<and> counters_ok s' \<and>
    pcc_total s' = add_counts (pcc_total s) (histogram body) \<and> sout s' = sout s"
proof (cases "delivered c")
  case None
  then show ?thesis
    using count_broken [OF None, of s] assms by (auto simp: answer_def counters_ok_def)
next
  case (Some b)
  then obtain res out t where sd: "send (be32 (of_nat (printables b))) (ctx c) = Ok (res, out, t)"
      "(if res < 0 then ([], []) else (out, b)) = (sent, body)"
    using assms(2) by (auto simp: answer_def)
  then show ?thesis
    using count_whole [OF Some, of s] assms(1) by (auto simp: counters_ok_def split: if_splits)
qed

interpretation pcc: counting_service count_printable_characters pcc_total counters_ok
proof unfold_locales
  fix s c sent body assume "counters_ok s" "answer c = Ok (sent, body)"
  then show "\<exists>s'. count_printable_characters c s = Ok (sent, s') \<and> counters_ok s' \<and>
      pcc_total s' = add_counts (pcc_total s) (histogram body)"
    using count_answer by blast
qed (simp add: counters_ok_def)

section \<open>The main loop\<close>

definition clients :: "accept_event list \<Rightarrow> conn list" where
  "clients es = concat (map (\<lambda>e. case e of Client c \<Rightarrow> [c] | _ \<Rightarrow> []) es)"

definition keeps_running :: "accept_event \<Rightarrow> bool" where
  "keeps_running e = (case e of Client c \<Rightarrow> survives c | AcceptErr \<Rightarrow> True | _ \<Rightarrow> False)"

lemma server_loop_append:
  "server_loop es s = (s', Waiting) \<Longrightarrow> server_loop (es @ fs) s = server_loop fs s'"
  by (induction es s rule: server_loop.induct) (auto split: run.splits if_splits)

lemma count_survivor:
  assumes "counters_ok s" and "survives c"
  obtains s' where "count_printable_characters c s = Ok (reply c, s')" and "counters_ok s'"
    and "pcc_total s' = add_counts (pcc_total s) (histogram (counted c))" and "sout s' = sout s"
  using count_answer [OF assms(1) survives_answer [OF assms(2)]] that by blast

lemma server_loop_clients:
  "list_all keeps_running es \<Longrightarrow> counters_ok s \<Longrightarrow>
   \<exists>s'. server_loop es s = (s', Waiting) \<and> counters_ok s' \<and> sout s' = sout s \<and>
     pcc_total s' =
       add_counts (pcc_total s) (histogram (concat (map counted (clients es))))"
proof (induction es s rule: server_loop.induct)
  case (1 s)
  then show ?case using pcc.valid_counts by (simp add: clients_def)
next
  case (5 c es s)
  then have "keeps_running (Client c)" and es: "list_all keeps_running es" by simp_all
  then have c: "survives c" by (simp add: keeps_running_def)
  obtain s' where s': "count_printable_characters c s = Ok (reply c, s')" "counters_ok s'"
      "pcc_total s' = add_counts (pcc_total s) (histogram (counted c))" "sout s' = sout s"
    using count_survivor [OF 5(3) c] .
  then show ?case
    using 5(1) [OF s'(1) refl es s'(2)]
    by (auto simp: clients_def histogram_append add_counts_assoc)
qed (simp_all add: keeps_running_def clients_def)

lemma server_loop_start:
  assumes "list_all keeps_running es"
  obtains s where "server_loop es server_init = (s, Waiting)" and "counters_ok s" and "sout s = []"
    and "pcc_total s = histogram (concat (map counted (clients es)))"
proof -
  have "add_counts (pcc_total server_init) h = h" if "length h = 95" for h
    using that by (intro nth_equalityI) (simp_all add: server_init_def add_counts_def)
  then show thesis
    using server_loop_clients [OF assms counters_ok_init] that by (auto simp: server_init_def)
qed

text \<open>
  C30: Many clients come, in whatever order, and \<open>accept\<close> may fail; connections may break off or fail, and
  replies fail to be sent, but no client closes after its file has arrived and before its reply
  (the \<open>SIGPIPE\<close> would end the server). Then the server keeps running, and on \<open>SIGINT\<close> it prints for every
  printable character how often it occurred in all the files that arrived completely and were
  answered, taken together, and exits with status 0.
\<close>

theorem sigint_statistics:
  assumes "list_all keeps_running es"
  shows "\<exists>s. server_loop (es @ [Sigint]) server_init = (s, Ended 0) \<and>
    sout s = map (stat_line (histogram (concat (map counted (clients es))))) [0..<95]"
proof -
  obtain s where s: "server_loop es server_init = (s, Waiting)" "sout s = []"
      "pcc_total s = histogram (concat (map counted (clients es)))"
    using server_loop_start [OF assms] by blast
  then show ?thesis by (simp add: server_loop_append [OF s(1)] handle_sigint_def)
qed

text \<open>A client that is answered, one whose connection breaks off, and one whose reply fails.\<close>

theorem sigint_statistics_witness:
  "\<exists>s. server_loop ([Client \<lparr>crx = [Piece 0 [0, 0, 2, 65], Piece 65 []], ctx = [], junk = 0\<rparr>, AcceptErr,
      Client \<lparr>crx = [Piece 0 [0, 0, 9, 65]], ctx = [], junk = 0\<rparr>,
      Client \<lparr>crx = [Piece 0 [0, 0, 1, 66]], ctx = [TxErr], junk = 0\<rparr>] @ [Sigint])
     server_init = (s, Ended 0) \<and>
   sout s = map (stat_line (histogram [65, 65])) [0..<95]"
proof -
  let ?a = "\<lparr>crx = [Piece 0 [0, 0, 2, 65], Piece 65 []], ctx = [], junk = 0\<rparr>"
  let ?b = "\<lparr>crx = [Piece 0 [0, 0, 9, 65]], ctx = [], junk = 0\<rparr>"
  let ?c = "\<lparr>crx = [Piece 0 [0, 0, 1, 66]], ctx = [TxErr], junk = 0\<rparr>"
  have d: "delivered ?a = Some [65, 65]" "delivered ?b = None" "delivered ?c = Some [66]"
    by (simp_all add: delivered_def ntohl_def u32_bytes_def u32_of_bytes_def)
  have "list_all keeps_running [Client ?a, AcceptErr, Client ?b, Client ?c]"
    by (simp add: keeps_running_def survives_def)
  moreover have "counted ?a = [65, 65]" "counted ?b = []" "counted ?c = []"
    by (simp_all add: counted_def answer_def d)
  ultimately show ?thesis
    using sigint_statistics [of "[Client ?a, AcceptErr, Client ?b, Client ?c]"] by (simp add: clients_def)
qed

text \<open>The moments of a service: which part of the counts is in the totals.\<close>

lemma at_signal_survivor:
  assumes "counters_ok s" and "survives c"
  shows "\<exists>s'. at_signal n c s = Ok (if n = 0 then [] else reply c, s') \<and> sout s' = sout s \<and>
    (\<forall>i < 95. pcc_total s' ! i =
      add_counts (pcc_total s) (histogram (if i + 1 < n then counted c else [])) ! i)"
proof -
  have len: "length (pcc_total s) = 95" using assms(1) by (simp add: counters_ok_def)
  obtain r where r: "count_printable_characters c s = Ok (reply c, r)" "sout r = sout s"
      "pcc_total r = add_counts (pcc_total s) (histogram (counted c))"
    using count_survivor [OF assms] by metis
  have early: ?thesis if "fst (serve_moments c s) = [([], s)]" and none: "counted c = []"
    using that r len
    by (cases n) (auto simp: at_signal_def count_printable_characters_def none split: prod.split)
  show ?thesis
  proof (cases "delivered c")
    case None
    then show ?thesis
      using moments_broken [OF None, of s] by (intro early) (auto simp: counted_def answer_def)
  next
    case (Some body)
    let ?h = "histogram body"
    obtain res sent t where sd: "send (be32 (of_nat (printables body))) (ctx c) = Ok (res, sent, t)"
      using survives_answer [OF assms(2)] Some by (auto simp: answer_def)
    note m = serve_moments_def [of c s] receive_whole [OF Some] u32_bytes_htonl sd
    show ?thesis
    proof (cases "res < 0")
      case True
      then show ?thesis by (intro early) (auto simp: m counted_def answer_def Some)
    next
      case False
      have rc: "reply c = sent" "counted c = body"
        using False Some sd by (simp_all add: reply_def counted_def answer_def)
      have "at_signal n c s = Ok (if n = 0 then [] else sent,
          s\<lparr>pcc_total := add_totals (min (n - 1) 95) ?h (pcc_total s)\<rparr>)"
        using False by (cases n) (auto simp: at_signal_def m Let_def nth_append min_def simp del: upt_Suc)
      moreover have "add_totals (min (n - 1) 95) ?h (pcc_total s) ! i =
          add_counts (pcc_total s) (histogram (if i + 1 < n then body else [])) ! i" if "i < 95" for i
        using add_totals_nth [OF len, of "min (n - 1) 95" ?h] len that
        by (auto simp: add_counts_def histogram_Nil)
      ultimately show ?thesis using rc by simp
    qed
  qed
qed

text \<open>
  C31: \<open>SIGINT\<close> during the service of a client, after any number of others, when none of them closes
  between its file and its reply: the handler exits at once. If it comes before the reply is sent, the client gets no reply and the
  statistics leave its file out, even if it has arrived completely; if it comes in the middle of the
  last loop, the client has been sent its reply (as much of it as \<open>send\<close> takes; nothing if its file did not
  arrive or \<open>send\<close> failed), and the statistics count the characters of its file below the one that the
  loop has reached and no others.
\<close>

theorem sigint_mid_client:
  assumes "list_all keeps_running es" and "survives c"
  shows "\<exists>s sent s'. server_loop es server_init = (s, Waiting) \<and> at_signal n c s = Ok (sent, s') \<and>
    server_loop (es @ [ClientSigint c n]) server_init = (handle_sigint s', Ended 0) \<and>
    sent = (if n = 0 then [] else reply c) \<and>
    (\<forall>i < 95. sout (handle_sigint s') ! i = stat_line (histogram (concat (map counted (clients es)) @
       (if i + 1 < n then counted c else []))) i)"
proof -
  obtain s where s: "server_loop es server_init = (s, Waiting)" "counters_ok s" "sout s = []"
      "pcc_total s = histogram (concat (map counted (clients es)))"
    using server_loop_start [OF assms(1)] .
  obtain s' where s': "at_signal n c s = Ok (if n = 0 then [] else reply c, s')" "sout s' = sout s"
      "\<forall>i < 95. pcc_total s' ! i =
         add_counts (pcc_total s) (histogram (if i + 1 < n then counted c else [])) ! i"
    using at_signal_survivor [OF s(2) assms(2), of n] by blast
  have "sout (handle_sigint s') ! i = stat_line (histogram (concat (map counted (clients es)) @
      (if i + 1 < n then counted c else []))) i" if "i < 95" for i
    using that s'(2,3) s(3,4) by (simp add: handle_sigint_def stat_line_def histogram_append)
  then show ?thesis
    using s(1) s'(1) server_loop_append [OF s(1), of "[ClientSigint c n]"]
    by (intro exI [of _ s] exI [of _ "if n = 0 then [] else reply c"] exI [of _ s']) simp
qed

text \<open>
  The file of the second client is \<open>AB\<close>; the signal comes after 34 rounds of the last loop, so the \<open>A\<close>
  is counted and the \<open>B\<close> is not.
\<close>

theorem sigint_mid_client_witness:
  "\<exists>s. server_loop ([Client \<lparr>crx = [Piece 0 [0, 0, 1, 66]], ctx = [], junk = 0\<rparr>] @
       [ClientSigint \<lparr>crx = [Piece 0 [0, 0, 2, 65], Piece 66 []], ctx = [], junk = 0\<rparr> 35]) server_init =
     (s, Ended 0) \<and>
   sout s ! 33 = stat_line (histogram [66, 65, 66]) 33 \<and> sout s ! 34 = stat_line (histogram [66]) 34"
proof -
  let ?b = "\<lparr>crx = [Piece 0 [0, 0, 1, 66]], ctx = [], junk = 0\<rparr>"
  let ?c = "\<lparr>crx = [Piece 0 [0, 0, 2, 65], Piece 66 []], ctx = [], junk = 0\<rparr>"
  have d: "delivered ?b = Some [66]" "delivered ?c = Some [65, 66]"
    by (simp_all add: delivered_def ntohl_def u32_bytes_def u32_of_bytes_def)
  have k: "list_all keeps_running [Client ?b]" "survives ?c" by (simp_all add: keeps_running_def survives_def)
  have "counted ?b = [66]" "counted ?c = [65, 66]" by (simp_all add: counted_def answer_def d)
  then show ?thesis
    using sigint_mid_client [OF k, of 35] by (auto simp: clients_def)
qed

text \<open>
  A client that has sent its file but closes before the reply takes the server down: the
  \<open>SIGPIPE\<close> of \<open>send\<close> is neither handled nor ignored, so the server process ends, no other
  client is served, and the statistics are lost.
\<close>

theorem broken_pipe_ends_server:
  assumes "delivered c = Some body" and "ctx c = TxPipe # t" and "counters_ok s"
  shows "server_loop (Client c # es) s = (s, Ended 141)"
  using count_whole [OF assms(1), of s] assms(2,3) by (simp add: counters_ok_def)

theorem broken_pipe_ends_server_witness:
  "server_loop (Client \<lparr>crx = [Piece 0 [0, 0, 1], Piece 65 []], ctx = [TxPipe], junk = 0\<rparr> # [Sigint])
     server_init = (server_init, Ended 141)"
  by (rule broken_pipe_ends_server [where body = "[65]" and t = "[]"])
    (simp_all add: delivered_def ntohl_def u32_bytes_def u32_of_bytes_def)

text \<open>
  The header is read with a single \<open>recv\<close> whose result is only compared with 0. When its
  four bytes come in two pieces, the reply depends on what the stack held: the same stream, a
  correct request for a file of one printable byte, is answered with 0, or with 1 as it should,
  or not at all.
\<close>

theorem split_header_unreliable:
  "let r = [Piece 0 [0, 0], Piece 1 [65]];
       out = (\<lambda>j. map_option fst (case count_printable_characters
                \<lparr>crx = r, ctx = [], junk = u32_of_bytes [0, 0, 0, j]\<rparr> server_init of
              Ok x \<Rightarrow> Some x | _ \<Rightarrow> None))
   in stream r = request [65] \<and> out 0 = Some (be32 0) \<and> out 1 = Some (be32 0) \<and>
      out 2 = Some (be32 1) \<and> out 3 = Some []"
proof -
  let ?r = "[Piece 0 [0, 0], Piece 1 [65]]"
  let ?c = "\<lambda>j. \<lparr>crx = ?r, ctx = [], junk = u32_of_bytes [0, 0, 0, j]\<rparr>"
  have d: "delivered (?c 0) = Some []" "delivered (?c 1) = Some [1]"
    "delivered (?c 2) = Some [1, 65]" "delivered (?c 3) = None"
    by (simp_all add: delivered_def ntohl_def u32_bytes_def u32_of_bytes_def)
  have "stream ?r = request [65]"
    by (simp add: request_def be32_def u32_bytes_def)
  moreover have "printables [] = 0" "printables [1] = 0" "printables [1, 65] = 1"
    by (simp_all add: printable_byte_def)
  ultimately show ?thesis
    using count_delivered [OF counters_ok_init d(1)] count_delivered [OF counters_ok_init d(2)]
      count_delivered [OF counters_ok_init d(3)] count_broken [OF d(4), of server_init]
    by (auto simp: Let_def)
qed

end
