(* ===== verification/Pcc_Client.thy ===== *)
theory Pcc_Client
  imports Pcc_Wire
begin

text \<open>
  The client, \<open>hw5/pcc_client.c\<close>. The file and the socket are the operating system's: how the
  calls come out is data. \<open>read\<close> on the file behaves as \<open>recv\<close> does on a socket, so the
  content is a list of pieces too. A run ends in a \<open>client_end\<close>: the bytes that went out, what
  was printed on standard output and standard error, and the exit status.
\<close>

section \<open>The program\<close>

definition CLIENT_BUFFER_SIZE :: nat where
  "CLIENT_BUFFER_SIZE = 1024"

record input_file =
  seek_end :: int
  content :: rx

text \<open>
  \<open>replies\<close> is what arrives on the socket, \<open>sends\<close> how sends go, \<open>count_junk\<close> the
  indeterminate value that \<open>net_printable_count\<close> has before the last \<open>recv\<close>.
\<close>

record client_env =
  open_file :: "string \<Rightarrow> input_file option"
  client_socket_ok :: bool
  pton_ok :: "string \<Rightarrow> bool"
  connect_ok :: "string \<Rightarrow> 16 word \<Rightarrow> bool"
  sends :: tx
  replies :: rx
  count_junk :: u32

record client_end =
  wire :: "u8 list"
  printed :: "string list"
  errors :: "string list"
  exit_status :: int

definition print_error_and_exit :: "u8 list \<Rightarrow> string \<Rightarrow> client_end" where
  "print_error_and_exit sent msg =
     \<lparr>wire = sent, printed = [], errors = [msg], exit_status = 1\<rparr>"

text \<open>A process that a signal ends prints nothing.\<close>

definition killed :: "u8 list \<Rightarrow> int \<Rightarrow> client_end" where
  "killed sent n = \<lparr>wire = sent, printed = [], errors = [], exit_status = n\<rparr>"

text \<open>
  The inner loop: \<open>buf\<close> is what is left of the buffer, \<open>out\<close> what has been sent so far. The
  result is \<open>Inl\<close> for a run that ends here, \<open>Inr\<close> to go on.
\<close>

function send_buffer :: "u8 list \<Rightarrow> u8 list \<Rightarrow> tx \<Rightarrow> client_end + u8 list \<times> tx" where
  "send_buffer buf out t =
     (if buf = [] then Inr (out, t)
      else case send buf t of
             Ok (result, sent, t') \<Rightarrow>
               if result < 0 then Inl (print_error_and_exit out ''Error sending file content'')
               else send_buffer (drop (nat result) buf) (out @ sent) t'
           | Exit n \<Rightarrow> Inl (killed out n)
           | Fault f \<Rightarrow> Inl (killed out (-1)))"
  by pat_completeness auto

lemma send_result:
  assumes "send buf t = Ok (result, sent, t')"
  shows "result = -1 \<or> (result = int (length sent) \<and> sent = take (length sent) buf \<and>
    (buf \<noteq> [] \<longrightarrow> 0 < length sent))"
  using assms by (cases "(buf, t)" rule: send.cases) (auto simp: min_def)

termination send_buffer
proof (relation "measure (\<lambda>(buf, _). length buf)", simp)
  fix buf out :: "u8 list" and t x result y sent t'
  assume "buf \<noteq> []" "send buf t = Ok x" "(result, y) = x" "(sent, t') = y" "\<not> result < 0"
  then show "((drop (nat result) buf, out @ sent, t'), (buf, out, t))
      \<in> measure (\<lambda>(buf, _). length buf)"
    using send_result [of buf t result sent t'] by auto
qed

declare send_buffer.simps [simp del]

text \<open>The outer loop, with the check of \<open>bytes_read\<close> behind it.\<close>

function send_file :: "rx \<Rightarrow> u8 list \<Rightarrow> tx \<Rightarrow> client_end + u8 list \<times> tx" where
  "send_file f out t =
     (case recv CLIENT_BUFFER_SIZE f of (bytes_read, buffer, f') \<Rightarrow>
        if bytes_read > 0
        then (case send_buffer buffer out t of
                Inl e \<Rightarrow> Inl e
              | Inr (out', t') \<Rightarrow> send_file f' out' t')
        else if bytes_read < 0 then Inl (print_error_and_exit out ''Error reading file'')
        else Inr (out, t))"
  by pat_completeness auto

lemma recv_positive:
  assumes "recv n r = (k, got, r')" and "0 < k" and "0 < n"
  shows "got @ stream r' = stream r \<and> clean r' = clean r \<and> got \<noteq> []"
proof (cases "(n, r)" rule: recv.cases)
  case (3 m b bs rs)
  then show ?thesis using assms recv_Piece [of n b bs rs k got r'] by auto
qed (use assms in auto)

termination send_file
proof (relation "measure (\<lambda>(f, _). length (stream f))", simp)
  fix f out t k x buffer f' y out' t'
  assume "(k, x) = recv CLIENT_BUFFER_SIZE f" "(buffer, f') = x" "0 < k"
  then have "buffer @ stream f' = stream f" "buffer \<noteq> []"
    using recv_positive [of CLIENT_BUFFER_SIZE f k buffer f'] by (auto simp: CLIENT_BUFFER_SIZE_def)
  then have "length (stream f) = length buffer + length (stream f')" "0 < length buffer"
    by (metis length_append, simp)
  then have "length (stream f') < length (stream f)" by simp
  then show "((f', out', t'), (f, out, t)) \<in> measure (\<lambda>(f, _). length (stream f))" by simp
qed

declare send_file.simps [simp del]

definition client_main :: "client_env \<Rightarrow> string list \<Rightarrow> client_end" where
  "client_main e argv =
     (if length argv \<noteq> 4 then print_error_and_exit [] ''Usage''
      else
        (let server_ip = argv ! 1;
             server_port = atoi (argv ! 2);
             file_path = argv ! 3
         in case open_file e file_path of
              None \<Rightarrow> print_error_and_exit [] ''Error opening file''
            | Some file_fd \<Rightarrow>
                if \<not> client_socket_ok e then print_error_and_exit [] ''Error creating socket''
                else if \<not> pton_ok e server_ip then print_error_and_exit [] ''Invalid IP address''
                else if \<not> connect_ok e server_ip (ucast server_port)
                then print_error_and_exit [] ''Error connecting to server''
                else if seek_end file_fd < 0
                then print_error_and_exit [] ''Error determining file size''
                else
                  (let net_file_size = htonl (word_of_int (seek_end file_fd))
                   in case send (u32_bytes net_file_size) (sends e) of
                        Exit n \<Rightarrow> killed [] n
                      | Fault f \<Rightarrow> killed [] (-1)
                      | Ok (result, sent, t) \<Rightarrow>
                          if result < 0 then print_error_and_exit [] ''Error sending file size''
                          else
                            (case send_file (content file_fd) sent t of
                               Inl ended \<Rightarrow> ended
                             | Inr (out, _) \<Rightarrow>
                                 (case recv 4 (replies e) of (received, got, _) \<Rightarrow>
                                    if received < 0
                                    then print_error_and_exit out
                                           ''Error receiving printable character count''
                                    else
                                      (let net_printable_count = u32_of_bytes
                                             (got @ drop (length got) (u32_bytes (count_junk e)));
                                           printable_count = ntohl net_printable_count
                                       in \<lparr>wire = out,
                                           printed = [''# of printable characters: '' @
                                                      decimal (unat printable_count)],
                                           errors = [],
                                           exit_status = 0\<rparr>))))))"

section \<open>Sending the file\<close>

text \<open>With no failing \<open>send\<close> and no read error, the loops send every byte once, in order.\<close>

lemma send_ok:
  assumes "no_tx_failure t"
  shows "\<exists>result sent t'. send buf t = Ok (result, sent, t') \<and> 0 \<le> result \<and> no_tx_failure t'"
  using assms by (cases "(buf, t)" rule: send.cases) (auto simp: no_tx_failure_def)

lemma send_buffer_all:
  "no_tx_failure t \<Longrightarrow> \<exists>t'. send_buffer buf out t = Inr (out @ buf, t') \<and> no_tx_failure t'"
proof (induction buf out t rule: send_buffer.induct)
  case (1 buf out t)
  show ?case
  proof (cases "buf = []")
    case True
    then show ?thesis using 1 by (simp add: send_buffer.simps)
  next
    case False
    obtain result sent t' where s: "send buf t = Ok (result, sent, t')" "0 \<le> result"
        "no_tx_failure t'"
      using send_ok [OF "1.prems"] by blast
    then have r: "result = int (length sent)" "sent = take (length sent) buf"
      using send_result [OF s(1)] by auto
    have "\<exists>t''. send_buffer (drop (nat result) buf) (out @ sent) t' =
        Inr ((out @ sent) @ drop (nat result) buf, t'') \<and> no_tx_failure t''"
      using "1.IH" [OF False s(1) refl refl] s by auto
    moreover have "sent @ drop (nat result) buf = buf" using r by (metis append_take_drop_id nat_int)
    ultimately show ?thesis
      using s False by (subst send_buffer.simps) simp
  qed
qed

lemma send_file_all:
  "no_tx_failure t \<Longrightarrow> clean f \<Longrightarrow> \<exists>t'. send_file f out t = Inr (out @ stream f, t')"
proof (induction f out t rule: send_file.induct)
  case (1 f out t)
  obtain k buffer f' where rv: "recv CLIENT_BUFFER_SIZE f = (k, buffer, f')"
    by (metis prod_cases3)
  have pos: "0 < CLIENT_BUFFER_SIZE" by (simp add: CLIENT_BUFFER_SIZE_def)
  show ?case
  proof (cases "0 < k")
    case True
    then have r: "buffer @ stream f' = stream f" "clean f'"
      using recv_positive [OF rv True pos] "1.prems" by auto
    obtain t' where t': "send_buffer buffer out t = Inr (out @ buffer, t')" "no_tx_failure t'"
      using send_buffer_all [OF "1.prems"(1)] by blast
    have "\<exists>t''. send_file f' (out @ buffer) t' = Inr ((out @ buffer) @ stream f', t'')"
      using "1.IH" [OF rv [symmetric] refl True t'(1) refl t'(2) r(2)] .
    then show ?thesis
      using rv True t'(1) r(1) by (subst send_file.simps) auto
  next
    case False
    have "f = [] \<and> k = 0"
    proof (cases f)
      case Nil
      then show ?thesis using rv by simp
    next
      case (Cons e es)
      then show ?thesis
        using rv False "1.prems"(2) recv_Piece [OF _ pos, of _ _ es k buffer f']
        by (cases e) (simp_all del: recv.simps(3))
    qed
    then show ?thesis using rv by (subst send_file.simps) simp
  qed
qed

section \<open>What a run of the client does\<close>

text \<open>Everything up to the connection succeeds; the file is \<open>f\<close>.\<close>

definition connected :: "client_env \<Rightarrow> string list \<Rightarrow> input_file \<Rightarrow> bool" where
  "connected e argv f \<longleftrightarrow>
     length argv = 4 \<and> open_file e (argv ! 3) = Some f \<and> client_socket_ok e \<and>
     pton_ok e (argv ! 1) \<and> connect_ok e (argv ! 1) (ucast (atoi (argv ! 2)))"

text \<open>A file that can be read to its end and has the size \<open>lseek\<close> tells.\<close>

definition regular :: "input_file \<Rightarrow> bool" where
  "regular f \<longleftrightarrow> clean (content f) \<and> seek_end f = int (length (stream (content f)))"

fun takes_header :: "tx \<Rightarrow> bool" where
  "takes_header (Took k # t) = (3 \<le> k)"
| "takes_header t = True"

text \<open>How many bytes of the header its one \<open>send\<close> takes.\<close>

fun header_taken :: "tx \<Rightarrow> nat" where
  "header_taken [] = 4"
| "header_taken (Took k # t) = min 4 (Suc k)"
| "header_taken (_ # t) = 0"

lemma takes_header_all: "no_tx_failure t \<Longrightarrow> takes_header t \<longleftrightarrow> header_taken t = 4"
  by (cases t rule: header_taken.cases) (auto simp: no_tx_failure_def)

lemma send_first:
  assumes "no_tx_failure t"
  shows "\<exists>res t'. send (be32 w) t = Ok (res, take (header_taken t) (be32 w), t') \<and> 0 \<le> res \<and>
    no_tx_failure t'"
  using assms by (cases t rule: header_taken.cases) (auto simp: no_tx_failure_def min_def)

lemma client_main_sends:
  assumes "connected e argv f" and "regular f" and "no_tx_failure (sends e)"
  shows "client_main e argv =
    (let out = take (header_taken (sends e)) (be32 (of_nat (length (stream (content f))))) @ stream (content f)
     in case recv 4 (replies e) of (received, got, _) \<Rightarrow>
       if received < 0
       then print_error_and_exit out ''Error receiving printable character count''
       else \<lparr>wire = out,
             printed = [''# of printable characters: '' @
               decimal (unat (ntohl (u32_of_bytes
                 (got @ drop (length got) (u32_bytes (count_junk e))))))],
             errors = [], exit_status = 0\<rparr>)"
proof -
  let ?h = "be32 (of_nat (length (stream (content f)))) :: u8 list"
  let ?out = "take (header_taken (sends e)) ?h"
  obtain res t where t: "send ?h (sends e) = Ok (res, ?out, t)" "0 \<le> res" "no_tx_failure t"
    using send_first [OF assms(3)] by blast
  obtain t' where t': "send_file (content f) ?out t = Inr (?out @ stream (content f), t')"
    using send_file_all [OF t(3), of "content f" ?out] assms(2) by (auto simp: regular_def)
  obtain k got r where "recv 4 (replies e) = (k, got, r)" by (metis prod_cases3)
  then show ?thesis
    using assms(1,2) t(1,2) t'
    by (simp add: client_main_def connected_def regular_def u32_bytes_htonl Let_def)
qed

lemma client_main_connected:
  assumes "connected e argv f" and "regular f"
    and "takes_header (sends e)" and "no_tx_failure (sends e)"
  shows "client_main e argv =
    (case recv 4 (replies e) of (received, got, _) \<Rightarrow>
       if received < 0
       then print_error_and_exit (request (stream (content f)))
              ''Error receiving printable character count''
       else \<lparr>wire = request (stream (content f)),
             printed = [''# of printable characters: '' @
               decimal (unat (ntohl (u32_of_bytes
                 (got @ drop (length got) (u32_bytes (count_junk e))))))],
             errors = [], exit_status = 0\<rparr>)"
proof -
  have "header_taken (sends e) = 4" using assms(3,4) takes_header_all by blast
  then have all: "take (header_taken (sends e)) (be32 w) = be32 w" for w by simp
  show ?thesis unfolding client_main_sends [OF assms(1,2,4)] request_def Let_def all by (rule refl)
qed

text \<open>
  C33: With a readable file and a socket on which no \<open>send\<close> fails, the client sends the bytes of the
  file in order and once, no matter how few bytes each \<open>send\<close> and each \<open>read\<close> handles, and before
  them as much of the header, the size in network byte order, as the first \<open>send\<close> takes: the
  header has no loop around its \<open>send\<close>. So what goes out is the request for the file exactly if the
  first \<open>send\<close> takes all four bytes.
\<close>

theorem client_sends_request:
  assumes "connected e argv f" and "regular f" and "no_tx_failure (sends e)"
  shows "wire (client_main e argv) =
      take (header_taken (sends e)) (be32 (of_nat (length (stream (content f))))) @ stream (content f) \<and>
    (wire (client_main e argv) = request (stream (content f)) \<longleftrightarrow> takes_header (sends e))"
proof -
  let ?h = "be32 (of_nat (length (stream (content f)))) :: u8 list"
  have w: "wire (client_main e argv) = take (header_taken (sends e)) ?h @ stream (content f)"
    unfolding client_main_sends [OF assms] Let_def
    by (simp add: print_error_and_exit_def split: prod.split)
  have "header_taken (sends e) \<le> 4" by (cases "sends e" rule: header_taken.cases) simp_all
  then have "take (header_taken (sends e)) ?h = ?h \<longleftrightarrow> header_taken (sends e) = 4"
    by (metis length_be32 length_take min.absorb2 take_all order_refl)
  then show ?thesis using w takes_header_all [OF assms(3)] by (simp add: request_def)
qed

definition example_client :: client_env where
  "example_client =
     \<lparr>open_file = (\<lambda>_. Some \<lparr>seek_end = 3, content = [Piece 65 [], Piece 10 [66]]\<rparr>),
      client_socket_ok = True, pton_ok = (\<lambda>_. True), connect_ok = (\<lambda>_ _. True),
      sends = [Took 3, Took 0, Took 0], replies = [Piece 0 [0, 0, 2]], count_junk = 7\<rparr>"

lemma example_client_facts:
  "connected example_client [''c'', ''127.0.0.1'', ''5555'', ''f'']
     \<lparr>seek_end = 3, content = [Piece 65 [], Piece 10 [66]]\<rparr>"
  "regular \<lparr>seek_end = 3, content = [Piece 65 [], Piece 10 [66]]\<rparr>"
  "takes_header (sends example_client)" "no_tx_failure (sends example_client)"
  by (simp_all add: connected_def example_client_def regular_def no_tx_failure_def)

text \<open>The file of the example goes out after its header, or after one byte of it.\<close>

theorem client_sends_request_witness:
  "wire (client_main example_client [''c'', ''127.0.0.1'', ''5555'', ''f'']) = request [65, 10, 66] \<and>
   wire (client_main (example_client\<lparr>sends := [Took 0]\<rparr>) [''c'', ''127.0.0.1'', ''5555'', ''f'']) =
     [0, 65, 10, 66]"
proof -
  have "connected (example_client\<lparr>sends := [Took 0]\<rparr>) [''c'', ''127.0.0.1'', ''5555'', ''f'']
      \<lparr>seek_end = 3, content = [Piece 65 [], Piece 10 [66]]\<rparr>"
    using example_client_facts(1) by (simp add: connected_def)
  from client_sends_request [OF this example_client_facts(2)]
  have "wire (client_main (example_client\<lparr>sends := [Took 0]\<rparr>) [''c'', ''127.0.0.1'', ''5555'', ''f'']) =
      [0, 65, 10, 66]"
    by (simp add: no_tx_failure_def be32_def u32_bytes_def)
  moreover have "wire (client_main example_client [''c'', ''127.0.0.1'', ''5555'', ''f'']) = request [65, 10, 66]"
    using conjunct2 [OF client_sends_request [OF example_client_facts(1,2,4)]] example_client_facts(3)
    by simp
  ultimately show ?thesis by blast
qed

definition well_ended :: "client_end \<Rightarrow> bool" where
  "well_ended r \<longleftrightarrow>
     exit_status r = 0 \<and> length (printed r) = 1 \<and> errors r = [] \<or>
     exit_status r = 1 \<and> printed r = [] \<and> length (errors r) = 1 \<or>
     exit_status r = 141 \<and> printed r = [] \<and> errors r = []"

lemma well_ended_error [simp]: "well_ended (print_error_and_exit out msg)"
  by (simp add: well_ended_def print_error_and_exit_def)

lemma well_ended_killed [simp]: "well_ended (killed out 141)"
  by (simp add: well_ended_def killed_def)

lemma well_ended_printed:
  "well_ended \<lparr>wire = out, printed = [msg], errors = [], exit_status = 0\<rparr>"
  by (simp add: well_ended_def)

lemma send_cases: "(\<exists>x. send bs t = Ok x) \<or> send bs t = Exit 141"
  by (cases "(bs, t)" rule: send.cases) auto

lemma send_buffer_ended: "send_buffer buf out t = Inl e \<Longrightarrow> well_ended e"
proof (induction buf out t rule: send_buffer.induct)
  case (1 buf out t)
  show ?case
  proof (cases "send buf t")
    case (Ok x)
    obtain result sent t' where x: "x = (result, sent, t')" by (cases x) auto
    show ?thesis
    proof (cases "buf = [] \<or> result < 0")
      case True
      then show ?thesis using "1.prems" Ok x by (subst (asm) send_buffer.simps) (auto split: if_splits)
    next
      case False
      then have "send_buffer (drop (nat result) buf) (out @ sent) t' = Inl e"
        using "1.prems" Ok x by (subst (asm) send_buffer.simps) simp
      then show ?thesis using "1.IH" [OF _ Ok [unfolded x] refl refl] False by simp
    qed
  qed (use "1.prems" send_cases [of buf t] in
      \<open>subst (asm) send_buffer.simps, auto split: if_splits\<close>)+
qed

lemma send_file_ended: "send_file f out t = Inl e \<Longrightarrow> well_ended e"
proof (induction f out t rule: send_file.induct)
  case (1 f out t)
  obtain k buffer f' where rv: "recv CLIENT_BUFFER_SIZE f = (k, buffer, f')"
    by (metis prod_cases3)
  show ?case
  proof (cases "0 < k")
    case True
    show ?thesis
    proof (cases "send_buffer buffer out t")
      case (Inl e')
      then show ?thesis
        using "1.prems" rv True send_buffer_ended [OF Inl] by (subst (asm) send_file.simps) simp
    next
      case (Inr p)
      then obtain out' t' where p: "send_buffer buffer out t = Inr (out', t')" by (cases p) simp
      have "send_file f' out' t' = Inl e"
        using "1.prems" rv True p by (subst (asm) send_file.simps) simp
      then show ?thesis using "1.IH" [OF rv [symmetric] refl True p refl] by simp
    qed
  next
    case False
    then show ?thesis
      using "1.prems" rv by (subst (asm) send_file.simps) (auto split: if_splits)
  qed
qed

text \<open>
  Whatever the system calls do, the client terminates in one of three ways: it prints one
  count and exits with status 0; it prints no count, reports one error and exits with status 1;
  or \<open>SIGPIPE\<close> ends it and it prints nothing.
\<close>

theorem client_ends_well: "well_ended (client_main e argv)"
proof -
  have exit: "send bs t = Exit n \<Longrightarrow> well_ended (killed out n)"
    and fault: "send bs t \<noteq> Fault z" for bs t n out z
    using send_cases [of bs t] by auto
  show ?thesis
    unfolding client_main_def Let_def
    by (auto split: option.split run.split sum.split prod.split
        simp: exit fault send_file_ended well_ended_printed)
qed

end
