(* ===== verification/Pcc_Session.thy ===== *)
theory Pcc_Session
  imports Pcc_Server Pcc_Client
begin

text \<open>
  The two programs of \<open>hw5\<close> together: what the client sends is what arrives at the server, in
  whatever pieces, and what the server sends is what arrives at the client. The server enters
  only through the contract \<open>counting_service\<close>.
\<close>

definition carries :: "rx \<Rightarrow> u8 list \<Rightarrow> bool" where
  "carries r bs \<longleftrightarrow> header_first r \<and> stream r = bs"

lemma carries_reply:
  assumes "carries r (be32 n)"
  shows "\<exists>r'. recv 4 r = (4, be32 n, r')"
proof -
  obtain b bs r' where r: "r = Piece b bs # r'" and bs: "3 \<le> length bs"
      and st: "b # bs @ stream r' = be32 n"
    using assms by (auto simp: carries_def header_first_def)
  have "length (b # bs @ stream r') = 4" unfolding st by simp
  then have "length bs + length (stream r') = 3" by simp
  then have "length bs = 3" "length (stream r') = 0" using bs by linarith+
  then show ?thesis using r st by (simp add: Let_def)
qed

text \<open>
  C18: End to end, when the client is connected, no \<open>send\<close> of the two programs fails, and the header of
  the request and the reply go out in one piece: the server answers the client's request with the number
  of printable characters of the client's file and counts the file, and if this answer arrives in
  one piece, the client prints that number and exits with status 0. So it is for every file of less than
  4 GiB, every way in which the client's \<open>send\<close> and \<open>read\<close> split it behind the header, every way in which
  the request reaches the server behind its header, and every state of the server.
\<close>

theorem client_prints_count:
  assumes "connected e argv f" and "regular f"
    and "takes_header (sends e)" and "no_tx_failure (sends e)"
    and "length (stream (content f)) < 2 ^ 32"
    and "carries (crx c) (wire (client_main e argv))" and "takes_reply (ctx c)"
    and "counters_ok s"
  shows "\<exists>sent s'. count_printable_characters c s = Ok (sent, s') \<and>
    sent = be32 (of_nat (printables (stream (content f)))) \<and>
    pcc_total s' = add_counts (pcc_total s) (histogram (stream (content f))) \<and>
    (\<forall>r. carries r sent \<longrightarrow>
      printed (client_main (e\<lparr>replies := r\<rparr>) argv) =
        [''# of printable characters: '' @ decimal (printables (stream (content f)))] \<and>
      exit_status (client_main (e\<lparr>replies := r\<rparr>) argv) = 0)"
proof -
  let ?body = "stream (content f)"
  let ?n = "of_nat (printables ?body) :: u32"
  have "stream (crx c) = request ?body" and h: "header_first (crx c)"
    using assms(6) client_main_connected [OF assms(1-4)]
    by (auto simp: carries_def print_error_and_exit_def split: prod.splits if_splits)
  then have "delivered c = Some ?body"
    using delivered_request [OF h, of ?body "[]"] assms(5) by simp
  then obtain s' where s': "count_printable_characters c s = Ok (be32 ?n, s')"
      "pcc_total s' = add_counts (pcc_total s) (histogram ?body)"
    using pcc.serve_body [OF assms(8) _ assms(7)] by blast
  have "printables ?body < 2 ^ 32" using printables_le [of ?body] assms(5) by simp
  then have n: "unat ?n = printables ?body" by (simp add: unat_of_nat take_bit_nat_def)
  have "printed (client_main (e\<lparr>replies := r\<rparr>) argv) =
        [''# of printable characters: '' @ decimal (printables ?body)] \<and>
      exit_status (client_main (e\<lparr>replies := r\<rparr>) argv) = 0" if r: "carries r (be32 ?n)" for r
  proof -
    have "connected (e\<lparr>replies := r\<rparr>) argv f" using assms(1) by (simp add: connected_def)
    then show ?thesis
      using carries_reply [OF r] client_main_connected [OF _ assms(2), of "e\<lparr>replies := r\<rparr>" argv] assms(3,4) n
      by (auto simp: ntohl_be32)
  qed
  then show ?thesis using s' by blast
qed

theorem client_prints_count_witness:
  "\<exists>s'. count_printable_characters
       \<lparr>crx = [Piece 0 [0, 0, 3], Piece 65 [10], Piece 66 []], ctx = [Took 9], junk = 1\<rparr>
       server_init = Ok ([0, 0, 0, 2], s') \<and>
    pcc_total s' = add_counts (pcc_total server_init) (histogram [65, 10, 66]) \<and>
    printed (client_main (example_client\<lparr>replies := [Piece 0 [0, 0, 2]]\<rparr>)
      [''c'', ''127.0.0.1'', ''5555'', ''f'']) = [''# of printable characters: '' @ decimal 2] \<and>
    exit_status (client_main (example_client\<lparr>replies := [Piece 0 [0, 0, 2]]\<rparr>)
      [''c'', ''127.0.0.1'', ''5555'', ''f'']) = 0"
proof -
  have "wire (client_main example_client [''c'', ''127.0.0.1'', ''5555'', ''f'']) =
      be32 3 @ [65, 10, 66]"
    using client_main_connected [OF example_client_facts]
    by (simp add: example_client_def request_def)
  then have c: "carries [Piece 0 [0, 0, 3], Piece 65 [10], Piece 66 []]
      (wire (client_main example_client [''c'', ''127.0.0.1'', ''5555'', ''f'']))"
    by (simp add: carries_def header_first_def be32_def u32_bytes_def)
  have two: "printables [65, 10, 66] = 2" "be32 2 = [0, 0, 0, 2]" "carries [Piece 0 [0, 0, 2]] [0, 0, 0, 2]"
    by (simp_all add: printable_byte_def be32_def u32_bytes_def carries_def header_first_def)
  show ?thesis
    using client_prints_count [OF example_client_facts, of
        "\<lparr>crx = [Piece 0 [0, 0, 3], Piece 65 [10], Piece 66 []], ctx = [Took 9], junk = 1\<rparr>"
        server_init] c two
    by (auto simp del: printables_simps)
qed

text \<open>
  The client does not check that the reply arrived: when the server closes without one,
  it prints whatever the stack held in \<open>net_printable_count\<close> and exits with status 0.
\<close>

theorem lost_reply_prints_garbage:
  assumes "connected e argv f" and "regular f"
    and "takes_header (sends e)" and "no_tx_failure (sends e)"
    and "replies e = []"
  shows "printed (client_main e argv) =
      [''# of printable characters: '' @ decimal (unat (ntohl (count_junk e)))] \<and>
    exit_status (client_main e argv) = 0"
  using client_main_connected [OF assms(1-4)] assms(5) by simp

theorem lost_reply_prints_garbage_witness:
  "printed (client_main (example_client\<lparr>replies := []\<rparr>) [''c'', ''127.0.0.1'', ''5555'', ''f'']) =
      [''# of printable characters: '' @ decimal (unat (ntohl 7))] \<and>
   exit_status (client_main (example_client\<lparr>replies := []\<rparr>)
     [''c'', ''127.0.0.1'', ''5555'', ''f'']) = 0"
proof -
  have "connected (example_client\<lparr>replies := []\<rparr>) [''c'', ''127.0.0.1'', ''5555'', ''f'']
      \<lparr>seek_end = 3, content = [Piece 65 [], Piece 10 [66]]\<rparr>"
    using example_client_facts(1) by (simp add: connected_def)
  then show ?thesis
    using lost_reply_prints_garbage [OF _ example_client_facts(2)] example_client_facts(3,4)
    by (simp add: example_client_def)
qed

end
