(* ===== verification/Pcc_Tester.thy ===== *)
theory Pcc_Tester
  imports Pcc_Session
begin

text \<open>
  The test program of \<open>hw5\<close>, \<open>hw5/tester2.c\<close>, together with the server and the clients it runs:
  it starts the server, writes files of random characters, counts their printable characters itself,
  runs the client on them and compares exit statuses, and ends the server with \<open>SIGINT\<close>. The theorems
  give the whole transcript of a run in which nothing fails, the agreement of the three programs on
  the number of printable characters, and what a verdict says about a run in which something fails.
  Standard output is a terminal, so each line is out before the next process is started.
\<close>

section \<open>The machine the test runs on\<close>

text \<open>
  What the operating system and the C library decide. \<open>room\<close>: how many bytes of a file the disk
  takes (\<open>fputc\<close> is not checked). \<open>seeds n\<close>: the result of the \<open>n\<close>th call of \<open>time\<close>.
  \<open>rands x k\<close>: the \<open>k\<close>th result of \<open>rand\<close>, never negative, after \<open>srand(x)\<close>. \<open>forks n\<close>: whether the
  \<open>n\<close>th \<open>fork\<close> succeeds. Of the \<open>n\<close>th client: \<open>client_side\<close> has its system calls (the fields
  \<open>open_file\<close> and \<open>replies\<close> are filled in below), \<open>uplink\<close> and \<open>downlink\<close> how what one side sends
  arrives at the other, \<open>server_tx\<close> and \<open>server_junk\<close> the server's end of the connection.
\<close>

record machine =
  creates :: "string \<Rightarrow> bool"
  reads :: "string \<Rightarrow> bool"
  room :: nat
  seeds :: "nat \<Rightarrow> u32"
  rands :: "u32 \<Rightarrow> nat \<Rightarrow> nat"
  forks :: "nat \<Rightarrow> bool"
  server_exec_ok :: bool
  client_exec_ok :: bool
  net :: net_setup
  client_side :: "nat \<Rightarrow> client_env"
  uplink :: "nat \<Rightarrow> u8 list \<Rightarrow> rx"
  downlink :: "nat \<Rightarrow> u8 list \<Rightarrow> rx"
  server_tx :: "nat \<Rightarrow> tx"
  server_junk :: "nat \<Rightarrow> u32"

text \<open>
  The state: the files, the lines on the terminal and on standard error, the server process, and how
  often \<open>fork\<close> and \<open>time\<close> have been called.
\<close>

record world =
  disk :: "string \<Rightarrow> u8 list option"
  tty :: "string list"
  errs :: "string list"
  service :: "server \<times> status"
  forked :: nat
  timed :: nat

text \<open>A step of the test: \<open>None\<close> when it has called \<open>exit(1)\<close>.\<close>

type_synonym 'a trial = "'a option \<times> world"

definition andthen :: "'a trial \<Rightarrow> ('a \<Rightarrow> world \<Rightarrow> 'b trial) \<Rightarrow> 'b trial" where
  "andthen m f = (case m of (None, w) \<Rightarrow> (None, w) | (Some x, w) \<Rightarrow> f x w)"

lemma andthen_simps [simp]:
  "andthen (None, w) f = (None, w)" "andthen (Some x, w) f = f x w"
  by (simp_all add: andthen_def)

definition say :: "string \<Rightarrow> world \<Rightarrow> world" where
  "say line w = w\<lparr>tty := tty w @ [line]\<rparr>"

definition fail :: "string \<Rightarrow> world \<Rightarrow> 'a trial" where
  "fail msg w = (None, w\<lparr>errs := errs w @ [msg]\<rparr>)"

text \<open>\<open>%d\<close>\<close>

definition show_int :: "c_int \<Rightarrow> string" where
  "show_int n = (if sint n < 0 then ''-'' @ decimal (nat (- sint n)) else decimal (nat (sint n)))"

section \<open>Files\<close>

definition SERVER_PORT :: nat where "SERVER_PORT = 9999"
definition SERVER_IP :: string where "SERVER_IP = ''127.0.0.1''"
definition TEST_FILE :: string where "TEST_FILE = ''test_file.txt''"
definition LARGE_TEST_FILE :: string where "LARGE_TEST_FILE = ''large_test_file.txt''"
definition PRINTABLE_ONLY_FILE :: string where "PRINTABLE_ONLY_FILE = ''printable_only_file.txt''"
definition NON_PRINTABLE_ONLY_FILE :: string where
  "NON_PRINTABLE_ONLY_FILE = ''non_printable_only_file.txt''"

text \<open>The loop of \<open>create_test_file\<close>; every iteration calls \<open>rand\<close> twice.\<close>

fun random_bytes :: "(nat \<Rightarrow> nat) \<Rightarrow> nat \<Rightarrow> nat \<Rightarrow> nat \<Rightarrow> u8 list" where
  "random_bytes rnd printable_ratio k 0 = []"
| "random_bytes rnd printable_ratio k (Suc n) =
     (if rnd k mod 100 < printable_ratio then of_nat (32 + rnd (k + 1) mod 95)
      else of_nat (rnd (k + 1) mod 32)) # random_bytes rnd printable_ratio (k + 2) n"

definition create_test_file :: "machine \<Rightarrow> string \<Rightarrow> nat \<Rightarrow> nat \<Rightarrow> world \<Rightarrow> unit trial" where
  "create_test_file m filename sz printable_ratio w =
     (if \<not> creates m filename then fail ''Failed to create test file'' w
      else
        (let rnd = rands m (seeds m (timed w));
             bytes = take (room m) (random_bytes rnd printable_ratio 0 sz)
         in (Some (), w\<lparr>disk := (disk w)(filename \<mapsto> bytes), timed := Suc (timed w)\<rparr>)))"

text \<open>\<open>fgetc\<close> returns the byte as an \<open>unsigned char\<close>; the count is an \<open>int\<close>.\<close>

fun count_loop :: "u8 list \<Rightarrow> c_int \<Rightarrow> c_int" where
  "count_loop [] n = n"
| "count_loop (b # bs) n =
     (let c = uint b in count_loop bs (if c \<ge> 32 \<and> c \<le> 126 then n + 1 else n))"

definition count_printable_chars :: "machine \<Rightarrow> string \<Rightarrow> world \<Rightarrow> c_int trial" where
  "count_printable_chars m filename w =
     (case disk w filename of
        Some bytes \<Rightarrow> if reads m filename then (Some (count_loop bytes 0), w)
                      else fail ''Failed to open test file'' w
      | None \<Rightarrow> fail ''Failed to open test file'' w)"

definition remove_file :: "string \<Rightarrow> world \<Rightarrow> world" where
  "remove_file filename w = w\<lparr>disk := (disk w)(filename := None)\<rparr>"

section \<open>Processes\<close>

definition run_server :: "machine \<Rightarrow> server \<times> status" where
  "run_server m =
     (if server_exec_ok m then server_main (net m) [''./pcc_server'', ''9999''] []
      else (complain ''Failed to execute server'' server_init, Ended 1))"

text \<open>What a client finds when it opens a file: a regular file, read in pieces of any size asked for.\<close>

definition as_input :: "u8 list \<Rightarrow> input_file" where
  "as_input bytes =
     \<lparr>seek_end = int (length bytes), content = (case bytes of [] \<Rightarrow> [] | b # bs \<Rightarrow> [Piece b bs])\<rparr>"

definition client_calls :: "machine \<Rightarrow> nat \<Rightarrow> world \<Rightarrow> client_env" where
  "client_calls m n w =
     (client_side m n)
       \<lparr>open_file := (\<lambda>name. if reads m name then map_option as_input (disk w name) else None),
        connect_ok := (\<lambda>ip port. connect_ok (client_side m n) ip port \<and>
                         snd (service w) = Waiting \<and> port = of_nat SERVER_PORT),
        replies := []\<rparr>"

definition connects :: "client_env \<Rightarrow> string list \<Rightarrow> bool" where
  "connects e argv \<longleftrightarrow>
     length argv = 4 \<and> open_file e (argv ! 3) \<noteq> None \<and> client_socket_ok e \<and>
     pton_ok e (argv ! 1) \<and> connect_ok e (argv ! 1) (ucast (atoi (argv ! 2)))"

text \<open>
  The client process, with the server at the other end if it connects. What the client sends does
  not depend on the reply (\<open>wire_before_reply\<close>), so the server's turn is computed from it first.
\<close>

definition client_process :: "machine \<Rightarrow> nat \<Rightarrow> string list \<Rightarrow> world \<Rightarrow> client_end \<times> world" where
  "client_process m n argv w =
     (let e = client_calls m n w;
          c = \<lparr>crx = uplink m n (wire (client_main e argv)), ctx = server_tx m n,
               junk = server_junk m n\<rparr>;
          sent = (case count_printable_characters c (fst (service w)) of
                    Ok (sent, _) \<Rightarrow> sent | _ \<Rightarrow> [])
      in if connects e argv
         then (client_main (e\<lparr>replies := downlink m n sent\<rparr>) argv,
               w\<lparr>service := server_loop [Client c] (fst (service w))\<rparr>)
         else (client_main e argv, w))"

text \<open>
  The status \<open>waitpid\<close> stores: the low byte is the signal that ended the process (a status above
  128 in the model), the next one what it passed to \<open>exit\<close>.
\<close>

definition wait_status :: "int \<Rightarrow> c_int" where
  "wait_status n = (if 128 < n then word_of_int (n - 128) else push_bit 8 (word_of_int n AND 255))"

definition WEXITSTATUS :: "c_int \<Rightarrow> c_int" where
  "WEXITSTATUS status = drop_bit 8 (status AND 0xFF00)"

definition run_client :: "machine \<Rightarrow> string \<Rightarrow> world \<Rightarrow> c_int trial" where
  "run_client m filename w =
     (let port_str = take 5 (decimal SERVER_PORT);
          n = forked w;
          w = w\<lparr>forked := Suc n\<rparr>
      in if \<not> forks m n then fail ''Fork failed'' w
         else if client_exec_ok m
         then (case client_process m n [''./pcc_client'', SERVER_IP, port_str, filename] w of
                 (r, w') \<Rightarrow> (Some (WEXITSTATUS (wait_status (exit_status r))),
                             w'\<lparr>tty := tty w' @ printed r, errs := errs w' @ errors r\<rparr>))
         else (Some (WEXITSTATUS (wait_status 1)),
               w\<lparr>errs := errs w @ [''Failed to execute client'']\<rparr>))"

section \<open>The tests\<close>

definition say_expected :: "c_int \<Rightarrow> world \<Rightarrow> world" where
  "say_expected n = say (''Expected count: '' @ show_int n)"

definition say_code :: "c_int \<Rightarrow> world \<Rightarrow> world" where
  "say_code n = say (''Client exit code: '' @ show_int n)"

definition say_verdict :: "bool \<Rightarrow> world \<Rightarrow> world" where
  "say_verdict ok w = say '''' (say (''Test '' @ (if ok then ''PASSED'' else ''FAILED'')) w)"

definition test_normal_operation :: "machine \<Rightarrow> world \<Rightarrow> unit trial" where
  "test_normal_operation m w =
     andthen (create_test_file m TEST_FILE 1000 80 (say ''Testing normal operation...'' w)) (\<lambda>_ w.
     andthen (count_printable_chars m TEST_FILE w) (\<lambda>expected_count w.
     andthen (run_client m TEST_FILE w) (\<lambda>client_exit_code w.
       (Some (), remove_file TEST_FILE (say_verdict (client_exit_code = 0)
          (say_code client_exit_code (say_expected expected_count w)))))))"

definition test_large_file :: "machine \<Rightarrow> world \<Rightarrow> unit trial" where
  "test_large_file m w =
     andthen (create_test_file m LARGE_TEST_FILE 10000000 50 (say ''Testing large file...'' w)) (\<lambda>_ w.
     andthen (count_printable_chars m LARGE_TEST_FILE w) (\<lambda>expected_count w.
     andthen (run_client m LARGE_TEST_FILE w) (\<lambda>client_exit_code w.
       (Some (), remove_file LARGE_TEST_FILE (say_verdict (client_exit_code = 0)
          (say_code client_exit_code (say_expected expected_count w)))))))"

definition test_empty_file :: "machine \<Rightarrow> world \<Rightarrow> unit trial" where
  "test_empty_file m w =
     andthen (create_test_file m TEST_FILE 0 0 (say ''Testing empty file...'' w)) (\<lambda>_ w.
     andthen (run_client m TEST_FILE w) (\<lambda>client_exit_code w.
       (Some (), remove_file TEST_FILE (say_verdict (client_exit_code = 0)
          (say_code client_exit_code w)))))"

definition test_non_existent_file :: "machine \<Rightarrow> world \<Rightarrow> unit trial" where
  "test_non_existent_file m w =
     andthen (run_client m ''non_existent_file.txt'' (say ''Testing non-existent file...'' w))
       (\<lambda>client_exit_code w.
       (Some (), say_verdict (client_exit_code \<noteq> 0) (say_code client_exit_code w)))"

definition test_printable_only_file :: "machine \<Rightarrow> world \<Rightarrow> unit trial" where
  "test_printable_only_file m w =
     andthen (create_test_file m PRINTABLE_ONLY_FILE 1000 100
       (say ''Testing file with only printable characters...'' w)) (\<lambda>_ w.
     andthen (count_printable_chars m PRINTABLE_ONLY_FILE w) (\<lambda>expected_count w.
     andthen (run_client m PRINTABLE_ONLY_FILE w) (\<lambda>client_exit_code w.
       (Some (), remove_file PRINTABLE_ONLY_FILE (say_verdict (client_exit_code = 0)
          (say_code client_exit_code (say_expected expected_count w)))))))"

definition test_non_printable_only_file :: "machine \<Rightarrow> world \<Rightarrow> unit trial" where
  "test_non_printable_only_file m w =
     andthen (create_test_file m NON_PRINTABLE_ONLY_FILE 1000 0
       (say ''Testing file with only non-printable characters...'' w)) (\<lambda>_ w.
     andthen (count_printable_chars m NON_PRINTABLE_ONLY_FILE w) (\<lambda>expected_count w.
     andthen (run_client m NON_PRINTABLE_ONLY_FILE w) (\<lambda>client_exit_code w.
       (Some (), remove_file NON_PRINTABLE_ONLY_FILE (say_verdict (client_exit_code = 0)
          (say_code client_exit_code (say_expected expected_count w)))))))"

text \<open>The end of \<open>main\<close>: \<open>SIGINT\<close> to the server, which prints on the same terminal.\<close>

definition stop_server :: "world \<Rightarrow> world" where
  "stop_server w =
     (case service w of
        (s, Waiting) \<Rightarrow> (let s' = server_loop [Sigint] s
                          in w\<lparr>service := s', tty := tty w @ sout (fst s')\<rparr>)
      | _ \<Rightarrow> w)"

text \<open>The result is the exit status and the state of the machine.\<close>

definition tester_main :: "machine \<Rightarrow> (string \<Rightarrow> u8 list option) \<Rightarrow> int \<times> world" where
  "tester_main m files =
     (let w = \<lparr>disk = files, tty = [], errs = [], service = run_server m, forked = 1, timed = 0\<rparr>
      in if \<not> forks m 0
         then (1, w\<lparr>service := (server_init, Ended 1), errs := [''Fork failed'']\<rparr>)
         else
           (case andthen (test_normal_operation m w) (\<lambda>_ w.
                 andthen (test_large_file m w) (\<lambda>_ w.
                 andthen (test_empty_file m w) (\<lambda>_ w.
                 andthen (test_non_existent_file m w) (\<lambda>_ w.
                 andthen (test_printable_only_file m w) (\<lambda>_ w.
                 test_non_printable_only_file m w))))) of
              (Some _, w) \<Rightarrow> (0, stop_server w)
            | (None, w) \<Rightarrow> (1, w)))"

section \<open>The client does not look at the reply before it has sent everything\<close>

lemma wire_before_reply: "wire (client_main (e\<lparr>replies := r\<rparr>) argv) = wire (client_main e argv)"
proof (cases "open_file e (argv ! 3)")
  case None
  then show ?thesis by (simp add: client_main_def)
next
  case (Some f)
  show ?thesis
  proof (cases "send (u32_bytes (htonl (word_of_int (seek_end f)))) (sends e)")
    case (Ok x)
    obtain result sent t where x: "x = (result, sent, t)" by (cases x)
    show ?thesis
      by (cases "send_file (content f) sent t")
        (simp_all add: client_main_def Let_def Some Ok x print_error_and_exit_def split: prod.split)
  qed (simp_all add: client_main_def Let_def Some)
qed

section \<open>Three counts of one file\<close>

lemma count_loop_eq: "count_loop bs n = n + of_nat (printables bs)"
proof (induction bs arbitrary: n)
  case Nil
  then show ?case by simp
next
  case (Cons b bs)
  have "32 \<le> uint b \<and> uint b \<le> 126 \<longleftrightarrow> printable_byte b" using printable_byte_uint [of b] by simp
  then show ?case using Cons by (simp add: Let_def)
qed

lemma show_int_nat:
  assumes "k < 2 ^ 31"
  shows "show_int (of_nat k) = decimal k"
proof -
  have "sint (of_nat k :: c_int) = int k"
    using assms by (simp add: signed_of_nat signed_take_bit_int_eq_self del: of_nat_numeral)
  then show ?thesis by (simp add: show_int_def)
qed

text \<open>A run in which no system call fails.\<close>

definition good_client :: "machine \<Rightarrow> nat \<Rightarrow> bool" where
  "good_client m n \<longleftrightarrow>
     client_socket_ok (client_side m n) \<and> pton_ok (client_side m n) SERVER_IP \<and>
     connect_ok (client_side m n) SERVER_IP 9999 \<and>
     takes_header (sends (client_side m n)) \<and> no_tx_failure (sends (client_side m n))"

definition good_link :: "machine \<Rightarrow> nat \<Rightarrow> bool" where
  "good_link m n \<longleftrightarrow> good_client m n \<and> takes_reply (server_tx m n) \<and>
     (\<forall>bs. 4 \<le> length bs \<longrightarrow> carries (uplink m n bs) bs \<and> carries (downlink m n bs) bs)"

text \<open>The file can be read, and the \<open>n\<close>th process is a client for which everything goes well.\<close>

definition goes_well :: "machine \<Rightarrow> nat \<Rightarrow> string \<Rightarrow> bool" where
  "goes_well m n name \<longleftrightarrow> reads m name \<and> forks m n \<and> client_exec_ok m \<and> good_link m n"

definition smooth :: "machine \<Rightarrow> bool" where
  "smooth m \<longleftrightarrow>
     (\<forall>name. creates m name \<and> reads m name) \<and> 10000000 \<le> room m \<and> (\<forall>n. forks m n) \<and>
     server_exec_ok m \<and> client_exec_ok m \<and> sigaction_ok (net m) \<and> socket_ok (net m) \<and>
     setsockopt_ok (net m) \<and> bind_ok (net m) 9999 \<and> listen_ok (net m) \<and> (\<forall>n. good_link m n)"

lemma smooth_goes_well: "smooth m \<Longrightarrow> goes_well m n name"
  by (simp add: smooth_def goes_well_def)

lemma decimal_9999: "decimal 9999 = ''9999''"
  by (simp add: decimal.simps char_of_eq_iff take_bit_eq_mod)

lemma port_9999: "atoi (take 5 (decimal SERVER_PORT)) = 9999" "atoi ''9999'' = 9999"
proof -
  have "atoi (decimal 9999) = 9999"
    using strtol10_decimal [of 9999] unfolding atoi_def LONG_MAX_def by simp
  then show "atoi (take 5 (decimal SERVER_PORT)) = 9999" "atoi ''9999'' = 9999"
    by (simp_all add: SERVER_PORT_def decimal_9999)
qed

lemma port_word: "of_nat SERVER_PORT = (9999 :: 16 word)"
  by (simp add: SERVER_PORT_def)

lemma server_starts: "smooth m \<Longrightarrow> run_server m = (server_init, Waiting)"
  by (simp add: smooth_def run_server_def server_main_def port_9999)

lemma stream_as_input [simp]: "stream (content (as_input bs)) = bs"
  by (cases bs) (simp_all add: as_input_def)

lemma regular_as_input [simp]: "regular (as_input bs)"
  by (cases bs) (simp_all add: as_input_def regular_def)

lemma client_calls_fields [simp]:
  "client_socket_ok (client_calls m n w) = client_socket_ok (client_side m n)"
  "pton_ok (client_calls m n w) = pton_ok (client_side m n)"
  "sends (client_calls m n w) = sends (client_side m n)"
  "replies (client_calls m n w) = []"
  by (simp_all add: client_calls_def)

text \<open>A client whose file exists is served.\<close>

abbreviation client_argv :: "string \<Rightarrow> string list" where
  "client_argv filename \<equiv> [''./pcc_client'', SERVER_IP, take 5 (decimal SERVER_PORT), filename]"

definition count_line :: "u8 list \<Rightarrow> string" where
  "count_line bs = ''# of printable characters: '' @ decimal (printables bs)"

definition counts_in :: "u8 list \<Rightarrow> world \<Rightarrow> world" where
  "counts_in bs w = w\<lparr>service := ((fst (service w))\<lparr>pcc_total :=
     add_counts (pcc_total (fst (service w))) (histogram bs)\<rparr>, Waiting)\<rparr>"

lemma client_connected:
  assumes "good_client m n" and "reads m name" and "disk w name = Some bs" and "snd (service w) = Waiting"
  shows "connected ((client_calls m n w)\<lparr>replies := r\<rparr>) (client_argv name) (as_input bs)"
    and "connects (client_calls m n w) (client_argv name)"
    and "takes_header (sends (client_side m n))" and "no_tx_failure (sends (client_side m n))"
  using assms
  by (simp_all add: connected_def connects_def client_calls_def good_client_def port_9999 port_word)

text \<open>Without a reply the client prints what its stack held.\<close>

lemma client_process_no_reply:
  assumes "good_client m n" and "reads m name" and "disk w name = Some bs" and "snd (service w) = Waiting"
    and "\<And>sent. downlink m n sent = []"
  shows "fst (client_process m n (client_argv name) w) =
    \<lparr>wire = request bs, printed = [''# of printable characters: '' @
       decimal (unat (ntohl (count_junk (client_side m n))))], errors = [], exit_status = 0\<rparr>"
  using client_main_connected [OF client_connected(1) [OF assms(1-4), of "[]"], simplified]
    client_connected(2-4) [OF assms(1-4)] assms(5)
  by (simp add: client_process_def Let_def) (simp add: client_calls_def)

lemma client_process_served:
  assumes "goes_well m n name" and "disk w name = Some bs" and "length bs < 2 ^ 32"
    and "snd (service w) = Waiting" and "counters_ok (fst (service w))"
  shows "client_process m n (client_argv name) w =
    (\<lparr>wire = request bs, printed = [count_line bs], errors = [], exit_status = 0\<rparr>, counts_in bs w)"
proof -
  let ?e = "client_calls m n w" and ?argv = "client_argv name"
  have link: "good_link m n" and rd: "reads m name" using assms(1) by (auto simp: goes_well_def)
  note con = client_connected [OF _ rd assms(2,4), of n]
  have cl: "good_client m n" using link by (simp add: good_link_def)
  note main = client_main_connected [OF con(1) [OF cl], simplified, OF con(3,4) [OF cl]]
  have wire: "wire (client_main ?e ?argv) = request bs"
    using main [of "[]"] wire_before_reply [of "[]" ?e ?argv] by simp
  let ?c = "\<lparr>crx = uplink m n (request bs), ctx = server_tx m n, junk = server_junk m n\<rparr>"
  have "carries (uplink m n (request bs)) (request bs)"
    using link by (simp add: good_link_def request_def)
  then have "delivered ?c = Some bs"
    using delivered_request [of ?c bs "[]"] assms(3) by (simp add: carries_def)
  then have served: "count_printable_characters ?c (fst (service w)) =
      Ok (be32 (of_nat (printables bs)), fst (service (counts_in bs w)))"
    using count_delivered [OF assms(5), of ?c bs] link by (simp add: good_link_def counts_in_def)
  have "carries (downlink m n (be32 (of_nat (printables bs)))) (be32 (of_nat (printables bs)))"
    using link by (simp add: good_link_def)
  then obtain r' where reply: "recv 4 (downlink m n (be32 (of_nat (printables bs)))) =
      (4, be32 (of_nat (printables bs)), r')"
    using carries_reply by blast
  have "unat (of_nat (printables bs) :: u32) = printables bs"
    using printables_le [of bs] assms(3) by (simp add: unat_of_nat take_bit_nat_def)
  then have "client_main (?e\<lparr>replies := downlink m n (be32 (of_nat (printables bs)))\<rparr>) ?argv =
      \<lparr>wire = request bs, printed = [count_line bs], errors = [], exit_status = 0\<rparr>"
    using reply by (simp add: main ntohl_be32 count_line_def)
  moreover have "connects ?e ?argv" using con(2) [OF cl] .
  ultimately show ?thesis
    by (simp add: client_process_def Let_def wire served) (simp add: counts_in_def)
qed

lemma exit_codes [simp]:
  "WEXITSTATUS (wait_status 0) = 0" "WEXITSTATUS (wait_status 1) = 1" "WEXITSTATUS (wait_status 141) = 0"
  by (simp_all add: WEXITSTATUS_def wait_status_def)

lemma run_client_served:
  assumes "goes_well m (forked w) name" and "disk w name = Some bs" and "length bs < 2 ^ 32"
    and "snd (service w) = Waiting" and "counters_ok (fst (service w))"
  shows "run_client m name w =
    (Some 0, (counts_in bs w)\<lparr>forked := Suc (forked w), tty := tty w @ [count_line bs]\<rparr>)"
  using client_process_served [of m "forked w" name "w\<lparr>forked := Suc (forked w)\<rparr>" bs] assms
  by (simp add: run_client_def goes_well_def counts_in_def)

section \<open>The transcript of a run in which nothing fails\<close>

lemma length_random_bytes [simp]: "length (random_bytes rnd ratio k n) = n"
  by (induction n arbitrary: k) auto

lemma random_printable:
  "printable_byte (of_nat (32 + r mod 95))" "\<not> printable_byte (of_nat (r mod 32))"
proof -
  have lt: "r mod 95 < 95" "r mod 32 < 32" by simp_all
  have "unat (of_nat (32 + r mod 95) :: u8) = 32 + r mod 95" "unat (of_nat (r mod 32) :: u8) = r mod 32"
    unfolding unat_of_nat take_bit_eq_mod using lt by auto
  then show "printable_byte (of_nat (32 + r mod 95))" "\<not> printable_byte (of_nat (r mod 32))"
    unfolding printable_byte_def using lt by linarith+
qed

text \<open>The two extreme ratios give files of printable characters only, and of none.\<close>

lemma printables_random:
  "printables (random_bytes rnd 100 k n) = n" "printables (random_bytes rnd 0 k n) = 0"
proof (induction n arbitrary: k)
  case (Suc n)
  { case 1 then show ?case
      using Suc(1) [of "k + 2"] random_printable(1) [of "rnd (k + 1)"] by simp }
  { case 2 then show ?case
      using Suc(2) [of "k + 2"] random_printable(2) [of "rnd (k + 1)"] by simp }
qed simp_all

definition ready :: "world \<Rightarrow> bool" where
  "ready w \<longleftrightarrow> snd (service w) = Waiting \<and> counters_ok (fst (service w))"

text \<open>What a test leaves behind whose client was served: the lines it printed, and its file counted.\<close>

definition after_test :: "string list \<Rightarrow> string \<Rightarrow> u8 list \<Rightarrow> world \<Rightarrow> world" where
  "after_test lines name bs w =
     (counts_in bs w)\<lparr>disk := (disk w)(name := None), tty := tty w @ lines,
        forked := Suc (forked w), timed := Suc (timed w)\<rparr>"

definition file_lines :: "string \<Rightarrow> nat \<Rightarrow> string list" where
  "file_lines title k =
     [title, ''# of printable characters: '' @ decimal k, ''Expected count: '' @ decimal k,
      ''Client exit code: 0'', ''Test PASSED'', []]"

lemma show_codes [simp]: "show_int 0 = ''0''" "show_int 1 = ''1''"
  by (simp_all add: show_int_def decimal.simps char_of_eq_iff take_bit_eq_mod)

lemma create_smooth:
  assumes "smooth m" and "n \<le> 10000000"
  shows "create_test_file m name n ratio w =
    (Some (), w\<lparr>disk := (disk w)(name \<mapsto> random_bytes (rands m (seeds m (timed w))) ratio 0 n),
                timed := Suc (timed w)\<rparr>)"
  using assms by (simp add: create_test_file_def smooth_def)

lemma count_smooth:
  assumes "reads m name" and "disk w name = Some bs"
  shows "count_printable_chars m name w = (Some (of_nat (printables bs)), w)"
  using assms by (simp add: count_printable_chars_def count_loop_eq)

lemma file_test:
  assumes "smooth m" and "ready w" and "n \<le> 10000000"
    and "bs = random_bytes (rands m (seeds m (timed w))) ratio 0 n"
  shows "andthen (create_test_file m name n ratio (say title w)) (\<lambda>_ w.
     andthen (count_printable_chars m name w) (\<lambda>expected_count w.
     andthen (run_client m name w) (\<lambda>client_exit_code w.
       (Some (), remove_file name (say_verdict (client_exit_code = 0)
          (say_code client_exit_code (say_expected expected_count w))))))) =
    (Some (), after_test (file_lines title (printables bs)) name bs w)"
proof -
  let ?w = "w\<lparr>disk := (disk w)(name \<mapsto> bs), tty := tty w @ [title], timed := Suc (timed w)\<rparr>"
  have len: "length bs < 2 ^ 31" using assms(3,4) by simp
  then have "length bs < 2 ^ 32" by simp
  then have run: "run_client m name ?w =
      (Some 0, (counts_in bs ?w)\<lparr>forked := Suc (forked w), tty := tty ?w @ [count_line bs]\<rparr>)"
    using run_client_served [OF smooth_goes_well [OF assms(1)], of ?w name bs] assms(2) by (simp add: ready_def)
  have num: "show_int (of_nat (printables bs)) = decimal (printables bs)"
    using show_int_nat [of "printables bs"] printables_le [of bs] len by simp
  have "create_test_file m name n ratio (say title w) = (Some (), ?w)"
    using create_smooth [OF assms(1,3)] assms(4) by (simp add: say_def)
  moreover have "count_printable_chars m name ?w = (Some (of_nat (printables bs)), ?w)"
    using count_smooth assms(1) by (simp add: smooth_def)
  ultimately show ?thesis
    by (simp add: run num remove_file_def say_verdict_def say_code_def say_expected_def say_def
        after_test_def file_lines_def count_line_def counts_in_def)
qed

lemma ready_after_test [simp]: "ready w \<Longrightarrow> ready (after_test lines name bs w)"
  by (simp add: ready_def after_test_def counts_in_def counters_ok_def)

definition no_file_lines :: "string list" where
  "no_file_lines = [''Testing non-existent file...'', ''Client exit code: 1'', ''Test PASSED'', []]"

definition empty_file_lines :: "string list" where
  "empty_file_lines = [''Testing empty file...'', ''# of printable characters: 0'',
     ''Client exit code: 0'', ''Test PASSED'', []]"

lemma decimal_0: "decimal 0 = ''0''"
  by (simp add: decimal.simps char_of_eq_iff take_bit_eq_mod)

lemma empty_test:
  assumes "smooth m" and "ready w"
  shows "test_empty_file m w = (Some (), after_test empty_file_lines TEST_FILE [] w)"
proof -
  let ?w = "w\<lparr>disk := (disk w)(TEST_FILE \<mapsto> []), tty := tty w @ [''Testing empty file...''], timed := Suc (timed w)\<rparr>"
  have "create_test_file m TEST_FILE 0 0 (say ''Testing empty file...'' w) = (Some (), ?w)"
    using create_smooth [OF assms(1), of 0] by (simp add: say_def)
  moreover have "run_client m TEST_FILE ?w =
      (Some 0, (counts_in [] ?w)\<lparr>forked := Suc (forked w), tty := tty ?w @ [count_line []]\<rparr>)"
    using run_client_served [OF smooth_goes_well [OF assms(1)], of ?w TEST_FILE "[]"] assms(2) by (simp add: ready_def)
  ultimately show ?thesis
    by (simp add: test_empty_file_def remove_file_def say_verdict_def say_code_def say_def
        after_test_def empty_file_lines_def count_line_def counts_in_def decimal_0)
qed

lemma missing_test:
  assumes "smooth m" and "disk w ''non_existent_file.txt'' = None"
  shows "test_non_existent_file m w =
    (Some (), w\<lparr>forked := Suc (forked w), tty := tty w @ no_file_lines,
                errs := errs w @ [''Error opening file'']\<rparr>)"
  using assms
  by (simp add: test_non_existent_file_def run_client_def smooth_def client_process_def connects_def
      client_main_def client_calls_def Let_def print_error_and_exit_def say_verdict_def say_code_def
      say_def no_file_lines_def)

lemma stop_ready:
  assumes "snd (service w) = Waiting"
  shows "stop_server w = w\<lparr>service := (handle_sigint (fst (service w)), Ended 0),
    tty := tty w @ sout (handle_sigint (fst (service w)))\<rparr>"
  using assms by (cases "service w") (simp add: stop_server_def)

lemma after_test_fields [simp]:
  "disk (after_test lines name bs w) = (disk w)(name := None)"
  "tty (after_test lines name bs w) = tty w @ lines"
  "errs (after_test lines name bs w) = errs w"
  "timed (after_test lines name bs w) = Suc (timed w)"
  "snd (service (after_test lines name bs w)) = Waiting"
  "sout (fst (service (after_test lines name bs w))) = sout (fst (service w))"
  "pcc_total (fst (service (after_test lines name bs w))) =
     add_counts (pcc_total (fst (service w))) (histogram bs)"
  by (simp_all add: after_test_def counts_in_def)

lemma ready_other_fields [simp]: "ready (w\<lparr>forked := n, tty := ls, errs := es\<rparr>) = ready w"
  by (simp add: ready_def)

text \<open>The files the test makes: their bytes come from the \<open>i\<close>th seeding of \<open>rand\<close>.\<close>

definition made :: "machine \<Rightarrow> nat \<Rightarrow> nat \<Rightarrow> nat \<Rightarrow> u8 list" where
  "made m i ratio n = random_bytes (rands m (seeds m i)) ratio 0 n"

text \<open>The world before the tests, and what they make of it one after the other.\<close>

definition first_world :: "machine \<Rightarrow> (string \<Rightarrow> u8 list option) \<Rightarrow> world" where
  "first_world m files =
     \<lparr>disk = files, tty = [], errs = [], service = run_server m, forked = 1, timed = 0\<rparr>"

definition tested :: "machine \<Rightarrow> world \<Rightarrow> world" where
  "tested m w0 =
     (let w1 = after_test (file_lines ''Testing normal operation...''
             (printables (made m 0 80 1000))) TEST_FILE (made m 0 80 1000) w0;
          w2 = after_test (file_lines ''Testing large file...''
             (printables (made m 1 50 10000000))) LARGE_TEST_FILE (made m 1 50 10000000) w1;
          w3 = after_test empty_file_lines TEST_FILE [] w2;
          w4 = w3\<lparr>forked := Suc (forked w3), tty := tty w3 @ no_file_lines,
             errs := errs w3 @ [''Error opening file'']\<rparr>;
          w5 = after_test (file_lines ''Testing file with only printable characters...''
             (printables (made m 3 100 1000))) PRINTABLE_ONLY_FILE (made m 3 100 1000) w4
      in after_test (file_lines ''Testing file with only non-printable characters...''
           (printables (made m 4 0 1000))) NON_PRINTABLE_ONLY_FILE (made m 4 0 1000) w5)"

lemma first_world_ready: "smooth m \<Longrightarrow> ready (first_world m files)"
  using server_starts [of m] by (simp add: first_world_def ready_def)

lemma tester_runs:
  assumes "smooth m" and "files ''non_existent_file.txt'' = None"
  shows "tester_main m files = (0, stop_server (tested m (first_world m files)))"
proof -
  define w0 where "w0 = first_world m files"
  define w1 where "w1 = after_test (file_lines ''Testing normal operation...''
    (printables (made m 0 80 1000))) TEST_FILE (made m 0 80 1000) w0"
  define w2 where "w2 = after_test (file_lines ''Testing large file...''
    (printables (made m 1 50 10000000))) LARGE_TEST_FILE (made m 1 50 10000000) w1"
  define w3 where "w3 = after_test empty_file_lines TEST_FILE [] w2"
  define w4 where "w4 = w3\<lparr>forked := Suc (forked w3), tty := tty w3 @ no_file_lines,
    errs := errs w3 @ [''Error opening file'']\<rparr>"
  define w5 where "w5 = after_test (file_lines ''Testing file with only printable characters...''
    (printables (made m 3 100 1000))) PRINTABLE_ONLY_FILE (made m 3 100 1000) w4"
  define w6 where "w6 = after_test (file_lines ''Testing file with only non-printable characters...''
    (printables (made m 4 0 1000))) NON_PRINTABLE_ONLY_FILE (made m 4 0 1000) w5"
  note test = file_test [OF assms(1) _ _ refl]
  have r: "ready w0" "ready w1" "ready w2" "ready w3" "ready w4" "ready w5"
  proof -
    show "ready w0" using first_world_ready [OF assms(1)] by (simp add: w0_def)
    then show "ready w1" "ready w2" "ready w3" "ready w4" "ready w5"
      by (simp_all add: w1_def w2_def w3_def w4_def w5_def)
  qed
  have t: "timed w0 = 0" "timed w1 = 1" "timed w4 = 3" "timed w5 = 4"
    by (simp_all add: w0_def first_world_def w1_def w2_def w3_def w4_def w5_def)
  have "test_normal_operation m w0 = (Some (), w1)"
    unfolding test_normal_operation_def w1_def made_def using test [OF r(1)] t by simp
  moreover have "test_large_file m w1 = (Some (), w2)"
    unfolding test_large_file_def w2_def made_def using test [OF r(2)] t by simp
  moreover have "test_empty_file m w2 = (Some (), w3)"
    using empty_test [OF assms(1) r(3)] by (simp add: w3_def)
  moreover have "test_non_existent_file m w3 = (Some (), w4)"
    unfolding w4_def
    by (rule missing_test [OF assms(1)])
      (simp add: w3_def w2_def w1_def w0_def first_world_def TEST_FILE_def LARGE_TEST_FILE_def assms(2))
  moreover have "test_printable_only_file m w4 = (Some (), w5)"
    unfolding test_printable_only_file_def w5_def made_def using test [OF r(5)] t by simp
  moreover have "test_non_printable_only_file m w5 = (Some (), w6)"
    unfolding test_non_printable_only_file_def w6_def made_def using test [OF r(6)] t by simp
  ultimately have "tester_main m files = (0, stop_server w6)"
    using assms(1) unfolding tester_main_def Let_def first_world_def [symmetric] w0_def [symmetric]
    by (simp add: smooth_def)
  moreover have "tested m w0 = w6"
    unfolding tested_def Let_def w6_def w5_def w4_def w3_def w2_def w1_def ..
  ultimately show ?thesis by (simp add: w0_def)
qed

lemma tested_world:
  assumes "smooth m" and w_def: "w = tested m (first_world m files)"
  shows "tty w =
      file_lines ''Testing normal operation...'' (printables (made m 0 80 1000)) @
      file_lines ''Testing large file...'' (printables (made m 1 50 10000000)) @
      empty_file_lines @ no_file_lines @
      file_lines ''Testing file with only printable characters...'' 1000 @
      file_lines ''Testing file with only non-printable characters...'' 0"
    and "pcc_total (fst (service w)) = histogram (made m 0 80 1000 @ made m 1 50 10000000 @
      made m 3 100 1000 @ made m 4 0 1000)" and "sout (fst (service w)) = []"
    and "snd (service w) = Waiting" and "errs w = [''Error opening file'']"
    and "disk w = files(TEST_FILE := None, LARGE_TEST_FILE := None, PRINTABLE_ONLY_FILE := None,
      NON_PRINTABLE_ONLY_FILE := None)"
proof -
  have k: "printables (made m 3 100 1000) = 1000" "printables (made m 4 0 1000) = 0"
    by (simp_all add: made_def printables_random)
  show "tty w =
      file_lines ''Testing normal operation...'' (printables (made m 0 80 1000)) @
      file_lines ''Testing large file...'' (printables (made m 1 50 10000000)) @
      empty_file_lines @ no_file_lines @
      file_lines ''Testing file with only printable characters...'' 1000 @
      file_lines ''Testing file with only non-printable characters...'' 0"
    by (simp add: w_def tested_def Let_def k) (simp add: first_world_def)
  have start: "pcc_total (fst (service (first_world m files))) = histogram []"
      "sout (fst (service (first_world m files))) = []"
    using server_starts [OF assms(1)] by (simp_all add: first_world_def server_init_def histogram_Nil)
  show "pcc_total (fst (service w)) = histogram (made m 0 80 1000 @ made m 1 50 10000000 @
      made m 3 100 1000 @ made m 4 0 1000)" "sout (fst (service w)) = []" "snd (service w) = Waiting"
    by (simp_all add: w_def tested_def Let_def start flip: histogram_append)
  show "errs w = [''Error opening file'']"
    "disk w = files(TEST_FILE := None, LARGE_TEST_FILE := None, PRINTABLE_ONLY_FILE := None,
      NON_PRINTABLE_ONLY_FILE := None)"
    by (auto simp: w_def tested_def Let_def first_world_def)
qed

text \<open>
  C5: When no call fails, and every header and every reply goes out and arrives in one piece, the tester
  runs to its end with all six tests passed. In the four
  tests with a count, the number the client prints is the number the tester expects; it is 1000 for
  the file made of printable characters and 0 for the one made of others. The missing file gives exit
  code 1. The test files are gone afterwards, and the server, ended by \<open>SIGINT\<close>, has printed the
  statistics of all the files together.
\<close>

theorem tester_passes:
  assumes "smooth m" and "files ''non_existent_file.txt'' = None"
  shows "\<exists>w. tester_main m files = (0, w) \<and>
    tty w =
      file_lines ''Testing normal operation...'' (printables (made m 0 80 1000)) @
      file_lines ''Testing large file...'' (printables (made m 1 50 10000000)) @
      empty_file_lines @ no_file_lines @
      file_lines ''Testing file with only printable characters...'' 1000 @
      file_lines ''Testing file with only non-printable characters...'' 0 @
      map (stat_line (histogram (made m 0 80 1000 @ made m 1 50 10000000 @
        made m 3 100 1000 @ made m 4 0 1000))) [0..<95] \<and>
    errs w = [''Error opening file''] \<and> snd (service w) = Ended 0 \<and>
    disk w = files(TEST_FILE := None, LARGE_TEST_FILE := None, PRINTABLE_ONLY_FILE := None,
      NON_PRINTABLE_ONLY_FILE := None)"
  using tester_runs [of m files, OF assms] tested_world [OF assms(1) refl, of files]
  by (simp add: stop_ready handle_sigint_def)

section \<open>Witnesses and wrong counts\<close>

definition whole :: "u8 list \<Rightarrow> rx" where
  "whole bs = (case bs of [] \<Rightarrow> [] | b # bs \<Rightarrow> [Piece b bs])"

lemma carries_whole: "4 \<le> length bs \<Longrightarrow> carries (whole bs) bs"
  by (cases bs) (simp_all add: whole_def carries_def header_first_def)

definition easy_machine :: machine where
  "easy_machine =
     \<lparr>creates = (\<lambda>_. True), reads = (\<lambda>_. True), room = 10000000, seeds = of_nat,
      rands = (\<lambda>x k. (unat x + 7 * k) mod 1000), forks = (\<lambda>_. True), server_exec_ok = True,
      client_exec_ok = True,
      net = \<lparr>sigaction_ok = True, socket_ok = True, setsockopt_ok = True, bind_ok = (\<lambda>_. True),
             listen_ok = True\<rparr>,
      client_side = (\<lambda>_. example_client), uplink = (\<lambda>_. whole), downlink = (\<lambda>_. whole),
      server_tx = (\<lambda>_. []), server_junk = (\<lambda>_. 0)\<rparr>"

lemma smooth_easy: "smooth easy_machine"
  using example_client_facts(3,4)
  by (simp add: smooth_def easy_machine_def good_link_def good_client_def carries_whole) (simp add: example_client_def)

theorem tester_passes_witness:
  "\<exists>w. tester_main easy_machine (\<lambda>_. None) = (0, w) \<and> errs w = [''Error opening file''] \<and>
     snd (service w) = Ended 0 \<and> disk w TEST_FILE = None"
proof -
  obtain w where "tester_main easy_machine (\<lambda>_. None) = (0, w)" "errs w = [''Error opening file'']"
      "snd (service w) = Ended 0" "disk w = (\<lambda>_. None)(TEST_FILE := None, LARGE_TEST_FILE := None,
        PRINTABLE_ONLY_FILE := None, NON_PRINTABLE_ONLY_FILE := None)"
    using tester_passes [OF smooth_easy, of "\<lambda>_. None"] by blast
  then show ?thesis by simp
qed

text \<open>The server's statistics add up to the numbers it has answered.\<close>

lemma sum_add_counts:
  "length xs = length ys \<Longrightarrow> sum_list (add_counts xs ys) = sum_list xs + sum_list ys"
  by (induction xs ys rule: list_induct2) (simp_all add: add_counts_def algebra_simps)

lemma sum_list_upd:
  "k < length xs \<Longrightarrow> sum_list (xs[k := x]) = sum_list xs + x - (xs ! k :: u32)"
proof (induction xs arbitrary: k)
  case (Cons y ys)
  then show ?case by (cases k) simp_all
qed simp

lemma sum_histogram: "sum_list (histogram bs) = of_nat (printables bs)"
proof (induction bs)
  case Nil
  then show ?case by (simp add: histogram_Nil sum_list_replicate)
next
  case (Cons b bs)
  have "sum_list (histogram [b]) = of_bool (printable_byte b)"
  proof (cases "printable_byte b")
    case True
    then have "unat b - 32 < 95" by (auto simp: printable_byte_def)
    then show ?thesis using True
      by (simp add: histogram_single sum_list_upd sum_list_replicate)
  qed (simp add: histogram_skip sum_list_replicate)
  then show ?case
    using Cons histogram_append [of "[b]" bs] by (simp add: sum_add_counts)
qed

text \<open>
  C13: The three programs agree on a file of less than 2 GiB, when all goes well: the server waits for
  clients, the file can be read, the client starts and connects, no call of either side fails, and
  the header and the reply go out and arrive in one piece each. Then the
  tester's own count of printable characters (\<open>fgetc\<close> and \<open>int\<close>) is the number that the client prints
  and the number by which the server's statistics (\<open>char\<close> and \<open>uint32_t\<close>) grow.
\<close>

theorem counts_agree:
  assumes "goes_well m (forked w) name" and "ready w" and "disk w name = Some bs"
    and "length bs < 2 ^ 31"
  shows "\<exists>n w'. count_printable_chars m name w = (Some n, w) \<and>
    run_client m name w = (Some 0, w') \<and>
    tty w' = tty w @ [''# of printable characters: '' @ show_int n] \<and>
    sum_list (pcc_total (fst (service w'))) = sum_list (pcc_total (fst (service w))) + n"
proof -
  have small: "length bs < 2 ^ 32" using assms(4) by simp
  have n: "show_int (of_nat (printables bs)) = decimal (printables bs)"
    using show_int_nat [of "printables bs"] printables_le [of bs] assms(4) by simp
  have len: "length (pcc_total (fst (service w))) = 95"
    using assms(2) by (simp add: ready_def counters_ok_def)
  have rd: "reads m name" using assms(1) by (simp add: goes_well_def)
  show ?thesis
    using count_smooth [OF rd assms(3)] run_client_served [OF assms(1,3) small] assms(2)
    by (simp add: goes_well_def ready_def count_line_def n counts_in_def sum_add_counts [of _ "histogram bs"] len
        sum_histogram)
qed

definition small_world :: world where
  "small_world = \<lparr>disk = (\<lambda>_. Some [65, 10, 200]), tty = [], errs = [],
     service = (server_init, Waiting), forked = 1, timed = 0\<rparr>"

theorem counts_agree_witness:
  "\<exists>n w'. count_printable_chars easy_machine ''f'' small_world = (Some n, small_world) \<and>
    run_client easy_machine ''f'' small_world = (Some 0, w') \<and>
    tty w' = tty small_world @ [''# of printable characters: '' @ show_int n] \<and>
    sum_list (pcc_total (fst (service w'))) = sum_list (pcc_total (fst (service small_world))) + n"
  by (rule counts_agree [OF smooth_goes_well [OF smooth_easy], of _ _ "[65, 10, 200]"])
    (simp_all add: small_world_def ready_def)

lemma client_status: "exit_status (client_main e argv) \<in> {0, 1, 141}"
  using client_ends_well [of e argv] by (auto simp: well_ended_def)

lemma client_process_status:
  "exit_status (fst (client_process m n argv w)) \<in> {0, 1, 141}" "tty (snd (client_process m n argv w)) = tty w"
  using client_status by (simp_all add: client_process_def Let_def split: if_splits)

text \<open>
  What a verdict is worth: a test prints \<open>PASSED\<close> exactly if the client did not exit with
  status 1. The count it prints is not compared with the expected one, and a client that a signal
  ended counts as having exited with 0, since \<open>WEXITSTATUS\<close> is taken without \<open>WIFEXITED\<close>.
\<close>

theorem verdict_ignores_count:
  assumes "creates m TEST_FILE" and "reads m TEST_FILE" and "forks m (forked w)" and "client_exec_ok m"
  shows "\<exists>bs r w'. r = fst (client_process m (forked w) (client_argv TEST_FILE) w') \<and>
    disk w' TEST_FILE = Some bs \<and> service w' = service w \<and>
    tty (snd (test_normal_operation m w)) =
      tty w @ [''Testing normal operation...''] @ printed r @
      [''Expected count: '' @ show_int (of_nat (printables bs)),
       ''Client exit code: '' @ show_int (if exit_status r = 1 then 1 else 0),
       ''Test '' @ (if exit_status r = 1 then ''FAILED'' else ''PASSED''), []]"
proof -
  let ?bs = "take (room m) (random_bytes (rands m (seeds m (timed w))) 80 0 1000)"
  let ?w = "w\<lparr>disk := (disk w)(TEST_FILE \<mapsto> ?bs), tty := tty w @ [''Testing normal operation...''],
    timed := Suc (timed w)\<rparr>"
  let ?w' = "?w\<lparr>forked := Suc (forked w)\<rparr>"
  obtain r w'' where p: "client_process m (forked w) (client_argv TEST_FILE) ?w' = (r, w'')"
    by (metis prod.exhaust)
  have st: "exit_status r \<in> {0, 1, 141}" "tty w'' = tty ?w'"
    using client_process_status [of m "forked w" "client_argv TEST_FILE" ?w'] by (simp_all add: p)
  have "create_test_file m TEST_FILE 1000 80 (say ''Testing normal operation...'' w) = (Some (), ?w)"
    using assms(1) by (simp add: create_test_file_def say_def)
  moreover have "count_printable_chars m TEST_FILE ?w = (Some (of_nat (printables ?bs)), ?w)"
    using assms(2) by (simp add: count_printable_chars_def count_loop_eq)
  moreover have "run_client m TEST_FILE ?w = (Some (WEXITSTATUS (wait_status (exit_status r))),
      w''\<lparr>tty := tty w'' @ printed r, errs := errs w'' @ errors r\<rparr>)"
    using assms(3,4) p by (simp add: run_client_def Let_def)
  ultimately have "tty (snd (test_normal_operation m w)) =
      tty w @ [''Testing normal operation...''] @ printed r @
      [''Expected count: '' @ show_int (of_nat (printables ?bs)),
       ''Client exit code: '' @ show_int (if exit_status r = 1 then 1 else 0),
       ''Test '' @ (if exit_status r = 1 then ''FAILED'' else ''PASSED''), []]"
    using st by (auto simp: test_normal_operation_def remove_file_def say_verdict_def say_code_def
        say_expected_def say_def)
  then show ?thesis
    by (intro exI [of _ ?bs] exI [of _ r] exI [of _ ?w']) (simp add: p)
qed

text \<open>
  The witness: the reply to the client is lost. What the client prints is what its stack held, and
  the test has passed.
\<close>

theorem verdict_ignores_count_witness:
  "\<exists>bs. tty (snd (test_normal_operation (easy_machine\<lparr>downlink := \<lambda>_ _. []\<rparr>) small_world)) =
    [''Testing normal operation...'', ''# of printable characters: 117440512'',
     ''Expected count: '' @ show_int (of_nat (printables bs)), ''Client exit code: 0'', ''Test PASSED'', []]"
proof -
  let ?m = "easy_machine\<lparr>downlink := \<lambda>_ _. []\<rparr>"
  obtain bs r w' where r: "r = fst (client_process ?m 1 (client_argv TEST_FILE) w')"
      "disk w' TEST_FILE = Some bs" "service w' = (server_init, Waiting)"
      "tty (snd (test_normal_operation ?m small_world)) =
        [''Testing normal operation...''] @ printed r @
        [''Expected count: '' @ show_int (of_nat (printables bs)),
         ''Client exit code: '' @ show_int (if exit_status r = 1 then 1 else 0),
         ''Test '' @ (if exit_status r = 1 then ''FAILED'' else ''PASSED''), []]"
    using verdict_ignores_count [of ?m small_world]
    by (auto simp: small_world_def easy_machine_def)
  have "good_client ?m 1"
    using smooth_easy by (simp add: smooth_def good_link_def good_client_def)
  then have "r = \<lparr>wire = request bs, printed = [''# of printable characters: '' @
      decimal (unat (ntohl 7))], errors = [], exit_status = 0\<rparr>"
    unfolding r(1) using client_process_no_reply [of ?m 1 TEST_FILE w' bs] r(2,3)
    by (simp add: easy_machine_def example_client_def)
  moreover have "unat (ntohl 7) = 117440512"
    by (simp add: ntohl_def u32_bytes_def u32_of_bytes_def)
  moreover have "decimal 117440512 = ''117440512''"
    by (simp add: decimal.simps char_of_eq_iff take_bit_eq_mod)
  ultimately show ?thesis using r(4) by auto
qed

end
