(* ===== verification/Spec2Isabelle.thy ===== *)
theory Spec2Isabelle
  imports Os_Main Shell_Session Shell_Signals Slot_Tools Msg_Slot_Unload Msg_Slot_Fail Queue_Single Queue_Bound
    Pcc_Tester
begin

text \<open>
  A verification of the five C programs of the repository, one for each directory under \<open>src/\<close>:
  a page table (\<open>hw1\<close>), a shell (\<open>hw2\<close>), a kernel module for message slots with its two
  command-line tools (\<open>hw3\<close>), a concurrent queue (\<open>hw4\<close>), and a server with its client that
  count printable characters (\<open>hw5\<close>).

  \<^bold>\<open>Foundations.\<close> \<open>C_Prelude\<close> has the outcomes of C code: a value, an exit of the process, or a
  fault where C leaves the behaviour undefined (null, dangling and uninitialised accesses, accesses
  out of bounds, bad frees, failed assertions). Statements are put in sequence with \<open>bindR\<close>;
  the judgements \<open>ends\<close> and \<open>returns\<close> are total, a fault satisfies neither. \<open>C_Heap\<close> has pointers
  and linked lists in a heap, \<open>C_Stdlib\<close> the library functions on numbers. Machine integers are
  words of their width wherever they can wrap around: page numbers and table entries (64 bits), the
  counters of the server (32 bits), the channel ids (64 bits, cut to 32), the counters of the queue.

  \<^bold>\<open>hw1.\<close> \<open>Os_Memory\<close> models \<open>alloc_page_frame\<close> and \<open>phys_to_virt\<close> of \<open>os.c\<close> over the static array
  of pages and what \<open>mmap\<close> returns; \<open>Page_Table\<close> models \<open>pt.c\<close>. Its locale \<open>page_tables\<close> states the
  laws of a table, a query after an update, and is interpreted on \<open>page_table_update\<close> and
  \<open>page_table_query\<close> (\<open>os_pt\<close>); the invariant says that the valid entries form a tree of frames.
  \<open>Os_Main\<close> runs the test program \<open>main\<close> of \<open>os.c\<close> through that interface, with each of its assertions.

  \<^bold>\<open>hw2.\<close> \<open>My_Shell\<close> models \<open>myshell.c\<close>: the parent and the children of \<open>process_arglist\<close> over
  tables of open files, signal dispositions and running children; which system calls succeed is an
  input. \<open>My_Shell_Spec\<close> shows what each form of command line does; \<open>Shell_Signals\<close> lets the handler of
  \<open>SIGCHLD\<close> run between any two system calls and shows that this changes nothing but who is reaped. \<open>Shell_Line\<close> models \<open>main\<close> of
  \<open>shell.c\<close> and proves sessions from the contract \<open>arglist_handler\<close>; \<open>Shell_Session\<close> interprets it on
  \<open>process_arglist\<close> (\<open>myshell\<close>). A \<open>waitpid\<close> for a child is taken to return once the child has
  ended; that it can end is seen from the order in which the shell closes the ends of a pipe.

  \<^bold>\<open>hw3.\<close> \<open>Msg_Slot\<close> models every function of \<open>message_slot.c\<close> over an explicit kernel heap, in which
  an object that is freed is gone; each call of \<open>kmalloc\<close> may fail, which the parameter \<open>km\<close> decides
  from the number of the call. \<open>Msg_Slot_Ops\<close> shows the effect of each call on what the channels
  store, \<open>Msg_Slot_Fail\<close> what a failed write leaves behind, \<open>Msg_Slot_Unload\<close> the unloading of the
  module. The theorems are about histories of fewer
  than \<open>2^31\<close> calls, since \<open>list_size\<close> is an \<open>int\<close>; the loops over a list have as fuel its length,
  and no theorem concludes anything from a loop that was cut off. \<open>Slot_Tools\<close> models
  \<open>message_sender.c\<close> and \<open>message_reader.c\<close> on top of the contract \<open>message_slot\<close>, interpreted on the
  module (\<open>slots\<close>).

  \<^bold>\<open>hw4.\<close> \<open>Work_Queue\<close> models the data of \<open>queue.c\<close> and what its functions do while they hold the
  mutex. Its locale \<open>fifo_queue\<close>, with the law that what goes in is what comes out followed by what
  is inside, is interpreted on them (\<open>wq\<close>). \<open>Queue_Threads\<close> has the threads: a step relation with
  the mutex, condition variables that may wake up spuriously, and any address from \<open>malloc\<close>, and an
  invariant that every step keeps. \<open>Queue_Runs\<close> draws the theorems from it, over all interleavings
  of any number of threads, and gives the steps an executable form; \<open>Queue_End\<close> shows that no item
  leaks and what \<open>destroyQueue\<close> does. \<open>Queue_Clients\<close> gives every thread a list of calls to make on
  pointers to integers, which it allocates, reads and frees; \<open>Queue_Cells\<close> refines these programs from
  a small machine on which every integer has one owner, and draws from it that none is used after
  its end, leaks, or gets lost. \<open>Queue_Tests\<close> has the threads of the tests \<open>test_queue.c\<close> and
  \<open>test2.c\<close>, which are safe and cannot hang, and runs in which \<open>test_fifo_order\<close> fails for any two of its
  consumers; \<open>Queue_Bound\<close> bounds the steps of these tests by the number of their items, retries and
  spurious wake-ups aside, and shows that from every state they can come to their end without a
  spurious wake-up; \<open>Queue_Single\<close> has the tests that use one thread. Addresses have 64 bits and are not zero, so the queue
  has fewer than \<open>2^64\<close> items; the failure of \<open>malloc\<close> is a fault and is not followed.

  \<^bold>\<open>hw5.\<close> \<open>Pcc_Wire\<close> has the byte stream between the programs, \<open>Pcc_Server\<close> and \<open>Pcc_Client\<close> model
  \<open>pcc_server.c\<close> and \<open>pcc_client.c\<close> with short counts and errors of \<open>recv\<close> and \<open>send\<close>, the locale
  \<open>counting_service\<close> is interpreted on the server (\<open>pcc\<close>). \<open>SIGINT\<close> comes at \<open>accept\<close> or during the
  service of a client: \<open>serve_moments\<close> runs the service and lists the moments at which what it has sent
  or counted changes, and the handler sees one of them. \<open>Pcc_Session\<close> puts both together. \<open>Pcc_Tester\<close>
  models the test program \<open>tester2.c\<close> with the server and the clients that it starts as processes: the
  transcript of a whole run, the agreement of the three programs on the number of printable characters,
  and what a verdict of the tester is worth.

  \<^bold>\<open>Not modelled.\<close> Output texts, except where a theorem is about them; the interruption of a single
  system call by a signal; races on the counters of the queue that are read
  without the mutex; \<open>hw5/tester.py\<close>, which is not C; the build files and macros of the kernel module.
\<close>

end
